(* ===== verification/Prelude.thy ===== *)
theory Prelude
  imports Main "HOL-Library.Word"
begin

text \<open>
  Shared vocabulary of the development: the machine integers of the Rust source as words of
  their width, the bit pattern model of \<open>f64\<close>, and the generic lemmas on words, lists and
  folds that the component theories use.
\<close>

unbundle bit_operations_syntax

subsection \<open>Machine integers\<close>

type_synonym u8 = "8 word"
type_synonym u16 = "16 word"
type_synonym u32 = "32 word"
type_synonym u64 = "64 word"

text \<open>
  Facts that take a masked word apart, and facts that move between a word and its value.
\<close>

named_theorems word_parts
named_theorems word_vals

lemma or_and_absorb [word_parts]: "(a OR b) AND b = (b :: 'a :: len word)"
  by (rule bit_word_eqI) (auto simp: bit_simps)

lemma or_and_absorb2 [word_parts]: "(a OR b OR c) AND b = (b :: 'a :: len word)"
  by (rule bit_word_eqI) (auto simp: bit_simps)

lemma or_and_distrib [word_parts]:
  "(a OR b) AND m = (a AND m) OR (b AND m :: 'a :: len word)"
  by (rule bit_word_eqI) (auto simp: bit_simps)

lemma and_mask_idem [word_parts]: "(a AND m) AND m = (a AND m :: 'a :: len word)"
  by (rule bit_word_eqI) (auto simp: bit_simps)

lemma and_and_disjoint [word_parts]:
  "m AND k = 0 \<Longrightarrow> (a AND m) AND k = (0 :: 'a :: len word)"
  by (metis and.assoc and_zero_eq)

lemma unat_inject [simp]: "unat a = unat b \<longleftrightarrow> a = (b :: 'a :: len word)"
  by (simp add: word_unat_eq_iff)

subsection \<open>Partial indexing\<close>

text \<open>\<open>slice.get(i)\<close>: the element, or \<open>None\<close> past the end.\<close>

definition get_opt :: "'a list \<Rightarrow> nat \<Rightarrow> 'a option" where
  "get_opt xs i = (if i < length xs then Some (xs ! i) else None)"

lemma get_opt_simps [simp]:
  "get_opt [] i = None"
  "i < length xs \<Longrightarrow> get_opt xs i = Some (xs ! i)"
  "length xs \<le> i \<Longrightarrow> get_opt xs i = None"
  by (simp_all add: get_opt_def)

lemma get_opt_eq_Some: "get_opt xs i = Some x \<longleftrightarrow> i < length xs \<and> xs ! i = x"
  by (auto simp: get_opt_def)

lemma get_opt_eq_None: "get_opt xs i = None \<longleftrightarrow> length xs \<le> i"
  by (auto simp: get_opt_def)

lemma get_opt_in_set: "get_opt xs i = Some x \<Longrightarrow> x \<in> set xs"
  by (auto simp: get_opt_eq_Some)

lemma get_opt_update:
  "get_opt (xs[i := x]) j = (if j = i \<and> i < length xs then Some x else get_opt xs j)"
  by (auto simp: get_opt_def)

lemma get_opt_append:
  "get_opt (xs @ ys) i = (if i < length xs then Some (xs ! i) else get_opt ys (i - length xs))"
  by (auto simp: get_opt_def nth_append)

lemma nth_update_if: "k < length xs \<Longrightarrow> xs[i := x] ! k = (if k = i then x else xs ! k)"
  by simp

subsection \<open>Ordering\<close>

text \<open>\<open>core::cmp::Ordering\<close> and \<open>Ord::cmp\<close>.\<close>

datatype ordering = Less | Equal | Greater

definition cmp :: "'a :: linorder \<Rightarrow> 'a \<Rightarrow> ordering" where
  "cmp a b = (if a < b then Less else if a = b then Equal else Greater)"

lemma cmp_simps [simp]: "cmp x x = Equal" "cmp x y = Equal \<longleftrightarrow> x = (y :: 'a :: linorder)"
  by (auto simp: cmp_def)

end
