(* ===== verification/Nanbox.thy ===== *)
theory Nanbox
  imports Prelude
begin

text \<open>
  The NaN-boxed value representation of \<open>src/src/nanbox.rs\<close>: every JavaScript value is one
  64-bit word. A double is modelled by its IEEE-754 bit pattern, so \<open>f64::to_bits\<close> and
  \<open>f64::from_bits\<close> are the constructor and the selector of the type below, and the
  comparisons the source uses (\<open>is_nan\<close>, \<open>==\<close>, \<open>is_sign_negative\<close>) are written out on the
  pattern.
\<close>

subsection \<open>Doubles as bit patterns\<close>

datatype f64 = F64 (f64_bits: u64)

definition f64_is_nan :: "f64 \<Rightarrow> bool" where
  "f64_is_nan x = (0x7ff0000000000000 < (f64_bits x AND 0x7fffffffffffffff))"

definition f64_is_zero :: "f64 \<Rightarrow> bool" where
  "f64_is_zero x = ((f64_bits x AND 0x7fffffffffffffff) = 0)"

definition f64_is_sign_negative :: "f64 \<Rightarrow> bool" where
  "f64_is_sign_negative x = bit (f64_bits x) 63"

definition f64_eq :: "f64 \<Rightarrow> f64 \<Rightarrow> bool" where
  "f64_eq a b = (\<not> f64_is_nan a \<and> \<not> f64_is_nan b \<and>
     (f64_bits a = f64_bits b \<or> (f64_is_zero a \<and> f64_is_zero b)))"

subsection \<open>The encoding\<close>

datatype nanbox = NanBox (nb_bits: u64)

definition QNAN :: u64 where "QNAN = 0x7ffc000000000000"
definition SIGN :: u64 where "SIGN = 0x8000000000000000"
definition TAG_UNDEFINED :: u64 where "TAG_UNDEFINED = QNAN OR 0x01"
definition TAG_NULL :: u64 where "TAG_NULL = QNAN OR 0x02"
definition TAG_FALSE :: u64 where "TAG_FALSE = QNAN OR 0x03"
definition TAG_TRUE :: u64 where "TAG_TRUE = QNAN OR 0x04"
definition TAG_HOLE :: u64 where "TAG_HOLE = QNAN OR 0x05"
definition TAG_EMPTY :: u64 where "TAG_EMPTY = QNAN OR 0x06"
definition TAG_TDZ :: u64 where "TAG_TDZ = QNAN OR 0x07"
definition TAG_JIT_THROW :: u64 where "TAG_JIT_THROW = QNAN OR 0x08"
definition TAG_JIT_FALLOFF :: u64 where "TAG_JIT_FALLOFF = QNAN OR 0x09"
definition TAG_JIT_EXIT :: u64 where "TAG_JIT_EXIT = QNAN OR 0x0a"
definition CANONICAL_NAN :: u64 where "CANONICAL_NAN = 0xfff8000000000000"
definition HANDLE_MASK :: u64 where "HANDLE_MASK = 0x0000ffffffffffff"

datatype unpacked =
  Undefined | Null | Bool bool | Number f64 | Handle u64

definition undefined_box :: nanbox where "undefined_box = NanBox TAG_UNDEFINED"
definition null_box :: nanbox where "null_box = NanBox TAG_NULL"
definition hole :: nanbox where "hole = NanBox TAG_HOLE"
definition is_hole :: "nanbox \<Rightarrow> bool" where "is_hole b = (nb_bits b = TAG_HOLE)"
definition empty_completion :: nanbox where "empty_completion = NanBox TAG_EMPTY"
definition is_empty_completion :: "nanbox \<Rightarrow> bool" where
  "is_empty_completion b = (nb_bits b = TAG_EMPTY)"
definition tdz :: nanbox where "tdz = NanBox TAG_TDZ"
definition is_tdz :: "nanbox \<Rightarrow> bool" where "is_tdz b = (nb_bits b = TAG_TDZ)"
definition jit_throw_sentinel :: nanbox where "jit_throw_sentinel = NanBox TAG_JIT_THROW"
definition jit_throw_bits :: u64 where "jit_throw_bits = TAG_JIT_THROW"
definition is_jit_throw_sentinel :: "nanbox \<Rightarrow> bool" where
  "is_jit_throw_sentinel b = (nb_bits b = TAG_JIT_THROW)"
definition jit_falloff_bits :: u64 where "jit_falloff_bits = TAG_JIT_FALLOFF"
definition jit_exit_bits :: u64 where "jit_exit_bits = TAG_JIT_EXIT"

definition boolean :: "bool \<Rightarrow> nanbox" where
  "boolean b = NanBox (if b then TAG_TRUE else TAG_FALSE)"

definition number :: "f64 \<Rightarrow> nanbox" where
  "number n = (if f64_is_nan n then NanBox CANONICAL_NAN else NanBox (f64_bits n))"

definition handle :: "u64 \<Rightarrow> nanbox" where
  "handle index = NanBox (SIGN OR QNAN OR (index AND HANDLE_MASK))"

definition to_bits :: "nanbox \<Rightarrow> u64" where "to_bits b = nb_bits b"
definition from_bits :: "u64 \<Rightarrow> nanbox" where "from_bits w = NanBox w"

definition is_number :: "nanbox \<Rightarrow> bool" where
  "is_number b = ((nb_bits b AND QNAN) \<noteq> QNAN)"

definition is_handle :: "nanbox \<Rightarrow> bool" where
  "is_handle b = (\<not> is_number b \<and> (nb_bits b AND SIGN) = SIGN)"

definition is_undefined :: "nanbox \<Rightarrow> bool" where
  "is_undefined b = (nb_bits b = TAG_UNDEFINED \<or> nb_bits b = TAG_HOLE \<or>
     nb_bits b = TAG_EMPTY \<or> nb_bits b = TAG_TDZ)"

definition is_null :: "nanbox \<Rightarrow> bool" where "is_null b = (nb_bits b = TAG_NULL)"

definition is_boolean :: "nanbox \<Rightarrow> bool" where
  "is_boolean b = (nb_bits b = TAG_TRUE \<or> nb_bits b = TAG_FALSE)"

definition as_number :: "nanbox \<Rightarrow> f64 option" where
  "as_number b = (if is_number b then Some (F64 (nb_bits b)) else None)"

definition as_boolean :: "nanbox \<Rightarrow> bool option" where
  "as_boolean b =
     (if nb_bits b = TAG_TRUE then Some True
      else if nb_bits b = TAG_FALSE then Some False
      else None)"

definition as_handle :: "nanbox \<Rightarrow> u64 option" where
  "as_handle b = (if is_handle b then Some (nb_bits b AND HANDLE_MASK) else None)"

definition unpack :: "nanbox \<Rightarrow> unpacked" where
  "unpack b =
     (if is_number b then Number (F64 (nb_bits b))
      else if nb_bits b \<in> {TAG_UNDEFINED, TAG_HOLE, TAG_EMPTY, TAG_TDZ} then Undefined
      else if nb_bits b = TAG_NULL then Null
      else if nb_bits b = TAG_TRUE then Bool True
      else if nb_bits b = TAG_FALSE then Bool False
      else Handle (nb_bits b AND HANDLE_MASK))"

subsection \<open>ECMAScript abstract operations on boxes\<close>

definition to_boolean :: "nanbox \<Rightarrow> bool" where
  "to_boolean b = (case unpack b of
       Undefined \<Rightarrow> False
     | Null \<Rightarrow> False
     | Bool v \<Rightarrow> v
     | Number n \<Rightarrow> \<not> f64_eq n (F64 0) \<and> \<not> f64_is_nan n
     | Handle _ \<Rightarrow> True)"

definition strict_equals :: "nanbox \<Rightarrow> nanbox \<Rightarrow> bool" where
  "strict_equals a b =
     (if is_number a \<and> is_number b then f64_eq (F64 (nb_bits a)) (F64 (nb_bits b))
      else nb_bits a = nb_bits b)"

definition same_value :: "nanbox \<Rightarrow> nanbox \<Rightarrow> bool" where
  "same_value x y =
     (if is_number x \<and> is_number y then
        (let a = F64 (nb_bits x); b = F64 (nb_bits y) in
         if f64_is_nan a \<and> f64_is_nan b then True
         else if f64_eq a (F64 0) \<and> f64_eq b (F64 0)
           then f64_is_sign_negative a = f64_is_sign_negative b
         else f64_eq a b)
      else nb_bits x = nb_bits y)"

definition type_of :: "nanbox \<Rightarrow> string" where
  "type_of b = (case unpack b of
       Undefined \<Rightarrow> ''undefined''
     | Null \<Rightarrow> ''object''
     | Bool _ \<Rightarrow> ''boolean''
     | Number _ \<Rightarrow> ''number''
     | Handle _ \<Rightarrow> ''object'')"

subsection \<open>Bit-level facts\<close>

lemmas tag_defs =
  TAG_UNDEFINED_def TAG_NULL_def TAG_FALSE_def TAG_TRUE_def TAG_HOLE_def TAG_EMPTY_def
  TAG_TDZ_def TAG_JIT_THROW_def TAG_JIT_FALLOFF_def TAG_JIT_EXIT_def QNAN_def SIGN_def
  CANONICAL_NAN_def HANDLE_MASK_def

lemmas box_defs =
  undefined_box_def null_box_def hole_def empty_completion_def tdz_def boolean_def
  jit_throw_sentinel_def is_undefined_def is_null_def is_boolean_def is_hole_def
  is_empty_completion_def is_tdz_def

lemma qnan_imp_nan:
  assumes "w AND QNAN = QNAN"
  shows "f64_is_nan (F64 w)"
proof -
  have "QNAN = (w AND 0x7fffffffffffffff) AND QNAN"
    using assms by (simp add: and.assoc QNAN_def)
  also have "\<dots> \<le> w AND 0x7fffffffffffffff"
    by (rule word_and_le2)
  finally have "QNAN \<le> w AND 0x7fffffffffffffff" .
  moreover have "(0x7ff0000000000000 :: u64) < QNAN"
    by (simp add: QNAN_def)
  ultimately show ?thesis
    by (simp add: f64_is_nan_def)
qed

lemma number_not_boxed: "\<not> f64_is_nan n \<Longrightarrow> f64_bits n AND QNAN \<noteq> QNAN"
  using qnan_imp_nan by (metis f64.collapse)

lemma canonical_nan_is_nan: "f64_is_nan (F64 CANONICAL_NAN)"
  by (simp add: f64_is_nan_def CANONICAL_NAN_def)

lemma canonical_nan_not_boxed: "CANONICAL_NAN AND QNAN \<noteq> QNAN"
  by (simp add: CANONICAL_NAN_def QNAN_def)

lemma is_number_number [simp]: "is_number (number n)"
  by (simp add: is_number_def number_def number_not_boxed canonical_nan_not_boxed)

lemma handle_parts:
  "(SIGN OR QNAN OR (i AND HANDLE_MASK)) AND QNAN = QNAN"
  "(SIGN OR QNAN OR (i AND HANDLE_MASK)) AND SIGN = SIGN"
  "(SIGN OR QNAN OR (i AND HANDLE_MASK)) AND HANDLE_MASK = i AND HANDLE_MASK"
  "(SIGN OR QNAN OR (i AND HANDLE_MASK)) AND 0x3000000000000 = 0"
  by (simp_all add: word_parts and.assoc or.assoc tag_defs)

lemma is_handle_handle [simp]: "is_handle (handle i)"
  by (simp add: is_handle_def is_number_def handle_def handle_parts)

lemma is_number_handle [simp]: "\<not> is_number (handle i)"
  using is_handle_handle [of i] by (simp add: is_handle_def)

lemma as_handle_handle: "as_handle (handle i) = Some (i AND HANDLE_MASK)"
  by (simp add: as_handle_def) (simp add: handle_def handle_parts)


lemma handle_not_tag:
  assumes "t AND SIGN \<noteq> SIGN"
  shows "nb_bits (handle i) \<noteq> t"
  using assms handle_parts(2) by (auto simp: handle_def)

lemma tags_unsigned:
  "t \<in> {TAG_UNDEFINED, TAG_NULL, TAG_FALSE, TAG_TRUE, TAG_HOLE, TAG_EMPTY, TAG_TDZ}
     \<Longrightarrow> t AND SIGN \<noteq> SIGN"
  by (auto simp: tag_defs)

lemma unpack_handle: "unpack (handle i) = Handle (i AND HANDLE_MASK)"
proof -
  have "nb_bits (handle i) AND HANDLE_MASK = i AND HANDLE_MASK"
    by (simp add: handle_def handle_parts)
  then show ?thesis
    by (simp add: unpack_def handle_not_tag tags_unsigned)
qed

lemma unpack_number: "unpack (number n) = Number (if f64_is_nan n then F64 CANONICAL_NAN else n)"
  by (simp add: unpack_def) (simp add: number_def)

lemma singleton_not_number:
  "\<not> is_number undefined_box" "\<not> is_number null_box" "\<not> is_number (boolean v)"
  "\<not> is_number hole" "\<not> is_number empty_completion" "\<not> is_number tdz"
  "\<not> is_number jit_throw_sentinel"
  by (simp_all add: is_number_def box_defs tag_defs)

lemma unpack_singletons:
  "unpack undefined_box = Undefined" "unpack null_box = Null" "unpack (boolean v) = Bool v"
  "unpack hole = Undefined" "unpack empty_completion = Undefined" "unpack tdz = Undefined"
  by (simp_all add: unpack_def singleton_not_number) (simp_all add: box_defs tag_defs)

subsection \<open>Canonical boxes\<close>

text \<open>
  The words the engine's constructors can produce: a double whose NaN, if it is one, is the
  canonical pattern; a handle whose two bits between the quiet-NaN pattern and the 48-bit
  payload are clear; or one of the immediate tags. Everything else (the JIT's out-of-band
  sentinels among them) is not a value.
\<close>

definition immediate_tags :: "u64 list" where
  "immediate_tags =
     [TAG_UNDEFINED, TAG_NULL, TAG_FALSE, TAG_TRUE, TAG_HOLE, TAG_EMPTY, TAG_TDZ]"

definition canonical_box :: "nanbox \<Rightarrow> bool" where
  "canonical_box b =
     (if is_number b then f64_is_nan (F64 (nb_bits b)) \<longrightarrow> nb_bits b = CANONICAL_NAN
      else if is_handle b then nb_bits b AND 0x3000000000000 = 0
      else nb_bits b \<in> set immediate_tags)"

lemma singleton_not_handle:
  "\<not> is_handle undefined_box" "\<not> is_handle null_box" "\<not> is_handle (boolean v)"
  "\<not> is_handle hole" "\<not> is_handle empty_completion" "\<not> is_handle tdz"
  by (simp_all add: is_handle_def box_defs tag_defs)

lemma singleton_immediate:
  "nb_bits undefined_box \<in> set immediate_tags" "nb_bits null_box \<in> set immediate_tags"
  "nb_bits (boolean v) \<in> set immediate_tags" "nb_bits hole \<in> set immediate_tags"
  "nb_bits empty_completion \<in> set immediate_tags" "nb_bits tdz \<in> set immediate_tags"
  by (simp_all add: immediate_tags_def box_defs)

text \<open>The inverse of \<^const>\<open>unpack\<close>: the constructor that builds a decoded value.\<close>

fun pack :: "unpacked \<Rightarrow> nanbox" where
  "pack Undefined = undefined_box"
| "pack Null = null_box"
| "pack (Bool v) = boolean v"
| "pack (Number n) = number n"
| "pack (Handle i) = handle i"

lemma canonical_pack [simp]: "canonical_box (pack u)"
proof (cases u)
  case (Number n)
  then show ?thesis
    by (simp add: canonical_box_def) (simp add: number_def)
next
  case (Handle i)
  then show ?thesis
    by (simp add: canonical_box_def) (simp add: handle_def handle_parts)
qed (simp_all add: canonical_box_def singleton_not_number singleton_not_handle
       singleton_immediate)

lemma handle_word_eq:
  assumes "w AND QNAN = QNAN" "w AND SIGN = SIGN" "w AND 0x3000000000000 = 0"
  shows "SIGN OR QNAN OR (w AND HANDLE_MASK) = w"
proof -
  have all: "(SIGN OR QNAN OR 0x3000000000000 OR HANDLE_MASK) = (- 1 :: u64)"
    by (simp add: tag_defs)
  have "w = w AND (SIGN OR QNAN OR 0x3000000000000 OR HANDLE_MASK)"
    by (simp only: all) simp
  also have "\<dots> = (w AND SIGN) OR (w AND QNAN) OR (w AND 0x3000000000000) OR (w AND HANDLE_MASK)"
    by (rule bit_word_eqI) (auto simp: bit_simps)
  finally show ?thesis
    using assms by simp
qed

lemma handle_of_is_handle:
  assumes "is_handle b" "canonical_box b"
  shows "handle (nb_bits b AND HANDLE_MASK) = b"
proof -
  have "nb_bits b AND QNAN = QNAN" "nb_bits b AND SIGN = SIGN" "nb_bits b AND 0x3000000000000 = 0"
    using assms by (auto simp: is_handle_def is_number_def canonical_box_def)
  then have "SIGN OR QNAN OR (nb_bits b AND HANDLE_MASK) = nb_bits b"
    by (rule handle_word_eq)
  then show ?thesis
    by (simp add: handle_def word_parts)
qed

lemma canonical_cases [consumes 1, case_names Number Handle Immediate]:
  assumes "canonical_box b"
  obtains n where "b = number n" "is_number b"
  | i where "b = handle i" "is_handle b"
  | "nb_bits b \<in> set immediate_tags" "\<not> is_number b" "\<not> is_handle b"
proof (cases "is_number b")
  case True
  with assms have "b = number (F64 (nb_bits b))"
    by (cases b) (auto simp: canonical_box_def number_def split: if_splits)
  with True show ?thesis using that(1) by blast
next
  case False
  note nn = this
  show ?thesis
  proof (cases "is_handle b")
    case True
    with assms show ?thesis using that(2) handle_of_is_handle by metis
  next
    case False
    with assms nn show ?thesis using that(3) by (simp add: canonical_box_def)
  qed
qed

lemma unpack_pack:
  assumes "\<And>n. u = Number n \<Longrightarrow> f64_is_nan n \<Longrightarrow> n = F64 CANONICAL_NAN"
    and "\<And>i. u = Handle i \<Longrightarrow> i AND HANDLE_MASK = i"
  shows "unpack (pack u) = u"
  using assms by (cases u) (auto simp: unpack_singletons unpack_number unpack_handle)

lemma pack_unpack:
  assumes "canonical_box b" and "\<not> is_hole b" "\<not> is_empty_completion b" "\<not> is_tdz b"
  shows "pack (unpack b) = b"
  using assms(1)
proof (cases rule: canonical_cases)
  case (Number n)
  then show ?thesis
    by (simp add: unpack_number) (simp add: number_def canonical_nan_is_nan)
next
  case (Handle i)
  then show ?thesis
    by (simp add: unpack_handle) (simp add: handle_def word_parts)
next
  case Immediate
  have "nb_bits b \<notin> {TAG_HOLE, TAG_EMPTY, TAG_TDZ}"
    using assms(2-4) by (simp add: is_hole_def is_empty_completion_def is_tdz_def)
  with Immediate(1) have "b \<in> {undefined_box, null_box, boolean False, boolean True}"
    by (cases b) (auto simp: immediate_tags_def box_defs)
  then show ?thesis
    by (auto simp: unpack_singletons)
qed

subsection \<open>Equality\<close>

lemma low63_mask: "(0x7fffffffffffffff :: u64) = mask 63"
  by (simp add: mask_eq_exp_minus_1)

lemma zero_pattern_eq:
  assumes "f64_is_zero a" "f64_is_zero b"
    and "f64_is_sign_negative a = f64_is_sign_negative b"
  shows "f64_bits a = f64_bits b"
proof (rule bit_word_eqI)
  fix n :: nat
  assume n: "n < LENGTH(64)"
  have low: "\<not> bit (f64_bits x) n" if "f64_is_zero x" "n < 63" for x
  proof -
    have "bit (f64_bits x AND mask 63) n = bit (f64_bits x) n"
      using that n by (simp add: bit_simps)
    moreover have "f64_bits x AND mask 63 = 0"
      using that(1) by (simp add: f64_is_zero_def low63_mask)
    ultimately show ?thesis by simp
  qed
  show "bit (f64_bits a) n = bit (f64_bits b) n"
  proof (cases "n < 63")
    case True
    then show ?thesis using low assms(1,2) by blast
  next
    case False
    with n have "n = 63" by simp
    then show ?thesis using assms(3) by (simp add: f64_is_sign_negative_def)
  qed
qed

lemma f64_eq_zero: "f64_eq a (F64 0) \<longleftrightarrow> f64_is_zero a"
  by (auto simp: f64_eq_def f64_is_zero_def f64_is_nan_def)

lemma canonical_number_nan:
  "canonical_box b \<Longrightarrow> is_number b \<Longrightarrow> f64_is_nan (F64 (nb_bits b)) \<Longrightarrow> nb_bits b = CANONICAL_NAN"
  by (simp add: canonical_box_def)

lemma same_value_is_identity:
  assumes "canonical_box x" "canonical_box y"
  shows "same_value x y \<longleftrightarrow> x = y"
proof (cases "is_number x \<and> is_number y")
  case True
  let ?a = "F64 (nb_bits x)" and ?b = "F64 (nb_bits y)"
  have nans: "nb_bits x = nb_bits y" if "f64_is_nan ?a" "f64_is_nan ?b"
    using that assms True canonical_number_nan by metis
  have zeros: "nb_bits x = nb_bits y"
    if "f64_is_zero ?a" "f64_is_zero ?b" "f64_is_sign_negative ?a = f64_is_sign_negative ?b"
    using zero_pattern_eq [OF that] by simp
  have "same_value x y \<longleftrightarrow> nb_bits x = nb_bits y"
    using True nans zeros
    unfolding same_value_def Let_def f64_eq_zero by (auto simp: f64_eq_def)
  then show ?thesis
    by (cases x; cases y) simp
next
  case False
  then show ?thesis
    by (cases x; cases y) (auto simp: same_value_def)
qed

lemma strict_equals_iff:
  assumes "canonical_box x" "canonical_box y"
  shows "strict_equals x y \<longleftrightarrow>
    (x = y \<and> x \<noteq> number (F64 CANONICAL_NAN)) \<or>
    (x \<in> {number (F64 0), number (F64 SIGN)} \<and> y \<in> {number (F64 0), number (F64 SIGN)})"
proof -
  have nn: "number (F64 CANONICAL_NAN) = NanBox CANONICAL_NAN"
    by (simp add: number_def canonical_nan_is_nan)
  have zz: "number (F64 0) = NanBox 0" "number (F64 SIGN) = NanBox SIGN"
    by (simp_all add: number_def f64_is_nan_def SIGN_def)
  have zn: "is_number (NanBox 0)" "is_number (NanBox SIGN)" "is_number (NanBox CANONICAL_NAN)"
    by (simp_all add: is_number_def tag_defs)
  have z: "f64_is_zero (F64 w) \<longleftrightarrow> w = 0 \<or> w = SIGN" for w
    using zero_pattern_eq [of "F64 w" "F64 0"] zero_pattern_eq [of "F64 w" "F64 SIGN"]
    by (auto simp: f64_is_zero_def f64_is_sign_negative_def SIGN_def)
  have nan0: "\<not> f64_is_nan (F64 0)" "\<not> f64_is_nan (F64 SIGN)"
    by (simp_all add: f64_is_nan_def SIGN_def)
  have nan: "f64_is_nan (F64 (nb_bits b)) \<longleftrightarrow> b = NanBox CANONICAL_NAN"
    if "canonical_box b" "is_number b" for b
    using canonical_number_nan [OF that] canonical_nan_is_nan by (cases b) auto
  show ?thesis
    using assms zn nan [of x] nan [of y] nan0
    by (cases x; cases y) (auto simp: strict_equals_def nn zz f64_eq_def z)
qed

text \<open>C38: packing and unpacking are inverse: decoding a box built from a value gives the value back, when its
  number is no non-canonical NaN and its handle fits the 48-bit payload, and a canonical box that is not one of the
  internal sentinels is rebuilt exactly from its decoded view.\<close>

theorem pack_unpack_inverse:
  "((\<forall>n. u = Number n \<and> f64_is_nan n \<longrightarrow> n = F64 CANONICAL_NAN) \<and> (\<forall>i. u = Handle i \<longrightarrow> i AND HANDLE_MASK = i)
      \<longrightarrow> unpack (pack u) = u) \<and>
   (canonical_box b \<and> \<not> is_hole b \<and> \<not> is_empty_completion b \<and> \<not> is_tdz b \<longrightarrow> pack (unpack b) = b)"
  by (blast intro: unpack_pack pack_unpack)

text \<open>C40: the two equalities on canonical boxes. SameValue is equality of the encoded words: the single canonical
  NaN makes \<open>NaN\<close> equal to itself and the sign bit keeps \<open>+0\<close> and \<open>-0\<close> apart. Strict equality differs from it
  exactly at the two IEEE-754 exceptions: a \<open>NaN\<close> is not equal to itself, and the two zeros are equal.\<close>

theorem equalities_correct:
  assumes "canonical_box x" "canonical_box y"
  shows "(same_value x y \<longleftrightarrow> x = y) \<and>
    (strict_equals x y \<longleftrightarrow> (x = y \<and> x \<noteq> number (F64 CANONICAL_NAN)) \<or>
      (x \<in> {number (F64 0), number (F64 SIGN)} \<and> y \<in> {number (F64 0), number (F64 SIGN)}))"
  using same_value_is_identity [OF assms] strict_equals_iff [OF assms] by blast

subsection \<open>Classification\<close>

definition box_classes :: "nanbox \<Rightarrow> bool list" where
  "box_classes b = [is_number b, is_handle b, is_undefined b, is_null b, is_boolean b]"

lemma tag_classes:
  assumes "nb_bits b \<in> set immediate_tags" "\<not> is_number b" "\<not> is_handle b"
  shows "length (filter id (box_classes b)) = 1"
    and "type_of b = (if is_undefined b then ''undefined''
           else if is_boolean b then ''boolean'' else ''object'')"
  using assms
  by (auto simp: box_classes_def immediate_tags_def is_undefined_def is_null_def
      is_boolean_def type_of_def unpack_def tag_defs)

lemma boxed_not_immediate:
  assumes "is_number b \<or> is_handle b"
  shows "\<not> is_undefined b" "\<not> is_null b" "\<not> is_boolean b"
  using assms
  by (auto simp: is_number_def is_handle_def is_undefined_def is_null_def is_boolean_def tag_defs)

text \<open>The partial readers answer for exactly the boxes of their class, with the value the box was made from.\<close>

lemma as_number_exact:
  assumes "canonical_box b"
  shows "as_number b = Some n \<longleftrightarrow> b = number n \<and> (f64_is_nan n \<longrightarrow> n = F64 CANONICAL_NAN)"
proof
  assume "as_number b = Some n"
  then have n: "is_number b" "n = F64 (nb_bits b)" by (simp_all add: as_number_def split: if_splits)
  then show "b = number n \<and> (f64_is_nan n \<longrightarrow> n = F64 CANONICAL_NAN)"
    using canonical_number_nan [OF assms n(1)] by (cases b) (auto simp: number_def)
next
  assume "b = number n \<and> (f64_is_nan n \<longrightarrow> n = F64 CANONICAL_NAN)"
  then show "as_number b = Some n" by (cases n) (auto simp: as_number_def, auto simp: number_def)
qed

lemma as_handle_exact:
  assumes "canonical_box b"
  shows "as_handle b = Some i \<longleftrightarrow> b = handle i \<and> i AND HANDLE_MASK = i"
proof
  assume "as_handle b = Some i"
  then have "is_handle b" "i = nb_bits b AND HANDLE_MASK" by (simp_all add: as_handle_def split: if_splits)
  then show "b = handle i \<and> i AND HANDLE_MASK = i" using handle_of_is_handle [OF _ assms] by (simp add: and.assoc)
next
  assume "b = handle i \<and> i AND HANDLE_MASK = i"
  then show "as_handle b = Some i" using handle_parts(3) [of i] by (auto simp: as_handle_def) (simp add: handle_def)
qed

lemma as_boolean_exact: "as_boolean b = Some v \<longleftrightarrow> b = boolean v"
  by (cases b; cases v) (auto simp: as_boolean_def boolean_def tag_defs)

text \<open>C39: every canonical box is exactly one of number, handle, undefined, null or boolean,
  and \<open>type_of\<close> reports that class (a handle and \<open>null\<close> both as an object). The readers agree with it:
  \<open>as_number\<close>, \<open>as_handle\<close> and \<open>as_boolean\<close> return the value the box was made from (a number that is no
  non-canonical NaN, a handle of the payload's 48 bits), and nothing for a box of another class.\<close>

theorem box_classes_partition:
  assumes "canonical_box b"
  shows "length (filter id (box_classes b)) = 1 \<and>
    type_of b = (if is_number b then ''number'' else if is_undefined b then ''undefined''
      else if is_boolean b then ''boolean'' else ''object'') \<and>
    (as_number b = Some n \<longleftrightarrow> b = number n \<and> (f64_is_nan n \<longrightarrow> n = F64 CANONICAL_NAN)) \<and>
    (as_handle b = Some i \<longleftrightarrow> b = handle i \<and> i AND HANDLE_MASK = i) \<and>
    (as_boolean b = Some v \<longleftrightarrow> b = boolean v) \<and>
    (as_number b \<noteq> None \<longleftrightarrow> is_number b) \<and> (as_handle b \<noteq> None \<longleftrightarrow> is_handle b) \<and>
    (as_boolean b \<noteq> None \<longleftrightarrow> is_boolean b)"
proof -
  have "length (filter id (box_classes b)) = 1 \<and>
    type_of b = (if is_number b then ''number'' else if is_undefined b then ''undefined''
      else if is_boolean b then ''boolean'' else ''object'')"
    using assms
  proof (cases rule: canonical_cases)
    case (Number n)
    then show ?thesis
      by (simp add: box_classes_def boxed_not_immediate is_handle_def type_of_def unpack_number)
  next
    case (Handle i)
    then show ?thesis
      by (simp add: box_classes_def boxed_not_immediate is_handle_def type_of_def unpack_handle)
  next
    case Immediate
    then show ?thesis using tag_classes by simp
  qed
  moreover have "as_number b \<noteq> None \<longleftrightarrow> is_number b" "as_handle b \<noteq> None \<longleftrightarrow> is_handle b"
    "as_boolean b \<noteq> None \<longleftrightarrow> is_boolean b"
    by (auto simp: as_number_def as_handle_def as_boolean_def is_boolean_def)
  ultimately show ?thesis
    using as_number_exact [OF assms] as_handle_exact [OF assms] as_boolean_exact by blast
qed

text \<open>The three JIT sentinels are out of band: no constructor makes them, so a helper's
  return value that is a legal box is never taken for a pending throw, a fall-off or an exit.\<close>

lemma jit_sentinels_out_of_band:
  "\<not> canonical_box (NanBox jit_throw_bits) \<and> \<not> canonical_box (NanBox jit_falloff_bits) \<and>
   \<not> canonical_box (NanBox jit_exit_bits) \<and>
   distinct [jit_throw_bits, jit_falloff_bits, jit_exit_bits] \<and>
   (\<forall>u. to_bits (pack u) \<notin> {jit_throw_bits, jit_falloff_bits, jit_exit_bits})"
proof -
  have nc: "\<not> canonical_box (NanBox w)"
    if "w \<in> {jit_throw_bits, jit_falloff_bits, jit_exit_bits}" for w
    using that by (auto simp: canonical_box_def is_number_def is_handle_def immediate_tags_def
        jit_throw_bits_def jit_falloff_bits_def jit_exit_bits_def tag_defs)
  have "to_bits (pack u) \<notin> {jit_throw_bits, jit_falloff_bits, jit_exit_bits}" for u
    using nc canonical_pack [of u] by (metis nanbox.collapse to_bits_def)
  then show ?thesis
    using nc by (simp add: jit_throw_bits_def jit_falloff_bits_def jit_exit_bits_def tag_defs)
qed

subsection \<open>Instances\<close>

theorem pack_unpack_inverse_witness:
  "unpack (pack (Handle 5)) = Handle 5 \<and>
   pack (unpack (number (F64 0x3ff0000000000000))) = number (F64 0x3ff0000000000000)"
proof -
  have "canonical_box (number (F64 0x3ff0000000000000))"
    using canonical_pack [of "Number (F64 0x3ff0000000000000)"] by simp
  moreover have "\<not> is_hole (number (F64 0x3ff0000000000000))" "\<not> is_tdz (number (F64 0x3ff0000000000000))"
    "\<not> is_empty_completion (number (F64 0x3ff0000000000000))"
    by (simp_all add: number_def f64_is_nan_def is_hole_def is_empty_completion_def is_tdz_def tag_defs)
  ultimately show ?thesis
    using pack_unpack_inverse [of "Handle 5" "number (F64 0x3ff0000000000000)"] by (simp add: HANDLE_MASK_def)
qed

theorem equalities_correct_witness:
  "\<not> same_value (number (F64 0)) (number (F64 SIGN)) \<and> strict_equals (number (F64 0)) (number (F64 SIGN)) \<and>
   \<not> strict_equals (number (F64 CANONICAL_NAN)) (number (F64 CANONICAL_NAN))"
  using equalities_correct [OF canonical_pack [of "Number (F64 0)"] canonical_pack [of "Number (F64 SIGN)"]]
    equalities_correct [OF canonical_pack [of "Number (F64 CANONICAL_NAN)"]
      canonical_pack [of "Number (F64 CANONICAL_NAN)"]]
  by (simp add: number_def f64_is_nan_def tag_defs)

theorem box_classes_partition_witness:
  "length (filter id (box_classes (handle 5))) = 1 \<and> type_of (handle 5) = ''object'' \<and> as_handle (handle 5) = Some 5 \<and>
   as_number (handle 5) = None \<and> as_boolean (boolean True) = Some True"
proof -
  have "HANDLE_MASK AND 5 = (5 :: u64)" by (simp add: HANDLE_MASK_def)
  moreover have "\<not> is_undefined (handle 5)" "\<not> is_boolean (handle 5)" "\<not> is_number (handle 5)"
    using boxed_not_immediate [of "handle 5"] is_handle_handle [of 5] by (simp_all add: is_handle_def)
  ultimately show ?thesis
    using box_classes_partition [OF canonical_pack [of "Handle 5"], where n = "F64 0" and i = "5" and v = "True"]
      box_classes_partition [OF canonical_pack [of "Bool True"], where n = "F64 0" and i = "5" and v = "True"]
    by (simp add: and.commute)
qed

end
