(* ===== verification/Handle.thy ===== *)
theory Handle
  imports Nanbox
begin

text \<open>
  Handles (\<open>src/src/heap.rs\<close>, \<open>Handle\<close>) and the \<open>Trace\<close> trait of \<open>src/src/gc.rs\<close>, the
  interface through which the heap and the collectors see a heap object. A Rust trait is a
  record of functions here: an operation of the collector takes the record as an argument,
  the way the compiled code receives the implementation of its type parameter.
\<close>

subsection \<open>Handles\<close>

record handle =
  h_index :: u32
  h_generation :: u16

definition to_raw :: "handle \<Rightarrow> u64" where
  "to_raw h = push_bit 32 (ucast (h_generation h)) OR ucast (h_index h)"

definition from_raw :: "u64 \<Rightarrow> handle" where
  "from_raw raw = \<lparr>h_index = ucast (raw AND 0xffffffff),
                  h_generation = ucast (drop_bit 32 raw AND 0xffff)\<rparr>"

definition from_parts :: "u32 \<Rightarrow> u16 \<Rightarrow> handle" where
  "from_parts i g = \<lparr>h_index = i, h_generation = g\<rparr>"

lemma low32_mask: "(0xffffffff :: u64) = mask 32"
  by (simp add: mask_eq_exp_minus_1)

lemma low16_mask: "(0xffff :: u64) = mask 16"
  by (simp add: mask_eq_exp_minus_1)

lemma from_raw_to_raw [simp]: "from_raw (to_raw h) = h"
proof -
  have "(ucast (to_raw h AND 0xffffffff) :: u32) = h_index h"
    by (rule bit_word_eqI) (auto simp: to_raw_def low32_mask bit_simps)
  moreover have "(ucast (drop_bit 32 (to_raw h) AND 0xffff) :: u16) = h_generation h"
    by (rule bit_word_eqI) (auto simp: to_raw_def low16_mask bit_simps dest: bit_imp_le_length)
  ultimately show ?thesis
    by (simp add: from_raw_def)
qed

lemma to_raw_48: "to_raw h AND HANDLE_MASK = to_raw h"
proof -
  have m: "HANDLE_MASK = mask 48"
    by (simp add: HANDLE_MASK_def mask_eq_exp_minus_1)
  show ?thesis
    by (rule bit_word_eqI) (auto simp: to_raw_def m bit_simps dest: bit_imp_le_length)
qed

text \<open>A heap handle survives the trip through a NaN-boxed value: packing it, boxing the
  48 bits, reading the box's payload back and unpacking gives the same slot index and
  generation, so no live handle is truncated or confused with another.\<close>

lemma handle_box_roundtrip:
  "map_option from_raw (as_handle (Nanbox.handle (to_raw h))) = Some h"
  by (simp add: as_handle_handle to_raw_48)

subsection \<open>The Trace trait\<close>

text \<open>
  \<open>trace\<close> lists the handles an object refers to in the order the visitor receives them
  (\<open>trace_each\<close> must visit exactly the same, so it has no field of its own); \<open>trace_tail\<close> and
  \<open>trace_head\<close> are the parts from, and before, a position; \<open>release_in\<close> is what dropping a
  swept object does to the heap's pool of reusable parts.
\<close>

record ('a, 'p) trace_ops =
  trace :: "'a \<Rightarrow> handle list"
  weight :: "'a \<Rightarrow> nat"
  interior_mutable :: "'a \<Rightarrow> bool"
  trace_tail :: "'a \<Rightarrow> nat \<Rightarrow> handle list"
  trace_head :: "'a \<Rightarrow> nat \<Rightarrow> handle list"
  release_in :: "'a \<Rightarrow> 'p \<Rightarrow> 'p"

text \<open>The trait's default methods, for a type that only implements \<open>trace\<close>.\<close>

definition default_trace_ops :: "('a \<Rightarrow> handle list) \<Rightarrow> ('a, 'p) trace_ops" where
  "default_trace_ops tr =
     \<lparr>trace = tr, weight = (\<lambda>_. 1), interior_mutable = (\<lambda>_. False),
      trace_tail = (\<lambda>v _. tr v), trace_head = (\<lambda>_ _. []), release_in = (\<lambda>_ pool. pool)\<rparr>"

definition OLD_AGE :: u8 where "OLD_AGE = 1"

end
