(* ===== verification/Heap.thy ===== *)
theory Heap
  imports Handle
begin

text \<open>
  The generational handle table of \<open>src/src/heap.rs\<close>. The table is a list of slots, the free
  list and the remembered set are lists of slot indices in the order of the Rust vectors, and
  every operation returns the new table. A mutable borrow takes the function the borrower
  applies to the value, so the write barrier and the write are one step, as the source's
  documentation has it. Panics are values of \<open>panic\<close>. The counters are unbounded naturals
  (they count live objects of a 64-bit address space). The capacity of the slot vector, and
  the prototype epoch bumped when it moves, are not modelled: no other operation reads them.
\<close>

definition COMPACT_GEN_BASE :: u16 where "COMPACT_GEN_BASE = 0x8000"
definition SCAN_MAX :: nat where "SCAN_MAX = 2 ^ 24 - 1"
definition CLEAN :: u8 where "CLEAN = 0"
definition DIRTY :: u8 where "DIRTY = 1"
definition STICKY :: u8 where "STICKY = 2"
definition APPENDED :: u8 where "APPENDED = 4"
definition SLOT_OCCUPIED :: u8 where "SLOT_OCCUPIED = 1"
definition FREE_TOP_UP_MIN :: nat where "FREE_TOP_UP_MIN = 256"
definition FREE_TOP_UP_MAX :: nat where "FREE_TOP_UP_MAX = 8192"

record 'a slot =
  s_value :: "'a option"
  s_generation :: u16
  s_age :: u8
  s_occupied :: u8
  s_dirty :: u8
  s_scan_lo :: u16
  s_scan_hi :: u8

definition slot_live :: "u16 \<Rightarrow> u8 \<Rightarrow> 'a \<Rightarrow> 'a slot" where
  "slot_live gen a v = \<lparr>s_value = Some v, s_generation = gen, s_age = a,
     s_occupied = SLOT_OCCUPIED, s_dirty = CLEAN, s_scan_lo = 0, s_scan_hi = 0\<rparr>"

definition scan_from :: "'a slot \<Rightarrow> nat" where
  "scan_from s = unat (s_scan_lo s) OR push_bit 16 (unat (s_scan_hi s))"

definition slot_get :: "'a slot \<Rightarrow> u16 \<Rightarrow> 'a option" where
  "slot_get s gen = (if s_generation s = gen then s_value s else None)"

definition slot_is_live :: "'a slot \<Rightarrow> bool" where
  "slot_is_live s = (s_value s \<noteq> None)"

definition vacate_release ::
  "('a, 'p) trace_ops \<Rightarrow> 'a slot \<Rightarrow> u16 \<Rightarrow> 'p \<Rightarrow> 'a slot \<times> 'p" where
  "vacate_release ops s gen pool =
     (s\<lparr>s_occupied := 0, s_dirty := CLEAN, s_generation := gen, s_value := None\<rparr>,
      case s_value s of None \<Rightarrow> pool | Some v \<Rightarrow> release_in ops v pool)"

record poison_state =
  p_freed :: "handle set"
  p_hits :: nat
  p_panic_on_hit :: bool

record ('a, 'p) heap =
  hp_slots :: "'a slot list"
  hp_free :: "u32 list"
  hp_live :: nat
  hp_counted :: nat
  hp_compact_gen :: u16
  hp_free_top :: nat
  hp_young_floor :: nat
  hp_remembered :: "u32 list"
  hp_allocs_since_gc :: nat
  hp_poison :: "poison_state option"
  hp_extra_pool :: 'p

datatype panic = SlotSpaceExhausted | IndexOutOfBounds | GcVerifyPanic

subsection \<open>Construction and counters\<close>

definition new_heap :: "'p \<Rightarrow> ('a, 'p) heap" where
  "new_heap pool = \<lparr>hp_slots = [], hp_free = [], hp_live = 0, hp_counted = 0,
     hp_compact_gen = COMPACT_GEN_BASE, hp_free_top = 0, hp_young_floor = 0,
     hp_remembered = [], hp_allocs_since_gc = 0, hp_poison = None, hp_extra_pool = pool\<rparr>"

definition fold_allocs :: "('a, 'p) heap \<Rightarrow> ('a, 'p) heap" where
  "fold_allocs h = h\<lparr>hp_live := hp_live h + (hp_allocs_since_gc h - hp_counted h),
                     hp_counted := hp_allocs_since_gc h\<rparr>"

definition reset_alloc_pressure :: "('a, 'p) heap \<Rightarrow> ('a, 'p) heap" where
  "reset_alloc_pressure h = (fold_allocs h)\<lparr>hp_allocs_since_gc := 0, hp_counted := 0\<rparr>"

definition enable_gc_verify :: "('a, 'p) heap \<Rightarrow> bool \<Rightarrow> ('a, 'p) heap" where
  "enable_gc_verify h panic_on_hit =
     h\<lparr>hp_poison := Some \<lparr>p_freed = {}, p_hits = 0, p_panic_on_hit = panic_on_hit\<rparr>\<rparr>"

definition gc_verify_hits :: "('a, 'p) heap \<Rightarrow> nat" where
  "gc_verify_hits h = (case hp_poison h of None \<Rightarrow> 0 | Some p \<Rightarrow> p_hits p)"

definition report_gc_violation :: "('a, 'p) heap \<Rightarrow> panic + ('a, 'p) heap" where
  "report_gc_violation h = (case hp_poison h of
       None \<Rightarrow> Inr h
     | Some p \<Rightarrow> if p_panic_on_hit p then Inl GcVerifyPanic
         else Inr (h\<lparr>hp_poison := Some (p\<lparr>p_hits := p_hits p + 1\<rparr>)\<rparr>))"

definition gc_verify :: "('a, 'p) heap \<Rightarrow> bool" where
  "gc_verify h = (hp_poison h \<noteq> None)"

definition note_poison_use :: "('a, 'p) heap \<Rightarrow> handle \<Rightarrow> panic + ('a, 'p) heap" where
  "note_poison_use h hn = (case hp_poison h of
       None \<Rightarrow> Inr h
     | Some p \<Rightarrow>
         if hn \<in> p_freed p then
           if p_panic_on_hit p then Inl GcVerifyPanic
           else Inr (h\<lparr>hp_poison := Some (p\<lparr>p_hits := p_hits p + 1\<rparr>)\<rparr>)
         else Inr h)"

definition len :: "('a, 'p) heap \<Rightarrow> nat" where
  "len h = hp_live h + (hp_allocs_since_gc h - hp_counted h)"

definition is_empty :: "('a, 'p) heap \<Rightarrow> bool" where
  "is_empty h = (len h = 0)"

subsection \<open>Allocation\<close>

definition vacant_slot :: "'a slot" where
  "vacant_slot = \<lparr>s_value = None, s_generation = 0, s_age = 0, s_occupied = 0,
     s_dirty = CLEAN, s_scan_lo = 0, s_scan_hi = 0\<rparr>"

definition top_up_free :: "('a, 'p) heap \<Rightarrow> nat \<Rightarrow> ('a, 'p) heap" where
  "top_up_free h add0 =
     (if hp_young_floor h \<noteq> length (hp_slots h) then h
      else
        let start = length (hp_slots h);
            add = min add0 ((2 ^ 32 - 1) - (start + 1))
        in if add = 0 then h
           else h\<lparr>hp_slots := hp_slots h @ replicate add vacant_slot,
                  hp_free := map of_nat (rev [start ..< start + add]) @ hp_free h,
                  hp_free_top := hp_free_top h + add,
                  hp_young_floor := start + add\<rparr>)"

definition reserve_free :: "('a, 'p) heap \<Rightarrow> nat \<Rightarrow> ('a, 'p) heap" where
  "reserve_free h target =
     (if hp_free_top h \<noteq> length (hp_free h) \<or> hp_young_floor h \<noteq> length (hp_slots h) then h
      else top_up_free h (target - hp_free_top h))"

definition clamp :: "nat \<Rightarrow> nat \<Rightarrow> nat \<Rightarrow> nat" where
  "clamp x lo hi = (if x < lo then lo else if hi < x then hi else x)"

definition alloc :: "('a, 'p) heap \<Rightarrow> 'a \<Rightarrow> panic + (handle \<times> ('a, 'p) heap)" where
  "alloc h0 v =
     (let h1 = h0\<lparr>hp_allocs_since_gc := hp_allocs_since_gc h0 + 1\<rparr>;
          h = (if hp_free_top h1 = 0 \<and> hp_young_floor h1 = length (hp_slots h1) \<and>
                  0 < hp_young_floor h1
               then top_up_free h1
                      (clamp (length (hp_slots h1) div 8) FREE_TOP_UP_MIN FREE_TOP_UP_MAX)
               else h1)
      in if 0 < hp_free_top h then
           let ft = hp_free_top h - 1 in
           (case get_opt (hp_free h) ft of
              None \<Rightarrow> Inl IndexOutOfBounds
            | Some i \<Rightarrow>
                (case get_opt (hp_slots h) (unat i) of
                   None \<Rightarrow> Inl IndexOutOfBounds
                 | Some s \<Rightarrow>
                     Inr (\<lparr>h_index = i, h_generation = s_generation s\<rparr>,
                          h\<lparr>hp_free_top := ft,
                            hp_slots := (hp_slots h)[unat i :=
                              s\<lparr>s_age := 0, s_occupied := SLOT_OCCUPIED, s_value := Some v\<rparr>]\<rparr>)))
         else if length (hp_slots h) < 2 ^ 32 - 1 then
           Inr (\<lparr>h_index = of_nat (length (hp_slots h)), h_generation = 0\<rparr>,
                h\<lparr>hp_slots := hp_slots h @ [slot_live 0 0 v]\<rparr>)
         else Inl SlotSpaceExhausted)"

subsection \<open>Borrows and the write barrier\<close>

definition peek :: "('a, 'p) heap \<Rightarrow> handle \<Rightarrow> 'a option" where
  "peek h hn = (case get_opt (hp_slots h) (unat (h_index hn)) of
       None \<Rightarrow> None
     | Some s \<Rightarrow> slot_get s (h_generation hn))"

definition get :: "('a, 'p) heap \<Rightarrow> handle \<Rightarrow> panic + ('a option \<times> ('a, 'p) heap)" where
  "get h hn = (case (if hp_poison h \<noteq> None then note_poison_use h hn else Inr h) of
       Inl e \<Rightarrow> Inl e
     | Inr h' \<Rightarrow> Inr (peek h' hn, h'))"

text \<open>The barrier of \<open>peek_mut\<close>, \<open>remember\<close> and \<open>swap\<close>: an old slot that is clean, or only
  appended to, is due for a whole rescan.\<close>

definition barrier_due :: "'a slot \<Rightarrow> bool" where
  "barrier_due s = ((s_dirty s OR APPENDED) = APPENDED \<and> OLD_AGE \<le> s_age s)"

definition peek_mut ::
  "('a, 'p) heap \<Rightarrow> handle \<Rightarrow> ('a \<Rightarrow> 'a) \<Rightarrow> 'a option \<times> ('a, 'p) heap" where
  "peek_mut h hn upd =
     (let i = unat (h_index hn) in
      case get_opt (hp_slots h) i of
        None \<Rightarrow> (None, h)
      | Some s \<Rightarrow>
          if s_generation s \<noteq> h_generation hn then (None, h)
          else
            (case s_value s of
               None \<Rightarrow> (None, h)
             | Some v \<Rightarrow>
                 (Some v,
                  if barrier_due s then
                    h\<lparr>hp_slots := (hp_slots h)[i := s\<lparr>s_dirty := DIRTY, s_value := Some (upd v)\<rparr>],
                      hp_remembered := (if s_dirty s = CLEAN then hp_remembered h @ [h_index hn]
                                        else hp_remembered h)\<rparr>
                  else h\<lparr>hp_slots := (hp_slots h)[i := s\<lparr>s_value := Some (upd v)\<rparr>]\<rparr>)))"

definition get_mut ::
  "('a, 'p) heap \<Rightarrow> handle \<Rightarrow> ('a \<Rightarrow> 'a) \<Rightarrow> panic + ('a option \<times> ('a, 'p) heap)" where
  "get_mut h hn upd = (case (if hp_poison h \<noteq> None then note_poison_use h hn else Inr h) of
       Inl e \<Rightarrow> Inl e
     | Inr h' \<Rightarrow> Inr (peek_mut h' hn upd))"

definition get_mut_append ::
  "('a, 'p) heap \<Rightarrow> handle \<Rightarrow> ('a \<Rightarrow> nat) \<Rightarrow> ('a \<Rightarrow> 'a) \<Rightarrow>
     panic + ('a option \<times> ('a, 'p) heap)" where
  "get_mut_append h0 hn from upd =
     (case (if hp_poison h0 \<noteq> None then note_poison_use h0 hn else Inr h0) of
        Inl e \<Rightarrow> Inl e
      | Inr h \<Rightarrow>
          let i = unat (h_index hn) in
          (case get_opt (hp_slots h) i of
             None \<Rightarrow> Inr (None, h)
           | Some s \<Rightarrow>
               if s_generation s \<noteq> h_generation hn then Inr (None, h)
               else
                 (case s_value s of
                    None \<Rightarrow> Inr (None, h)
                  | Some v \<Rightarrow>
                      let pos = from v;
                          s' = (if barrier_due s \<and>
                                   \<not> (s_dirty s \<noteq> CLEAN \<and> scan_from s < pos)
                                then (if pos \<le> SCAN_MAX
                                      then s\<lparr>s_dirty := APPENDED, s_scan_lo := of_nat pos,
                                             s_scan_hi := of_nat (drop_bit 16 pos)\<rparr>
                                      else s\<lparr>s_dirty := DIRTY\<rparr>)
                                else s)
                      in Inr (Some v,
                           h\<lparr>hp_slots := (hp_slots h)[i := s'\<lparr>s_value := Some (upd v)\<rparr>],
                             hp_remembered :=
                               (if barrier_due s \<and> s_dirty s = CLEAN
                                then hp_remembered h @ [h_index hn] else hp_remembered h)\<rparr>))))"

definition remembered_from :: "('a, 'p) heap \<Rightarrow> u32 \<Rightarrow> nat" where
  "remembered_from h i = (case get_opt (hp_slots h) (unat i) of
       None \<Rightarrow> 0
     | Some s \<Rightarrow> if s_dirty s = APPENDED then scan_from s else 0)"

definition remember :: "('a, 'p) heap \<Rightarrow> nat \<Rightarrow> ('a, 'p) heap" where
  "remember h i = (case get_opt (hp_slots h) i of
       None \<Rightarrow> h
     | Some s \<Rightarrow>
         if slot_is_live s \<and> barrier_due s then
           h\<lparr>hp_slots := (hp_slots h)[i := s\<lparr>s_dirty := DIRTY\<rparr>],
             hp_remembered := (if s_dirty s = CLEAN then hp_remembered h @ [of_nat i]
                               else hp_remembered h)\<rparr>
         else h)"

definition swap :: "('a, 'p) heap \<Rightarrow> handle \<Rightarrow> handle \<Rightarrow> ('a, 'p) heap" where
  "swap h a b =
     (let i = unat (h_index a); j = unat (h_index b) in
      if h_index a = h_index b then h
      else if length (hp_slots h) \<le> i \<or> length (hp_slots h) \<le> j then h
      else
        let sa = hp_slots h ! i; sb = hp_slots h ! j in
        (case (slot_get sa (h_generation a), slot_get sb (h_generation b)) of
           (Some va, Some vb) \<Rightarrow>
             let h' = h\<lparr>hp_slots := (hp_slots h)[i := sa\<lparr>s_value := Some vb\<rparr>,
                                                j := sb\<lparr>s_value := Some va\<rparr>]\<rparr>
             in remember (remember h' i) j
         | _ \<Rightarrow> h))"

subsection \<open>Queries\<close>

definition is_live :: "('a, 'p) heap \<Rightarrow> handle \<Rightarrow> bool" where
  "is_live h hn = (case get_opt (hp_slots h) (unat (h_index hn)) of
       None \<Rightarrow> False
     | Some s \<Rightarrow> slot_is_live s \<and> s_generation s = h_generation hn)"

definition live_handles :: "('a, 'p) heap \<Rightarrow> handle list" where
  "live_handles h =
     map (\<lambda>(i, s). \<lparr>h_index = of_nat i, h_generation = s_generation s\<rparr>)
       (filter (\<lambda>(i, s). slot_is_live s) (enumerate 0 (hp_slots h)))"

definition slot_capacity :: "('a, 'p) heap \<Rightarrow> nat" where
  "slot_capacity h = length (hp_slots h)"

definition is_young :: "('a, 'p) heap \<Rightarrow> handle \<Rightarrow> bool" where
  "is_young h hn = (case get_opt (hp_slots h) (unat (h_index hn)) of
       None \<Rightarrow> False
     | Some s \<Rightarrow> slot_is_live s \<and> s_generation s = h_generation hn \<and> s_age s < OLD_AGE)"

definition promote_young :: "('a, 'p) heap \<Rightarrow> handle \<Rightarrow> bool \<times> ('a, 'p) heap" where
  "promote_young h hn =
     (let i = unat (h_index hn) in
      case get_opt (hp_slots h) i of
        None \<Rightarrow> (False, h)
      | Some s \<Rightarrow>
          if slot_is_live s \<and> s_generation s = h_generation hn \<and> s_age s < OLD_AGE
          then (True, h\<lparr>hp_slots := (hp_slots h)[i := s\<lparr>s_age := OLD_AGE\<rparr>]\<rparr>)
          else (False, h))"

definition take_remembered :: "('a, 'p) heap \<Rightarrow> u32 list \<times> ('a, 'p) heap" where
  "take_remembered h = (hp_remembered h, h\<lparr>hp_remembered := []\<rparr>)"

definition live_handle_at :: "('a, 'p) heap \<Rightarrow> u32 \<Rightarrow> handle option" where
  "live_handle_at h i = (case get_opt (hp_slots h) (unat i) of
       None \<Rightarrow> None
     | Some s \<Rightarrow> if slot_is_live s then Some \<lparr>h_index = i, h_generation = s_generation s\<rparr>
                 else None)"

definition age :: "('a, 'p) heap \<Rightarrow> handle \<Rightarrow> u8 option" where
  "age h hn = (case get_opt (hp_slots h) (unat (h_index hn)) of
       None \<Rightarrow> None
     | Some s \<Rightarrow> if slot_is_live s \<and> s_generation s = h_generation hn then Some (s_age s)
                 else None)"

definition handles_where :: "('a, 'p) heap \<Rightarrow> (u8 \<Rightarrow> bool) \<Rightarrow> handle list" where
  "handles_where h keep =
     map (\<lambda>(i, s). \<lparr>h_index = of_nat i, h_generation = s_generation s\<rparr>)
       (filter (\<lambda>(i, s). slot_is_live s \<and> keep (s_age s)) (enumerate 0 (hp_slots h)))"

definition record_edge :: "('a, 'p) heap \<Rightarrow> handle \<Rightarrow> handle \<Rightarrow> u8 \<Rightarrow> ('a, 'p) heap" where
  "record_edge h container target old_age =
     (if (case age h container of None \<Rightarrow> False | Some a \<Rightarrow> old_age \<le> a) \<and>
         (case age h target of None \<Rightarrow> False | Some a \<Rightarrow> a < old_age)
      then remember h (unat (h_index container)) else h)"

definition remembered_roots :: "('a, 'p) heap \<Rightarrow> handle list" where
  "remembered_roots h = List.map_filter (live_handle_at h) (hp_remembered h)"

subsection \<open>Explicit release\<close>

definition free :: "('a, 'p) heap \<Rightarrow> handle \<Rightarrow> 'a option \<times> ('a, 'p) heap" where
  "free h0 hn = (case hp_poison h0 of
       Some p \<Rightarrow> (None, h0\<lparr>hp_poison := Some (p\<lparr>p_freed := insert hn (p_freed p)\<rparr>)\<rparr>)
     | None \<Rightarrow>
         let h = fold_allocs h0; i = unat (h_index hn) in
         (case get_opt (hp_slots h) i of
            None \<Rightarrow> (None, h)
          | Some s \<Rightarrow>
              if slot_is_live s \<and> s_generation s = h_generation hn then
                let next_gen = s_generation s + 1;
                    retire = (COMPACT_GEN_BASE \<le> next_gen);
                    s' = s\<lparr>s_value := None, s_occupied := 0, s_generation := next_gen,
                           s_dirty := (if s_dirty s \<noteq> CLEAN then CLEAN else s_dirty s)\<rparr>;
                    rem' = (if s_dirty s \<noteq> CLEAN then filter (\<lambda>k. k \<noteq> h_index hn) (hp_remembered h)
                            else hp_remembered h);
                    free' = (if retire then hp_free h
                             else take (hp_free_top h) (hp_free h) @ h_index hn #
                                  drop (hp_free_top h) (hp_free h));
                    top' = (if retire then hp_free_top h else hp_free_top h + 1)
                in (s_value s,
                    h\<lparr>hp_slots := (hp_slots h)[i := s'], hp_remembered := rem',
                      hp_free := free', hp_free_top := top', hp_live := hp_live h - 1\<rparr>)
              else (None, h)))"

subsection \<open>The table's invariant\<close>

text \<open>
  A slot's occupancy byte mirrors its value, and only an old live object is in the remembered
  set. The still-free entries of the free list are exactly the vacant slots whose generation
  is below the range reserved for compaction, each once (an entry past the cursor records a
  slot handed out since the last collection and may repeat). The remembered list holds exactly
  the slots that are not clean, each once. Every young object is one the next minor sweep will
  visit. The two counters add up to the number of live slots.
\<close>

definition slot_inv :: "'a slot \<Rightarrow> bool" where
  "slot_inv s = (s_occupied s = (if slot_is_live s then SLOT_OCCUPIED else 0) \<and>
     s_dirty s \<in> {CLEAN, DIRTY, STICKY, APPENDED} \<and>
     (s_dirty s \<noteq> CLEAN \<longrightarrow> slot_is_live s \<and> OLD_AGE \<le> s_age s))"

definition reusable :: "'a slot \<Rightarrow> bool" where
  "reusable s = (\<not> slot_is_live s \<and> s_generation s < COMPACT_GEN_BASE)"

definition slot_young :: "'a slot \<Rightarrow> bool" where
  "slot_young s = (slot_is_live s \<and> s_age s < OLD_AGE)"

definition free_ok :: "'a slot list \<Rightarrow> u32 list \<Rightarrow> nat \<Rightarrow> bool" where
  "free_ok sl fr ft = (ft \<le> length fr \<and> (\<forall>i \<in> set fr. unat i < length sl) \<and>
     distinct (take ft fr) \<and>
     (\<forall>k < length sl. of_nat k \<in> set (take ft fr) \<longleftrightarrow> reusable (sl ! k)))"

definition remembered_ok :: "'a slot list \<Rightarrow> u32 list \<Rightarrow> bool" where
  "remembered_ok sl rem = (distinct rem \<and>
     (\<forall>i. i \<in> set rem \<longleftrightarrow> unat i < length sl \<and> s_dirty (sl ! unat i) \<noteq> CLEAN))"

definition young_ok :: "'a slot list \<Rightarrow> u32 list \<Rightarrow> nat \<Rightarrow> nat \<Rightarrow> bool" where
  "young_ok sl fr ft yf = (yf \<le> length sl \<and>
     (\<forall>k < length sl. slot_young (sl ! k) \<longrightarrow> yf \<le> k \<or> of_nat k \<in> set (drop ft fr)))"

definition live_count :: "'a slot list \<Rightarrow> nat" where
  "live_count sl = length (filter slot_is_live sl)"

definition heap_inv :: "('a, 'p) heap \<Rightarrow> bool" where
  "heap_inv h = (length (hp_slots h) < 2 ^ 32 \<and>
     (\<forall>s \<in> set (hp_slots h). slot_inv s) \<and>
     free_ok (hp_slots h) (hp_free h) (hp_free_top h) \<and>
     remembered_ok (hp_slots h) (hp_remembered h) \<and>
     young_ok (hp_slots h) (hp_free h) (hp_free_top h) (hp_young_floor h) \<and>
     hp_counted h \<le> hp_allocs_since_gc h \<and> len h = live_count (hp_slots h) \<and>
     COMPACT_GEN_BASE \<le> hp_compact_gen h)"

lemmas dirty_defs = CLEAN_def DIRTY_def STICKY_def APPENDED_def

lemma unat_of_nat_u32 [simp]: "k < 2 ^ 32 \<Longrightarrow> unat (of_nat k :: u32) = k"
  by (simp add: unat_of_nat)

lemma of_nat_unat_u32 [simp]: "of_nat (unat i) = (i :: u32)"
  by simp

lemma of_nat_u32_inject: "j < 2 ^ 32 \<Longrightarrow> k < 2 ^ 32 \<Longrightarrow> (of_nat j :: u32) = of_nat k \<longleftrightarrow> j = k"
  by (metis unat_of_nat_u32)

lemma bit_appended: "bit APPENDED n \<longleftrightarrow> n = 2"
proof -
  have a: "APPENDED = 2 ^ 2" by (simp add: APPENDED_def)
  show ?thesis unfolding a bit_exp_iff by auto
qed

lemma or_appended_iff: "(d OR APPENDED) = APPENDED \<longleftrightarrow> d = CLEAN \<or> d = APPENDED"
proof
  assume a: "(d OR APPENDED) = APPENDED"
  have nb: "\<not> bit d n" if "n \<noteq> 2" for n
    using that a bit_appended [of n] by (metis bit_or_iff)
  show "d = CLEAN \<or> d = APPENDED"
  proof (cases "bit d 2")
    case True
    have "d = APPENDED"
      by (rule bit_word_eqI) (metis True nb bit_appended)
    then show ?thesis ..
  next
    case False
    have "d = 0"
      by (rule bit_word_eqI) (metis False nb bit_0_eq bot_apply bot_bool_def)
    then show ?thesis by (simp add: CLEAN_def)
  qed
qed (auto simp: dirty_defs)

lemma barrier_due_iff:
  "barrier_due s \<longleftrightarrow> (s_dirty s = CLEAN \<or> s_dirty s = APPENDED) \<and> OLD_AGE \<le> s_age s"
  by (simp add: barrier_due_def or_appended_iff)

lemma old_iff_not_young: "OLD_AGE \<le> a \<longleftrightarrow> \<not> a < OLD_AGE"
  by auto

lemma is_live_peek: "is_live h k \<longleftrightarrow> peek h k \<noteq> None"
  by (auto simp: is_live_def peek_def slot_get_def slot_is_live_def split: option.splits)

lemma peek_Some:
  "peek h k = Some v \<longleftrightarrow> unat (h_index k) < length (hp_slots h) \<and>
     s_generation (hp_slots h ! unat (h_index k)) = h_generation k \<and>
     s_value (hp_slots h ! unat (h_index k)) = Some v"
  by (auto simp: peek_def slot_get_def get_opt_def)

text \<open>Reading depends on the slots only.\<close>

definition peek_in :: "'a slot list \<Rightarrow> handle \<Rightarrow> 'a option" where
  "peek_in sl k = (case get_opt sl (unat (h_index k)) of
       None \<Rightarrow> None | Some s \<Rightarrow> slot_get s (h_generation k))"

lemma peek_eq: "peek h = peek_in (hp_slots h)"
  by (simp add: fun_eq_iff peek_def peek_in_def)

lemma peek_in_update:
  "unat i < length sl \<Longrightarrow> peek_in (sl[unat i := s]) k =
     (if h_index k = i then slot_get s (h_generation k) else peek_in sl k)"
  by (auto simp: peek_in_def get_opt_update)

lemma peek_in_append:
  "peek_in (sl @ [s]) k = (if unat (h_index k) = length sl then slot_get s (h_generation k)
     else peek_in sl k)"
  by (auto simp: peek_in_def get_opt_def nth_append)

lemma handle_eq_iff: "k = j \<longleftrightarrow> h_index k = h_index j \<and> h_generation k = h_generation (j :: handle)"
  by auto

lemma heap_invD:
  assumes "heap_inv h"
  shows "length (hp_slots h) < 2 ^ 32" "s \<in> set (hp_slots h) \<Longrightarrow> slot_inv s"
    "free_ok (hp_slots h) (hp_free h) (hp_free_top h)"
    "remembered_ok (hp_slots h) (hp_remembered h)"
    "young_ok (hp_slots h) (hp_free h) (hp_free_top h) (hp_young_floor h)"
    "hp_counted h \<le> hp_allocs_since_gc h" "len h = live_count (hp_slots h)"
    "COMPACT_GEN_BASE \<le> hp_compact_gen h"
  using assms by (auto simp: heap_inv_def)

lemma heap_inv_new: "heap_inv (new_heap pool)"
  by (simp add: heap_inv_def new_heap_def free_ok_def remembered_ok_def young_ok_def
      live_count_def len_def)

lemma live_count_update:
  assumes "i < length sl"
  shows "live_count (sl[i := s]) =
    (live_count sl + (if slot_is_live s then 1 else 0)) - (if slot_is_live (sl ! i) then 1 else 0)"
proof -
  have s: "sl = take i sl @ sl ! i # drop (Suc i) sl"
    using assms by (simp add: id_take_nth_drop)
  have u: "sl[i := s] = take i sl @ s # drop (Suc i) sl"
    using assms by (simp add: upd_conv_take_nth_drop)
  have "live_count sl = live_count (take i sl) + (if slot_is_live (sl ! i) then 1 else 0) +
          live_count (drop (Suc i) sl)"
    by (subst s) (simp add: live_count_def)
  then show ?thesis
    by (subst u) (simp add: live_count_def)
qed

lemma live_count_pos: "i < length sl \<Longrightarrow> slot_is_live (sl ! i) \<Longrightarrow> 0 < live_count sl"
  by (auto simp: live_count_def filter_empty_conv intro!: bexI [of _ "sl ! i"])

subsection \<open>Allocation keeps the invariant\<close>

lemma top_up_range:
  assumes "start + add < 2 ^ 32"
  shows "set (map of_nat (rev [start ..< start + add])) = (of_nat :: nat \<Rightarrow> u32) ` {start ..< start + add}"
    "distinct (map (of_nat :: nat \<Rightarrow> u32) (rev [start ..< start + add]))"
proof -
  have "inj_on (of_nat :: nat \<Rightarrow> u32) {start ..< start + add}"
    using assms by (intro inj_onI) (simp add: of_nat_u32_inject)
  then show "distinct (map (of_nat :: nat \<Rightarrow> u32) (rev [start ..< start + add]))"
    by (simp add: distinct_map)
qed simp

lemma nth_top_up:
  "k < length sl + add \<Longrightarrow> (sl @ replicate add vacant_slot) ! k =
     (if k < length sl then sl ! k else vacant_slot)"
  by (simp add: nth_append)

lemma vacant_slot_facts [simp]:
  "slot_inv vacant_slot" "\<not> slot_is_live vacant_slot" "reusable vacant_slot"
  "\<not> slot_young vacant_slot" "s_dirty vacant_slot = CLEAN"
  by (simp_all add: slot_inv_def vacant_slot_def slot_is_live_def reusable_def slot_young_def
      COMPACT_GEN_BASE_def dirty_defs)

lemma free_ok_top_up:
  assumes ok: "free_ok sl fr ft" and b: "length sl + add < 2 ^ 32"
  shows "free_ok (sl @ replicate add vacant_slot)
           (map of_nat (rev [length sl ..< length sl + add]) @ fr) (ft + add)"
proof -
  let ?new = "map of_nat (rev [length sl ..< length sl + add]) :: u32 list"
  note r = top_up_range [OF b]
  have old: "unat i < length sl" if "i \<in> set fr" for i
    using ok that by (simp add: free_ok_def)
  have tk: "take (ft + add) (?new @ fr) = ?new @ take ft fr"
    by simp
  have disj: "set ?new \<inter> set (take ft fr) = {}"
  proof -
    have "unat i \<ge> length sl" if "i \<in> set ?new" for i
      using that b unfolding r(1) by auto
    then show ?thesis using old in_set_takeD by (metis disjoint_iff leD)
  qed
  have mem: "of_nat k \<in> set (?new @ take ft fr) \<longleftrightarrow> reusable ((sl @ replicate add vacant_slot) ! k)"
    if k: "k < length sl + add" for k
  proof (cases "k < length sl")
    case True
    then have "(of_nat k :: u32) \<notin> set ?new"
      using b unfolding r(1) by (auto simp: of_nat_u32_inject)
    with True ok show ?thesis by (simp add: free_ok_def nth_append)
  next
    case False
    with k have "(of_nat k :: u32) \<in> set ?new"
      unfolding r(1) by auto
    with False k show ?thesis by (simp add: nth_append)
  qed
  have "unat i < length sl + add" if "i \<in> set (?new @ fr)" for i
    using that b old unfolding set_append r(1) by force
  moreover have "distinct (?new @ take ft fr)"
    using r(2) disj ok by (simp add: free_ok_def)
  moreover have "ft + add \<le> length (?new @ fr)"
    using ok by (simp add: free_ok_def)
  ultimately show ?thesis
    using mem unfolding free_ok_def tk by simp
qed

lemma remembered_ok_append:
  assumes "remembered_ok sl rem" "\<forall>s \<in> set new. s_dirty s = CLEAN"
  shows "remembered_ok (sl @ new) rem"
proof -
  have c: "s_dirty ((sl @ new) ! k) = CLEAN" if "length sl \<le> k" "k < length (sl @ new)" for k
    using that assms(2) by (simp add: nth_append)
  then have "(unat i < length (sl @ new) \<and> s_dirty ((sl @ new) ! unat i) \<noteq> CLEAN) \<longleftrightarrow>
        (unat i < length sl \<and> s_dirty (sl ! unat i) \<noteq> CLEAN)" for i :: u32
    by (metis c linorder_not_le nth_append trans_less_add1 length_append)
  with assms(1) show ?thesis by (simp add: remembered_ok_def)
qed

lemma heap_inv_top_up: "heap_inv h \<Longrightarrow> heap_inv (top_up_free h n)"
proof -
  assume inv: "heap_inv h"
  define start where "start = length (hp_slots h)"
  define add where "add = min n ((2 ^ 32 - 1) - (start + 1))"
  show ?thesis
  proof (cases "hp_young_floor h \<noteq> start \<or> add = 0")
    case True
    with inv show ?thesis
      by (auto simp: top_up_free_def Let_def start_def add_def)
  next
    case False
    then have b: "length (hp_slots h) + add < 2 ^ 32"
      unfolding add_def start_def by auto
    have h': "top_up_free h n = h\<lparr>hp_slots := hp_slots h @ replicate add vacant_slot,
        hp_free := map of_nat (rev [start ..< start + add]) @ hp_free h,
        hp_free_top := hp_free_top h + add, hp_young_floor := start + add\<rparr>"
      using False by (simp add: top_up_free_def Let_def start_def add_def)
    have y: "young_ok (hp_slots h @ replicate add vacant_slot)
       (map of_nat (rev [start ..< start + add]) @ hp_free h) (hp_free_top h + add) (start + add)"
      using heap_invD(5) [OF inv] False
      by (auto simp: young_ok_def start_def nth_append)
    show ?thesis
      using inv b y free_ok_top_up [OF heap_invD(3) [OF inv] b]
        remembered_ok_append [OF heap_invD(4) [OF inv], of "replicate add vacant_slot"]
      unfolding heap_inv_def h' by (auto simp: start_def len_def live_count_def)
  qed
qed

text \<open>The table an allocation works on: topped up when the free list has run out after a
  collection.\<close>

definition alloc_ready :: "('a, 'p) heap \<Rightarrow> ('a, 'p) heap" where
  "alloc_ready h =
     (if hp_free_top h = 0 \<and> hp_young_floor h = length (hp_slots h) \<and> 0 < hp_young_floor h
      then top_up_free h (clamp (length (hp_slots h) div 8) FREE_TOP_UP_MIN FREE_TOP_UP_MAX)
      else h)"

lemma top_up_allocs:
  "top_up_free (h\<lparr>hp_allocs_since_gc := n\<rparr>) m = (top_up_free h m)\<lparr>hp_allocs_since_gc := n\<rparr>"
  "hp_allocs_since_gc (top_up_free h m) = hp_allocs_since_gc h"
  by (simp_all add: top_up_free_def Let_def)

lemma peek_top_up [simp]: "peek (top_up_free h n) k = peek h k"
proof -
  have "peek (h\<lparr>hp_slots := hp_slots h @ replicate m vacant_slot, hp_free := f,
               hp_free_top := t, hp_young_floor := y\<rparr>) k = peek h k" for m f t y
    using nth_top_up [of "unat (h_index k)" "hp_slots h" m]
    by (auto simp: peek_def get_opt_def slot_get_def) (simp_all add: vacant_slot_def)
  then show ?thesis
    by (simp add: top_up_free_def Let_def)
qed

lemma alloc_ready_facts:
  "heap_inv h \<Longrightarrow> heap_inv (alloc_ready h)" "peek (alloc_ready h) k = peek h k"
  "hp_allocs_since_gc (alloc_ready h) = hp_allocs_since_gc h"
  by (simp_all add: alloc_ready_def heap_inv_top_up top_up_allocs)

lemma alloc_eq:
  "alloc h0 v = (let h = (alloc_ready h0)\<lparr>hp_allocs_since_gc := hp_allocs_since_gc h0 + 1\<rparr> in
     if 0 < hp_free_top h then
       let ft = hp_free_top h - 1 in
       (case get_opt (hp_free h) ft of
          None \<Rightarrow> Inl IndexOutOfBounds
        | Some i \<Rightarrow>
            (case get_opt (hp_slots h) (unat i) of
               None \<Rightarrow> Inl IndexOutOfBounds
             | Some s \<Rightarrow>
                 Inr (\<lparr>h_index = i, h_generation = s_generation s\<rparr>,
                      h\<lparr>hp_free_top := ft,
                        hp_slots := (hp_slots h)[unat i :=
                          s\<lparr>s_age := 0, s_occupied := SLOT_OCCUPIED, s_value := Some v\<rparr>]\<rparr>)))
     else if length (hp_slots h) < 2 ^ 32 - 1 then
       Inr (\<lparr>h_index = of_nat (length (hp_slots h)), h_generation = 0\<rparr>,
            h\<lparr>hp_slots := hp_slots h @ [slot_live 0 0 v]\<rparr>)
     else Inl SlotSpaceExhausted)"
proof -
  let ?h1 = "h0\<lparr>hp_allocs_since_gc := hp_allocs_since_gc h0 + 1\<rparr>"
  have e: "(if hp_free_top ?h1 = 0 \<and> hp_young_floor ?h1 = length (hp_slots ?h1) \<and>
               0 < hp_young_floor ?h1
            then top_up_free ?h1
                   (clamp (length (hp_slots ?h1) div 8) FREE_TOP_UP_MIN FREE_TOP_UP_MAX)
            else ?h1) = (alloc_ready h0)\<lparr>hp_allocs_since_gc := hp_allocs_since_gc h0 + 1\<rparr>"
    by (auto simp: alloc_ready_def top_up_allocs)
  show ?thesis
    by (simp only: alloc_def Let_def e)
qed

lemma free_top_slot:
  assumes inv: "heap_inv h" and ft: "0 < hp_free_top h"
  obtains i where "get_opt (hp_free h) (hp_free_top h - 1) = Some i"
    "unat i < length (hp_slots h)" "reusable (hp_slots h ! unat i)"
    "take (hp_free_top h) (hp_free h) = take (hp_free_top h - 1) (hp_free h) @ [i]"
    "drop (hp_free_top h - 1) (hp_free h) = i # drop (hp_free_top h) (hp_free h)"
proof -
  let ?t = "hp_free_top h - 1"
  have ok: "free_ok (hp_slots h) (hp_free h) (hp_free_top h)"
    using inv by (rule heap_invD)
  then have "hp_free_top h \<le> length (hp_free h)"
    by (simp add: free_ok_def)
  then have lt: "?t < length (hp_free h)"
    using ft by linarith
  have tk: "take (hp_free_top h) (hp_free h) = take ?t (hp_free h) @ [hp_free h ! ?t]"
    using ft lt by (metis Suc_diff_1 take_Suc_conv_app_nth)
  have dr: "drop ?t (hp_free h) = hp_free h ! ?t # drop (hp_free_top h) (hp_free h)"
    using ft lt by (metis Cons_nth_drop_Suc Suc_diff_1)
  have "hp_free h ! ?t \<in> set (take (hp_free_top h) (hp_free h))"
    by (simp add: tk)
  moreover from this have "unat (hp_free h ! ?t) < length (hp_slots h)"
    using ok by (meson free_ok_def in_set_takeD)
  ultimately have "reusable (hp_slots h ! unat (hp_free h ! ?t))"
    using ok by (metis free_ok_def of_nat_unat_u32)
  with lt tk dr \<open>unat (hp_free h ! ?t) < length (hp_slots h)\<close> show ?thesis
    using that by simp
qed

lemma alloc_cases [consumes 2, case_names reuse push]:
  assumes inv: "heap_inv h0" and al: "alloc h0 v = Inr (k, h')"
  obtains (reuse) h i s where "h = alloc_ready h0" "heap_inv h" "0 < hp_free_top h"
      "unat i < length (hp_slots h)" "s = hp_slots h ! unat i" "reusable s"
      "take (hp_free_top h) (hp_free h) = take (hp_free_top h - 1) (hp_free h) @ [i]"
      "drop (hp_free_top h - 1) (hp_free h) = i # drop (hp_free_top h) (hp_free h)"
      "k = \<lparr>h_index = i, h_generation = s_generation s\<rparr>"
      "h' = h\<lparr>hp_allocs_since_gc := hp_allocs_since_gc h + 1, hp_free_top := hp_free_top h - 1,
             hp_slots := (hp_slots h)[unat i :=
               s\<lparr>s_age := 0, s_occupied := SLOT_OCCUPIED, s_value := Some v\<rparr>]\<rparr>"
  | (push) h where "h = alloc_ready h0" "heap_inv h" "hp_free_top h = 0"
      "length (hp_slots h) < 2 ^ 32 - 1"
      "k = \<lparr>h_index = of_nat (length (hp_slots h)), h_generation = 0\<rparr>"
      "h' = h\<lparr>hp_allocs_since_gc := hp_allocs_since_gc h + 1,
             hp_slots := hp_slots h @ [slot_live 0 0 v]\<rparr>"
proof -
  define h where "h = alloc_ready h0"
  have h: "heap_inv h" "hp_allocs_since_gc h = hp_allocs_since_gc h0"
    using inv by (simp_all add: h_def alloc_ready_facts)
  show ?thesis
  proof (cases "0 < hp_free_top h")
    case True
    obtain i where i: "get_opt (hp_free h) (hp_free_top h - 1) = Some i"
      "unat i < length (hp_slots h)" "reusable (hp_slots h ! unat i)"
      "take (hp_free_top h) (hp_free h) = take (hp_free_top h - 1) (hp_free h) @ [i]"
      "drop (hp_free_top h - 1) (hp_free h) = i # drop (hp_free_top h) (hp_free h)"
      using free_top_slot [OF h(1) True] .
    show ?thesis
      using al True i h by (intro reuse [of h i]) (auto simp: alloc_eq h_def Let_def)
  next
    case False
    then show ?thesis
      using al h by (intro push [of h]) (auto simp: alloc_eq h_def Let_def split: if_splits)
  qed
qed

subsection \<open>What an allocation does\<close>

lemma top_up_room:
  assumes "heap_inv h" "hp_young_floor h = length (hp_slots h)" "length (hp_slots h) < 2 ^ 32 - 2" "0 < n"
  shows "0 < hp_free_top (top_up_free h n)"
  using assms by (auto simp: top_up_free_def Let_def)

text \<open>C30: on a well-formed table, allocation never indexes out of bounds; it fails only when
  every slot index below \<open>u32::MAX\<close> is in use and no vacant slot is left to reuse.\<close>

theorem alloc_total:
  assumes inv: "heap_inv h"
  shows "(alloc h v = Inl SlotSpaceExhausted \<and> length (hp_slots h) = 2 ^ 32 - 1 \<and>
            (\<forall>s \<in> set (hp_slots h). \<not> reusable s))
       \<or> (\<exists>k h'. alloc h v = Inr (k, h'))"
proof (cases "0 < hp_free_top (alloc_ready h)")
  case True
  obtain i where "get_opt (hp_free (alloc_ready h)) (hp_free_top (alloc_ready h) - 1) = Some i"
    "unat i < length (hp_slots (alloc_ready h))"
    using free_top_slot [OF alloc_ready_facts(1) [OF inv] True] by metis
  with True show ?thesis by (simp add: alloc_eq Let_def)
next
  case False
  then have ft: "hp_free_top h = 0" and sl: "alloc_ready h = h \<or> alloc_ready h = top_up_free h
      (clamp (length (hp_slots h) div 8) FREE_TOP_UP_MIN FREE_TOP_UP_MAX)"
    by (auto simp: alloc_ready_def top_up_free_def Let_def split: if_splits)
  have same: "hp_slots (alloc_ready h) = hp_slots h"
    using sl False by (auto simp: top_up_free_def Let_def split: if_splits)
  have none: "\<not> reusable s" if "s \<in> set (hp_slots h)" for s
    using heap_invD(3) [OF inv] ft that by (auto simp: free_ok_def in_set_conv_nth)
  show ?thesis
    using False same none heap_invD(1) [OF inv] by (auto simp: alloc_eq Let_def)
qed

lemma remembered_ok_same_dirty:
  assumes "s_dirty s = s_dirty (sl ! i)"
  shows "remembered_ok (sl[i := s]) rem \<longleftrightarrow> remembered_ok sl rem"
proof -
  have "s_dirty (sl[i := s] ! j) = s_dirty (sl ! j)" if "j < length sl" for j
    using that assms by (cases "j = i") auto
  then have "(unat j < length sl \<and> s_dirty (sl[i := s] ! unat j) \<noteq> CLEAN) \<longleftrightarrow>
        (unat j < length sl \<and> s_dirty (sl ! unat j) \<noteq> CLEAN)" for j :: u32
    by auto
  then show ?thesis by (simp add: remembered_ok_def)
qed

lemma slot_inv_update:
  "Ball (set sl) slot_inv \<Longrightarrow> slot_inv s \<Longrightarrow> Ball (set (sl[i := s])) slot_inv"
  using set_update_subset_insert by fastforce

lemma heap_inv_slots: "heap_inv h \<Longrightarrow> Ball (set (hp_slots h)) slot_inv"
  by (simp add: heap_inv_def)

lemma free_ok_reuse:
  assumes ok: "free_ok sl fr ft" and i: "unat i < length sl" and len: "length sl < 2 ^ 32"
    and tk: "take ft fr = take (ft - 1) fr @ [i]" and s: "\<not> reusable s"
  shows "free_ok (sl[unat i := s]) fr (ft - 1)"
proof -
  have d: "distinct (take (ft - 1) fr)" "i \<notin> set (take (ft - 1) fr)"
    using ok tk by (auto simp: free_ok_def)
  have "of_nat k \<in> set (take (ft - 1) fr) \<longleftrightarrow> reusable (sl[unat i := s] ! k)" if "k < length sl" for k
  proof (cases "k = unat i")
    case True
    with d(2) i s show ?thesis by simp
  next
    case False
    then have "of_nat k \<noteq> i"
      using that len by (metis less_trans unat_of_nat_u32)
    then have "of_nat k \<in> set (take (ft - 1) fr) \<longleftrightarrow> of_nat k \<in> set (take ft fr)"
      by (simp add: tk)
    with False ok that show ?thesis by (simp add: free_ok_def)
  qed
  with ok d show ?thesis by (auto simp: free_ok_def)
qed

lemma heap_inv_alloc:
  assumes "heap_inv h0" "alloc h0 v = Inr (k, h')"
  shows "heap_inv h'"
  using assms
proof (cases rule: alloc_cases)
  case (reuse h i s)
  let ?s = "s\<lparr>s_age := 0, s_occupied := SLOT_OCCUPIED, s_value := Some v\<rparr>"
  have s: "slot_inv s" "\<not> slot_is_live s"
    using reuse heap_invD(2) [OF reuse(2)] by (auto simp: reusable_def)
  have s': "slot_inv ?s" "slot_is_live ?s" "\<not> reusable ?s"
    using s by (auto simp: slot_inv_def slot_is_live_def reusable_def)
  have f: "free_ok (hp_slots h') (hp_free h') (hp_free_top h')"
    using free_ok_reuse [OF heap_invD(3) [OF reuse(2)] reuse(4) heap_invD(1) [OF reuse(2)] reuse(7) s'(3)]
      reuse(5,10) by simp
  have r: "remembered_ok (hp_slots h') (hp_remembered h')"
    using heap_invD(4) [OF reuse(2)] reuse(5,10) by (simp add: remembered_ok_same_dirty)
  have y: "young_ok (hp_slots h') (hp_free h') (hp_free_top h') (hp_young_floor h')"
    using heap_invD(5) [OF reuse(2)] reuse(4,8,10) by (auto simp: young_ok_def nth_list_update)
  have "live_count (hp_slots h') = live_count (hp_slots h) + 1"
    using reuse(4,5,10) s(2) s'(2) by (simp add: live_count_update)
  then have c: "len h' = live_count (hp_slots h')"
    using heap_invD(6,7) [OF reuse(2)] reuse(10) by (simp add: len_def)
  show ?thesis
    using f r y c slot_inv_update [OF heap_inv_slots [OF reuse(2)] s'(1), of "unat i"]
      heap_invD(1,6,8) [OF reuse(2)] reuse(10) by (simp add: heap_inv_def)
next
  case (push h)
  let ?s = "slot_live 0 0 v"
  have s': "slot_inv ?s" "slot_is_live ?s" "\<not> reusable ?s" "s_dirty ?s = CLEAN"
    by (simp_all add: slot_inv_def slot_is_live_def reusable_def slot_live_def dirty_defs)
  have f: "free_ok (hp_slots h') (hp_free h') (hp_free_top h')"
    using heap_invD(3) [OF push(2)] push(3,6) s'(3)
    by (auto simp: free_ok_def nth_append less_Suc_eq)
  have r: "remembered_ok (hp_slots h') (hp_remembered h')"
    using remembered_ok_append [OF heap_invD(4) [OF push(2)], of "[?s]"] s'(4) push(6) by simp
  have y: "young_ok (hp_slots h') (hp_free h') (hp_free_top h') (hp_young_floor h')"
    using heap_invD(5) [OF push(2)] push(3,6) by (auto simp: young_ok_def nth_append less_Suc_eq)
  show ?thesis
    using f r y s' heap_invD [OF push(2)] push(4,6)
    by (auto simp: heap_inv_def len_def live_count_def)
qed

lemma alloc_peek:
  assumes "heap_inv h0" "alloc h0 v = Inr (k, h')"
  shows "peek h0 k = None" "peek h' = (peek h0)(k \<mapsto> v)"
proof -
  have "peek h0 k = None \<and> peek h' = (peek h0)(k \<mapsto> v)"
    using assms
  proof (cases rule: alloc_cases)
    case (reuse h i s)
    have pk: "peek h0 = peek_in (hp_slots h)"
      by (simp add: reuse(1) alloc_ready_facts(2) fun_eq_iff flip: peek_eq)
    have none: "peek_in (hp_slots h) j = None" if "h_index j = i" for j
      using that reuse(5,6)
      by (auto simp: peek_in_def slot_get_def get_opt_def reusable_def slot_is_live_def)
    have "peek h' j = ((peek_in (hp_slots h))(k \<mapsto> v)) j" for j
      using reuse(4,9,10) none [of j]
      by (auto simp: peek_eq peek_in_update slot_get_def handle_eq_iff)
    with none [of k] show ?thesis using reuse(9) pk by auto
  next
    case (push h)
    have pk: "peek h0 = peek_in (hp_slots h)"
      by (simp add: push(1) alloc_ready_facts(2) fun_eq_iff flip: peek_eq)
    have u: "unat (h_index k) = length (hp_slots h)"
      using push(4,5) by simp
    have none: "peek_in (hp_slots h) j = None" if "h_index j = h_index k" for j
      using that u by (simp add: peek_in_def)
    have "peek h' j = (if h_index j = h_index k then slot_get (slot_live 0 0 v) (h_generation j)
            else peek_in (hp_slots h) j)" for j
      by (simp add: push(6) peek_eq peek_in_append u [symmetric])
    moreover have "h_generation k = 0"
      by (simp add: push(5))
    ultimately have "peek h' j = ((peek_in (hp_slots h))(k \<mapsto> v)) j" for j
      using none [of j] by (auto simp: slot_get_def slot_live_def handle_eq_iff)
    with none [of k] show ?thesis using pk by auto
  qed
  then show "peek h0 k = None" "peek h' = (peek h0)(k \<mapsto> v)" by auto
qed

end
