(* ===== verification/HeapOps.thy ===== *)
theory HeapOps
  imports Heap
begin

text \<open>
  What the operations of \<open>Heap\<close> do to the values a table resolves handles to, and that each
  keeps the table's invariant: mutable borrows with their write barrier, swaps, and the
  release of a slot.
\<close>

subsection \<open>Borrows keep the invariant\<close>

text \<open>One slot changes its value and its remembered state, and the remembered list follows.\<close>

definition entered :: "'a slot \<Rightarrow> 'a slot \<Rightarrow> nat \<Rightarrow> u32 list \<Rightarrow> u32 list" where
  "entered s s' i rem = (if s_dirty s = CLEAN \<and> s_dirty s' \<noteq> CLEAN then rem @ [of_nat i] else rem)"

lemma remembered_ok_entered:
  assumes ok: "remembered_ok sl rem" and i: "i < length sl" and len: "length sl < 2 ^ 32"
    and d: "s_dirty (sl ! i) \<noteq> CLEAN \<longrightarrow> s_dirty s \<noteq> CLEAN"
  shows "remembered_ok (sl[i := s]) (entered (sl ! i) s i rem)"
proof -
  have u: "unat (of_nat i :: u32) = i"
    using i len by simp
  have mem: "j \<in> set rem \<longleftrightarrow> unat j < length sl \<and> s_dirty (sl ! unat j) \<noteq> CLEAN" for j
    using ok by (simp add: remembered_ok_def)
  have "j \<in> set (entered (sl ! i) s i rem) \<longleftrightarrow>
      unat j < length sl \<and> s_dirty (sl[i := s] ! unat j) \<noteq> CLEAN" for j
  proof (cases "unat j = i")
    case True
    then have j: "of_nat i = j" by auto
    show ?thesis using True i d mem [of j] by (auto simp: entered_def j)
  next
    case False
    then have "j \<noteq> of_nat i" using u by auto
    with False show ?thesis using mem [of j] by (auto simp: entered_def)
  qed
  moreover have "distinct (entered (sl ! i) s i rem)"
    using ok i mem [of "of_nat i"] u by (auto simp: entered_def remembered_ok_def)
  ultimately show ?thesis
    by (simp add: remembered_ok_def)
qed

lemma free_ok_same_reusable:
  assumes "free_ok sl fr ft" "reusable s = reusable (sl ! i)"
  shows "free_ok (sl[i := s]) fr ft"
  using assms by (auto simp: free_ok_def nth_update_if split: if_splits)

lemma young_ok_update:
  assumes "young_ok sl fr ft yf" "slot_young s \<longrightarrow> slot_young (sl ! i)"
  shows "young_ok (sl[i := s]) fr ft yf"
  using assms by (auto simp: young_ok_def nth_update_if split: if_splits)

text \<open>Changing a live slot's value, or entering it into the remembered set, keeps the
  invariant.\<close>

lemma heap_inv_touch:
  assumes inv: "heap_inv h" and i: "i < length (hp_slots h)" and sl: "s0 = hp_slots h ! i"
    and live: "slot_is_live s0" "slot_is_live s"
    and same: "s_generation s = s_generation s0" "s_age s = s_age s0" "s_occupied s = s_occupied s0"
    and d: "s_dirty s0 \<noteq> CLEAN \<longrightarrow> s_dirty s \<noteq> CLEAN"
      "s_dirty s \<in> {CLEAN, DIRTY, STICKY, APPENDED}" "s_dirty s \<noteq> CLEAN \<longrightarrow> OLD_AGE \<le> s_age s"
  shows "heap_inv (h\<lparr>hp_slots := (hp_slots h)[i := s],
                     hp_remembered := entered s0 s i (hp_remembered h)\<rparr>)"
proof -
  have s0: "slot_inv s0"
    using heap_invD(2) [OF inv] i sl by simp
  then have "slot_inv s"
    using live same d by (auto simp: slot_inv_def)
  moreover have "free_ok ((hp_slots h)[i := s]) (hp_free h) (hp_free_top h)"
    using free_ok_same_reusable [OF heap_invD(3) [OF inv]] live sl by (simp add: reusable_def)
  moreover have "young_ok ((hp_slots h)[i := s]) (hp_free h) (hp_free_top h) (hp_young_floor h)"
    using young_ok_update [OF heap_invD(5) [OF inv]] live same sl by (simp add: slot_young_def)
  moreover have "remembered_ok ((hp_slots h)[i := s]) (entered s0 s i (hp_remembered h))"
    using remembered_ok_entered [OF heap_invD(4) [OF inv] i heap_invD(1) [OF inv]] d sl by simp
  moreover have "live_count ((hp_slots h)[i := s]) = live_count (hp_slots h)"
    using i live sl by (simp add: live_count_update)
  ultimately show ?thesis
    using heap_invD(1,6,7,8) [OF inv] slot_inv_update [OF heap_inv_slots [OF inv], of s i]
    by (simp add: heap_inv_def len_def)
qed

lemma peek_mut_cases [case_names stale touch]:
  obtains (stale) "peek h k = None" "peek_mut h k upd = (None, h)"
  | (touch) v s s' where "unat (h_index k) < length (hp_slots h)" "s = hp_slots h ! unat (h_index k)"
      "s_generation s = h_generation k" "s_value s = Some v" "peek h k = Some v"
      "s' = (if barrier_due s then s\<lparr>s_dirty := DIRTY, s_value := Some (upd v)\<rparr>
             else s\<lparr>s_value := Some (upd v)\<rparr>)"
      "peek_mut h k upd = (Some v, h\<lparr>hp_slots := (hp_slots h)[unat (h_index k) := s'],
         hp_remembered := entered s s' (unat (h_index k)) (hp_remembered h)\<rparr>)"
proof (cases "peek h k")
  case None
  then show ?thesis
    by (intro stale) (auto simp: peek_mut_def peek_def slot_get_def Let_def split: option.splits if_splits)
next
  case (Some v)
  then have f: "unat (h_index k) < length (hp_slots h)"
    "s_generation (hp_slots h ! unat (h_index k)) = h_generation k"
    "s_value (hp_slots h ! unat (h_index k)) = Some v"
    by (auto simp: peek_Some)
  show ?thesis
    by (rule touch [OF f(1) refl f(2,3) Some refl])
       (auto simp: peek_mut_def f Let_def entered_def barrier_due_iff dirty_defs)
qed

lemma heap_inv_peek_mut:
  assumes inv: "heap_inv h"
  shows "heap_inv (snd (peek_mut h k upd))"
proof (cases rule: peek_mut_cases [of h k upd])
  case stale
  with inv show ?thesis by simp
next
  case (touch v s s')
  then have "slot_inv s"
    using heap_invD(2) [OF inv] by simp
  with touch have "heap_inv (h\<lparr>hp_slots := (hp_slots h)[unat (h_index k) := s'],
       hp_remembered := entered s s' (unat (h_index k)) (hp_remembered h)\<rparr>)"
    by (intro heap_inv_touch [OF inv]) (auto simp: slot_is_live_def slot_inv_def barrier_due_iff dirty_defs)
  with touch show ?thesis by simp
qed

lemma peek_peek_mut:
  "peek (snd (peek_mut h k upd)) = (peek h)(k := map_option upd (peek h k))"
proof (cases rule: peek_mut_cases [of h k upd])
  case stale
  then show ?thesis by (auto simp: fun_eq_iff)
next
  case (touch v s s')
  have "peek (snd (peek_mut h k upd)) j = ((peek h)(k := map_option upd (peek h k))) j" for j
    using touch(1-6) unfolding touch(7)
    by (auto simp: peek_eq peek_in_update slot_get_def handle_eq_iff)
       (auto simp: peek_in_def slot_get_def)
  then show ?thesis by auto
qed


text \<open>The verification state is not part of the invariant, nor of what a handle resolves to.\<close>

lemma heap_inv_poison [simp]: "heap_inv (h\<lparr>hp_poison := p\<rparr>) \<longleftrightarrow> heap_inv h"
  by (simp add: heap_inv_def len_def)

lemma peek_poison [simp]: "peek (h\<lparr>hp_poison := p\<rparr>) = peek h"
  by (simp add: peek_eq)

lemma note_poison_useE:
  assumes "note_poison_use h k = Inr h'"
  obtains p where "h' = h\<lparr>hp_poison := p\<rparr>" "p = None \<longleftrightarrow> hp_poison h = None"
proof -
  consider "h' = h" | p where "h' = h\<lparr>hp_poison := Some p\<rparr>" "hp_poison h \<noteq> None"
    using assms by (auto simp: note_poison_use_def split: option.splits if_splits)
  then show ?thesis
  proof cases
    case 1
    then show ?thesis using that [of "hp_poison h"] by simp
  next
    case (2 p)
    then show ?thesis using that [of "Some p"] by simp
  qed
qed

lemma get_mutE:
  assumes "get_mut h k upd = Inr (r, h')"
  obtains p where "h' = snd (peek_mut (h\<lparr>hp_poison := p\<rparr>) k upd)" "r = peek h k"
proof -
  obtain h1 where h1: "(if hp_poison h \<noteq> None then note_poison_use h k else Inr h) = Inr h1"
    and pm: "peek_mut h1 k upd = (r, h')"
    using assms by (auto simp: get_mut_def split: sum.splits)
  obtain p where p: "h1 = h\<lparr>hp_poison := p\<rparr>"
    using h1 note_poison_useE by (metis Inr_inject heap.surjective heap.update_convs(10))
  have "fst (peek_mut h1 k upd) = peek h1 k"
    by (cases rule: peek_mut_cases [of h1 k upd]) simp_all
  with pm p show ?thesis using that by (metis fst_conv snd_conv peek_poison)
qed

lemma get_mut_effect:
  assumes inv: "heap_inv h" and g: "get_mut h k upd = Inr (r, h')"
  shows "heap_inv h'" "r = peek h k" "peek h' = (peek h)(k := map_option upd (peek h k))"
proof -
  obtain p where p: "h' = snd (peek_mut (h\<lparr>hp_poison := p\<rparr>) k upd)" "r = peek h k"
    using get_mutE [OF g] .
  show "heap_inv h'" "r = peek h k" using p inv by (simp_all add: heap_inv_peek_mut)
  show "peek h' = (peek h)(k := map_option upd (peek h k))"
    unfolding p(1) peek_peek_mut by simp
qed

lemma heap_inv_remember: "heap_inv h \<Longrightarrow> heap_inv (remember h i)"
proof -
  assume inv: "heap_inv h"
  show ?thesis
  proof (cases "i < length (hp_slots h) \<and> slot_is_live (hp_slots h ! i) \<and> barrier_due (hp_slots h ! i)")
    case True
    let ?s = "hp_slots h ! i" and ?s' = "(hp_slots h ! i)\<lparr>s_dirty := DIRTY\<rparr>"
    have e: "remember h i = h\<lparr>hp_slots := (hp_slots h)[i := ?s'],
         hp_remembered := entered ?s ?s' i (hp_remembered h)\<rparr>"
      using True by (auto simp: remember_def entered_def dirty_defs)
    show ?thesis
      unfolding e using True
      by (intro heap_inv_touch [OF inv]) (auto simp: slot_is_live_def barrier_due_iff dirty_defs)
  next
    case False
    with inv show ?thesis
      by (auto simp: remember_def split: option.splits if_splits simp: get_opt_eq_Some)
  qed
qed

lemma peek_remember [simp]: "peek (remember h i) = peek h"
proof -
  have "peek_in ((hp_slots h)[i := (hp_slots h ! i)\<lparr>s_dirty := DIRTY\<rparr>]) k = peek_in (hp_slots h) k" for k
    by (auto simp: peek_in_def get_opt_def nth_update_if slot_get_def)
  then show ?thesis
    by (auto simp: remember_def peek_eq get_opt_eq_Some fun_eq_iff split: option.splits if_splits)
qed

subsection \<open>Releasing a slot\<close>

lemma free_ok_release:
  assumes ok: "free_ok sl fr ft" and i: "unat i < length sl" and len: "length sl < 2 ^ 32"
    and live: "\<not> reusable (sl ! unat i)"
  shows "\<not> reusable s \<Longrightarrow> free_ok (sl[unat i := s]) fr ft"
    and "reusable s \<Longrightarrow> free_ok (sl[unat i := s]) (take ft fr @ i # drop ft fr) (ft + 1)"
proof -
  show "free_ok (sl[unat i := s]) fr ft" if "\<not> reusable s"
    using free_ok_same_reusable [OF ok] that live by simp
  assume r: "reusable s"
  have le: "ft \<le> length fr" using ok by (simp add: free_ok_def)
  have tk: "take (ft + 1) (take ft fr @ i # drop ft fr) = take ft fr @ [i]"
    using le by (simp add: min_def)
  have ni: "i \<notin> set (take ft fr)"
    using ok i live by (metis free_ok_def of_nat_unat_u32)
  have "of_nat k \<in> set (take ft fr @ [i]) \<longleftrightarrow> reusable (sl[unat i := s] ! k)" if k: "k < length sl" for k
  proof (cases "k = unat i")
    case True
    with i r show ?thesis by simp
  next
    case False
    then have "(of_nat k :: u32) \<noteq> i" using k len by (metis less_trans unat_of_nat_u32)
    with False k ok show ?thesis by (simp add: free_ok_def)
  qed
  moreover have "set (take ft fr @ i # drop ft fr) = insert i (set fr)"
    by (metis append_take_drop_id list.simps(15) set_append Un_insert_right)
  ultimately show "free_ok (sl[unat i := s]) (take ft fr @ i # drop ft fr) (ft + 1)"
    using ok i le ni unfolding free_ok_def tk by auto
qed

lemma remembered_ok_release:
  assumes ok: "remembered_ok sl rem" and i: "unat i < length sl" and s: "s_dirty s = CLEAN"
  shows "remembered_ok (sl[unat i := s])
    (if s_dirty (sl ! unat i) \<noteq> CLEAN then filter (\<lambda>k. k \<noteq> i) rem else rem)"
proof -
  have mem: "j \<in> set rem \<longleftrightarrow> unat j < length sl \<and> s_dirty (sl ! unat j) \<noteq> CLEAN" for j
    using ok by (simp add: remembered_ok_def)
  have "(unat j < length sl \<and> s_dirty (sl[unat i := s] ! unat j) \<noteq> CLEAN) \<longleftrightarrow> j \<in> set rem \<and> j \<noteq> i" for j
    using mem [of j] s by (auto simp: nth_update_if split: if_splits)
  then show ?thesis
    using ok mem [of i] by (auto simp: remembered_ok_def)
qed


lemma fold_allocs_simps [simp]:
  "hp_slots (fold_allocs h) = hp_slots h" "hp_free (fold_allocs h) = hp_free h"
  "hp_free_top (fold_allocs h) = hp_free_top h" "hp_young_floor (fold_allocs h) = hp_young_floor h"
  "hp_remembered (fold_allocs h) = hp_remembered h" "hp_poison (fold_allocs h) = hp_poison h"
  "hp_live (fold_allocs h) = len h" "hp_compact_gen (fold_allocs h) = hp_compact_gen h"
  "hp_counted (fold_allocs h) = hp_allocs_since_gc h"
  "hp_allocs_since_gc (fold_allocs h) = hp_allocs_since_gc h"
  "hp_extra_pool (fold_allocs h) = hp_extra_pool h" "len (fold_allocs h) = len h"
  by (simp_all add: fold_allocs_def len_def)

lemma live_not_reusable: "slot_is_live s \<Longrightarrow> \<not> reusable s"
  by (simp add: reusable_def)

lemma freeE [consumes 2, case_names stale freed]:
  assumes p: "hp_poison h = None" and f: "free h k = (r, h')"
  obtains (stale) "peek h k = None" "r = None" "h' = fold_allocs h"
  | (freed) v s s' where "unat (h_index k) < length (hp_slots h)" "s = hp_slots h ! unat (h_index k)"
      "slot_is_live s" "s_generation s = h_generation k" "peek h k = Some v" "r = Some v"
      "s' = s\<lparr>s_value := None, s_occupied := 0, s_generation := s_generation s + 1, s_dirty := CLEAN\<rparr>"
      "h' = (fold_allocs h)\<lparr>hp_slots := (hp_slots h)[unat (h_index k) := s'],
         hp_remembered := (if s_dirty s \<noteq> CLEAN then filter (\<lambda>j. j \<noteq> h_index k) (hp_remembered h)
                           else hp_remembered h),
         hp_free := (if reusable s' then take (hp_free_top h) (hp_free h) @ h_index k #
                       drop (hp_free_top h) (hp_free h) else hp_free h),
         hp_free_top := (if reusable s' then hp_free_top h + 1 else hp_free_top h),
         hp_live := len h - 1\<rparr>"
proof (cases "peek h k")
  case None
  then show ?thesis
    using p f by (intro stale) (auto simp: free_def Let_def peek_def slot_get_def slot_is_live_def
        fold_allocs_def split: option.splits if_splits)
next
  case (Some v)
  let ?s = "hp_slots h ! unat (h_index k)"
  have s: "unat (h_index k) < length (hp_slots h)" "s_generation ?s = h_generation k"
    "s_value ?s = Some v"
    using Some by (auto simp: peek_Some)
  have ret: "reusable (?s\<lparr>s_value := None, s_occupied := 0, s_generation := s_generation ?s + 1,
      s_dirty := CLEAN\<rparr>) \<longleftrightarrow> \<not> COMPACT_GEN_BASE \<le> s_generation ?s + 1"
    by (auto simp: reusable_def slot_is_live_def)
  have lv: "slot_is_live ?s" using s(3) by (simp add: slot_is_live_def)
  have r: "r = Some v" using p f s lv by (auto simp: free_def Let_def)
  show ?thesis
  proof (cases "COMPACT_GEN_BASE \<le> s_generation ?s + 1")
    case True
    then show ?thesis
      using p f s(1,2) lv by (intro freed [OF s(1) refl lv s(2) Some r refl])
        (auto simp: free_def Let_def ret [unfolded s(2)])
  next
    case False
    then show ?thesis
      using p f s(1,2) lv by (intro freed [OF s(1) refl lv s(2) Some r refl])
        (auto simp: free_def Let_def ret [unfolded s(2)])
  qed
qed

lemma free_effect:
  assumes inv: "heap_inv h" and p: "hp_poison h = None" and f: "free h k = (r, h')"
  shows "heap_inv h'" "r = peek h k" "peek h' = (peek h)(k := None)" "hp_poison h' = None"
proof -
  have fold: "heap_inv (fold_allocs h)"
    using inv by (simp add: heap_inv_def)
  have "heap_inv h' \<and> r = peek h k \<and> peek h' = (peek h)(k := None) \<and> hp_poison h' = None"
    using p f
  proof (cases rule: freeE)
    case stale
    then show ?thesis using fold p by (auto simp: peek_eq fun_eq_iff)
  next
    case (freed v s s')
    let ?sl = "(hp_slots h)[unat (h_index k) := s']"
    have s: "slot_inv s" using heap_invD(2) [OF inv] freed(1,2) by simp
    have s': "slot_inv s'" "\<not> slot_is_live s'" "\<not> slot_young s'" "s_dirty s' = CLEAN"
      using s by (auto simp: freed(7) slot_inv_def slot_is_live_def slot_young_def)
    have fr: "free_ok ?sl (hp_free h') (hp_free_top h')"
      using free_ok_release [OF heap_invD(3) [OF inv] freed(1) heap_invD(1) [OF inv], of s']
        live_not_reusable [OF freed(3)] freed(2,8) by simp
    have rem: "remembered_ok ?sl (hp_remembered h')"
      using remembered_ok_release [OF heap_invD(4) [OF inv] freed(1) s'(4)] freed(2,8) by simp
    have "drop (hp_free_top h') (hp_free h') = drop (hp_free_top h) (hp_free h)"
      using heap_invD(3) [OF inv] freed(8) by (simp add: free_ok_def min_def)
    then have y: "young_ok ?sl (hp_free h') (hp_free_top h') (hp_young_floor h')"
      using young_ok_update [OF heap_invD(5) [OF inv], of s' "unat (h_index k)"] s'(3) freed(8)
      by (simp add: young_ok_def)
    have c: "live_count ?sl = len h - 1"
      using freed(1,2,3) s'(2) heap_invD(7) [OF inv] by (simp add: live_count_update)
    have "heap_inv h'"
      using fr rem y c heap_invD(1,8) [OF inv] slot_inv_update [OF heap_inv_slots [OF inv] s'(1)]
        freed(8) by (simp add: heap_inv_def len_def)
    moreover have "peek h' j = ((peek h)(k := None)) j" for j
      using freed(1,2,4,7,8)
      by (auto simp: peek_eq peek_in_update slot_get_def handle_eq_iff)
         (auto simp: peek_in_def slot_get_def)
    ultimately show ?thesis
      using freed(5,6,8) p by auto
  qed
  then show "heap_inv h'" "r = peek h k" "peek h' = (peek h)(k := None)" "hp_poison h' = None"
    by auto
qed


subsection \<open>Appending borrows and swaps\<close>

lemma get_mut_append_cases [consumes 1, case_names stale touch]:
  assumes g: "get_mut_append h0 k fr upd = Inr (r, h')"
  obtains (stale) p where "peek h0 k = None" "r = None" "h' = h0\<lparr>hp_poison := p\<rparr>"
  | (touch) p h v s s' where "h = h0\<lparr>hp_poison := p\<rparr>" "unat (h_index k) < length (hp_slots h)"
      "s = hp_slots h ! unat (h_index k)" "s_generation s = h_generation k" "s_value s = Some v"
      "peek h0 k = Some v" "r = Some v"
      "s' = (if barrier_due s \<and> \<not> (s_dirty s \<noteq> CLEAN \<and> scan_from s < fr v)
             then (if fr v \<le> SCAN_MAX
                   then s\<lparr>s_dirty := APPENDED, s_scan_lo := of_nat (fr v),
                          s_scan_hi := of_nat (drop_bit 16 (fr v))\<rparr>
                   else s\<lparr>s_dirty := DIRTY\<rparr>)
             else s)\<lparr>s_value := Some (upd v)\<rparr>"
      "h' = h\<lparr>hp_slots := (hp_slots h)[unat (h_index k) := s'],
             hp_remembered := entered s s' (unat (h_index k)) (hp_remembered h)\<rparr>"
proof -
  obtain h where h: "(if hp_poison h0 \<noteq> None then note_poison_use h0 k else Inr h0) = Inr h"
    using g by (cases "if hp_poison h0 \<noteq> None then note_poison_use h0 k else Inr h0")
      (auto simp: get_mut_append_def)
  obtain p where p: "h = h0\<lparr>hp_poison := p\<rparr>"
    using h note_poison_useE by (metis Inr_inject heap.surjective heap.update_convs(10))
  have pk: "peek h0 = peek h" by (simp add: p)
  show ?thesis
  proof (cases "peek h k")
    case None
    then have "(r, h') = (None, h)"
      using g unfolding get_mut_append_def h
      by (auto simp: Let_def peek_def slot_get_def split: option.splits if_splits)
    moreover have "peek h0 k = None" using None pk by simp
    ultimately show ?thesis using stale [of p] p by blast
  next
    case (Some v)
    let ?i = "unat (h_index k)"
    have s: "?i < length (hp_slots h)" "s_generation (hp_slots h ! ?i) = h_generation k"
      "s_value (hp_slots h ! ?i) = Some v"
      using Some by (auto simp: peek_Some)
    define s' where "s' = (if barrier_due (hp_slots h ! ?i) \<and>
        \<not> (s_dirty (hp_slots h ! ?i) \<noteq> CLEAN \<and> scan_from (hp_slots h ! ?i) < fr v)
      then (if fr v \<le> SCAN_MAX
            then (hp_slots h ! ?i)\<lparr>s_dirty := APPENDED, s_scan_lo := of_nat (fr v),
                   s_scan_hi := of_nat (drop_bit 16 (fr v))\<rparr>
            else (hp_slots h ! ?i)\<lparr>s_dirty := DIRTY\<rparr>)
      else hp_slots h ! ?i)\<lparr>s_value := Some (upd v)\<rparr>"
    have e: "entered (hp_slots h ! ?i) s' ?i (hp_remembered h) =
        (if barrier_due (hp_slots h ! ?i) \<and> s_dirty (hp_slots h ! ?i) = CLEAN
         then hp_remembered h @ [h_index k] else hp_remembered h)"
      by (auto simp: entered_def s'_def barrier_due_iff dirty_defs)
    have "(r, h') = (Some v, h\<lparr>hp_slots := (hp_slots h)[?i := s'],
        hp_remembered := entered (hp_slots h ! ?i) s' ?i (hp_remembered h)\<rparr>)"
      using g unfolding get_mut_append_def h e unfolding s'_def
      by (simp add: Let_def s split del: if_split)
    moreover have "peek h0 k = Some v" using Some pk by simp
    ultimately show ?thesis using touch [OF p s(1) refl s(2,3) _ _ s'_def] by blast
  qed
qed

lemma get_mut_append_effect:
  assumes inv: "heap_inv h" and g: "get_mut_append h k fr upd = Inr (r, h')"
  shows "heap_inv h'" "r = peek h k" "peek h' = (peek h)(k := map_option upd (peek h k))"
proof -
  have "heap_inv h' \<and> r = peek h k \<and> peek h' = (peek h)(k := map_option upd (peek h k))"
    using g
  proof (cases rule: get_mut_append_cases)
    case (stale p)
    with inv show ?thesis by auto
  next
    case (touch p h1 v s s')
    have inv1: "heap_inv h1" using inv touch(1) by simp
    have "slot_inv s" using heap_invD(2) [OF inv1] touch(2,3) by simp
    then have "heap_inv h'"
      unfolding touch(9) using touch(2-5,8)
      by (intro heap_inv_touch [OF inv1])
         (auto simp: slot_is_live_def slot_inv_def barrier_due_iff dirty_defs)
    moreover have gen: "s_generation s' = h_generation k" "s_value s' = Some (upd v)"
      using touch(4,8) by auto
    have "peek h' j = ((peek h)(k := map_option upd (peek h k))) j" for j
      using touch(1,2,3,4,6,9) gen
      by (auto simp: peek_eq peek_in_update slot_get_def handle_eq_iff)
         (auto simp: peek_in_def slot_get_def)
    ultimately show ?thesis using touch(6,7) by auto
  qed
  then show "heap_inv h'" "r = peek h k" "peek h' = (peek h)(k := map_option upd (peek h k))"
    by auto
qed

lemma swap_eq:
  assumes "peek h a = Some va" "peek h b = Some vb" "h_index a \<noteq> h_index b"
  shows "swap h a b =
    (let i = unat (h_index a); j = unat (h_index b);
         h1 = h\<lparr>hp_slots := (hp_slots h)[i := (hp_slots h ! i)\<lparr>s_value := Some vb\<rparr>]\<rparr>;
         h2 = h1\<lparr>hp_slots := (hp_slots h1)[j := (hp_slots h1 ! j)\<lparr>s_value := Some va\<rparr>]\<rparr>
     in remember (remember h2 i) j)"
  using assms by (auto simp: swap_def peek_Some slot_get_def Let_def)

lemma swap_noop:
  "peek h a = None \<or> peek h b = None \<or> h_index a = h_index b \<Longrightarrow> swap h a b = h"
  by (auto simp: swap_def peek_def slot_get_def get_opt_def Let_def split: option.splits if_splits)

lemma heap_inv_store:
  assumes inv: "heap_inv h" and i: "i < length (hp_slots h)" "slot_is_live (hp_slots h ! i)"
  shows "heap_inv (h\<lparr>hp_slots := (hp_slots h)[i := (hp_slots h ! i)\<lparr>s_value := Some v\<rparr>]\<rparr>)"
proof -
  have "slot_inv (hp_slots h ! i)" using heap_invD(2) [OF inv] i by simp
  with i have "heap_inv (h\<lparr>hp_slots := (hp_slots h)[i := (hp_slots h ! i)\<lparr>s_value := Some v\<rparr>],
      hp_remembered := entered (hp_slots h ! i) ((hp_slots h ! i)\<lparr>s_value := Some v\<rparr>) i (hp_remembered h)\<rparr>)"
    by (intro heap_inv_touch [OF inv]) (auto simp: slot_is_live_def slot_inv_def)
  then show ?thesis by (simp add: entered_def)
qed

lemma swap_effect:
  assumes inv: "heap_inv h"
  shows "heap_inv (swap h a b)"
    and "peek (swap h a b) = (if peek h a \<noteq> None \<and> peek h b \<noteq> None \<and> h_index a \<noteq> h_index b
           then (peek h)(a := peek h b, b := peek h a) else peek h)"
proof -
  have "heap_inv (swap h a b) \<and> peek (swap h a b) = (peek h)(a := peek h b, b := peek h a)"
    if va: "peek h a = Some va" and vb: "peek h b = Some vb" and ne: "h_index a \<noteq> h_index b" for va vb
  proof -
    let ?i = "unat (h_index a)" and ?j = "unat (h_index b)"
    define h1 where "h1 = h\<lparr>hp_slots := (hp_slots h)[?i := (hp_slots h ! ?i)\<lparr>s_value := Some vb\<rparr>]\<rparr>"
    define h2 where "h2 = h1\<lparr>hp_slots := (hp_slots h1)[?j := (hp_slots h1 ! ?j)\<lparr>s_value := Some va\<rparr>]\<rparr>"
    have sw: "swap h a b = remember (remember h2 ?i) ?j"
      unfolding swap_eq [OF va vb ne] Let_def h2_def h1_def ..
    have fa: "?i < length (hp_slots h)" "s_generation (hp_slots h ! ?i) = h_generation a"
        "s_value (hp_slots h ! ?i) = Some va"
      and fb: "?j < length (hp_slots h)" "s_generation (hp_slots h ! ?j) = h_generation b"
        "s_value (hp_slots h ! ?j) = Some vb"
      using va vb by (auto simp: peek_Some)
    have i1: "heap_inv h1"
      unfolding h1_def using fa by (intro heap_inv_store [OF inv]) (auto simp: slot_is_live_def)
    have i2: "heap_inv h2"
      unfolding h2_def using fb ne by (intro heap_inv_store [OF i1]) (auto simp: h1_def slot_is_live_def)
    have "peek h2 j = ((peek h)(a := peek h b, b := peek h a)) j" for j
      using fa fb ne va vb
      by (auto simp: h2_def h1_def peek_eq peek_in_update slot_get_def handle_eq_iff)
         (auto simp: peek_in_def slot_get_def)
    then have "peek h2 = (peek h)(a := peek h b, b := peek h a)" by auto
    then show ?thesis using i2 by (simp add: sw heap_inv_remember)
  qed
  then show "heap_inv (swap h a b)"
    "peek (swap h a b) = (if peek h a \<noteq> None \<and> peek h b \<noteq> None \<and> h_index a \<noteq> h_index b
       then (peek h)(a := peek h b, b := peek h a) else peek h)"
    using swap_noop [of h a b] inv by (cases "peek h a"; cases "peek h b"; force)+
qed

lemma alloc_poison: "heap_inv h \<Longrightarrow> alloc h v = Inr (k, h') \<Longrightarrow> hp_poison h' = hp_poison h"
proof -
  assume a: "heap_inv h" "alloc h v = Inr (k, h')"
  have r: "hp_poison (alloc_ready h) = hp_poison h" by (simp add: alloc_ready_def top_up_free_def Let_def)
  from a show ?thesis
  proof (cases rule: alloc_cases)
    case (reuse h1 i s)
    show ?thesis unfolding reuse(10) using r reuse(1) by simp
  next
    case (push h1)
    show ?thesis unfolding push(6) using r push(1) by simp
  qed
qed

end
