(* ===== verification/HeapStore.thy ===== *)
theory HeapStore
  imports HeapOps
begin

text \<open>
  The heap as a handle store: the contract its clients rely on, what follows from the contract alone,
  and that the generational handle table of \<open>Heap\<close> meets it.
\<close>

text \<open>Allocating a list of values in order.\<close>

fun alloc_all :: "('h \<Rightarrow> 'v \<Rightarrow> 'e + ('k \<times> 'h)) \<Rightarrow> 'h \<Rightarrow> 'v list \<Rightarrow> 'e + ('k list \<times> 'h)" where
  "alloc_all new h [] = Inr ([], h)"
| "alloc_all new h (v # vs) = (case new h v of
       Inl e \<Rightarrow> Inl e
     | Inr (k, h1) \<Rightarrow> (case alloc_all new h1 vs of
         Inl e \<Rightarrow> Inl e
       | Inr (ks, h2) \<Rightarrow> Inr (k # ks, h2)))"

locale handle_store =
  fixes inv :: "'h \<Rightarrow> bool"
    and lookup :: "'h \<Rightarrow> 'k \<Rightarrow> 'v option"
    and new :: "'h \<Rightarrow> 'v \<Rightarrow> 'e + ('k \<times> 'h)"
    and release :: "'h \<Rightarrow> 'k \<Rightarrow> 'v option \<times> 'h"
  assumes new_inv: "inv h \<Longrightarrow> new h v = Inr (k, h') \<Longrightarrow> inv h'"
    and new_fresh: "inv h \<Longrightarrow> new h v = Inr (k, h') \<Longrightarrow> lookup h k = None"
    and new_lookup: "inv h \<Longrightarrow> new h v = Inr (k, h') \<Longrightarrow> lookup h' = (lookup h)(k \<mapsto> v)"
    and release_inv: "inv h \<Longrightarrow> release h k = (r, h') \<Longrightarrow> inv h'"
    and release_value: "inv h \<Longrightarrow> release h k = (r, h') \<Longrightarrow> r = lookup h k"
    and release_lookup: "inv h \<Longrightarrow> release h k = (r, h') \<Longrightarrow> lookup h' = (lookup h)(k := None)"
begin

lemma new_all:
  assumes "inv h" "alloc_all new h vs = Inr (ks, h')"
  shows "inv h' \<and> distinct ks \<and> length ks = length vs \<and> set ks \<inter> dom (lookup h) = {} \<and>
    lookup h' = (lookup h)(ks [\<mapsto>] vs)"
  using assms
proof (induction vs arbitrary: h ks)
  case (Cons v vs)
  obtain k h1 ks1 where a: "new h v = Inr (k, h1)" "alloc_all new h1 vs = Inr (ks1, h')" "ks = k # ks1"
    using Cons.prems(2) by (auto split: sum.splits prod.splits)
  have i: "inv h1" "lookup h k = None" "lookup h1 = (lookup h)(k \<mapsto> v)"
    using new_inv new_fresh new_lookup Cons.prems(1) a(1) by blast+
  have "inv h' \<and> distinct ks1 \<and> length ks1 = length vs \<and> set ks1 \<inter> dom (lookup h1) = {} \<and>
      lookup h' = (lookup h1)(ks1 [\<mapsto>] vs)"
    using Cons.IH [OF i(1) a(2)] .
  then show ?case using i(2,3) a(3) by auto
qed simp

lemma release_new:
  assumes "inv h" "new h v = Inr (k, h1)" "release h1 k = (r, h2)"
  shows "r = Some v \<and> lookup h2 = lookup h"
proof -
  have i: "inv h1" "lookup h k = None" "lookup h1 = (lookup h)(k \<mapsto> v)"
    using new_inv new_fresh new_lookup assms(1,2) by blast+
  then show ?thesis
    using release_value [OF i(1) assms(3)] release_lookup [OF i(1) assms(3)] by (auto simp: fun_eq_iff)
qed

lemma release_twice:
  assumes "inv h" "release h k = (r, h1)" "release h1 k = (r', h2)"
  shows "r' = None \<and> lookup h2 = lookup h1"
  using release_inv [OF assms(1,2)] release_lookup [OF assms(1,2)] release_value [of h1 k r' h2]
    release_lookup [of h1 k r' h2] assms(3) by auto

end

interpretation heap_store: handle_store "\<lambda>h. heap_inv h \<and> hp_poison h = None" peek alloc free
proof
  fix h :: "('a, 'p) heap" and v k h'
  assume i: "heap_inv h \<and> hp_poison h = None" and a: "alloc h v = Inr (k, h')"
  then show "heap_inv h' \<and> hp_poison h' = None" "peek h k = None" "peek h' = (peek h)(k \<mapsto> v)"
    using heap_inv_alloc alloc_peek alloc_poison by metis+
next
  fix h :: "('a, 'p) heap" and k r h'
  assume i: "heap_inv h \<and> hp_poison h = None" and f: "free h k = (r, h')"
  then show "heap_inv h' \<and> hp_poison h' = None" "r = peek h k" "peek h' = (peek h)(k := None)"
    using free_effect by metis+
qed

text \<open>C28: allocating values one after the other on a well-formed table gives distinct handles, none of
  which resolved before, each reading its own value back; every other handle resolves as before.\<close>

theorem allocations_independent:
  assumes "heap_inv h" "hp_poison h = None" "alloc_all alloc h vs = Inr (ks, h')"
  shows "heap_inv h' \<and> distinct ks \<and> set ks \<inter> dom (peek h) = {} \<and> peek h' = (peek h)(ks [\<mapsto>] vs) \<and>
    length ks = length vs"
  using heap_store.new_all [of h vs ks h'] assms by blast

text \<open>C29: releasing a handle hands out exactly the value it resolved to and makes it, and only it, stale;
  a second release through the same handle returns nothing and changes no other object.\<close>

theorem free_makes_stale:
  assumes "heap_inv h" "hp_poison h = None" "free h k = (r, h1)" "free h1 k = (r', h2)"
  shows "r = peek h k \<and> peek h1 = (peek h)(k := None) \<and> heap_inv h2 \<and> r' = None \<and> peek h2 = peek h1"
  using heap_store.release_twice [of h k r h1 r' h2] heap_store.release_value [of h k r h1]
    heap_store.release_lookup [of h k r h1] heap_store.release_inv [of h k r h1] heap_store.release_inv [of h1 k r' h2] assms
  by blast

end
