(* ===== verification/Sweep.thy ===== *)
theory Sweep
  imports HeapStore
begin

text \<open>
  The sweeps of \<open>src/src/heap.rs\<close>: the full sweep, the minor sweep with its verification-mode
  loop and its fast path, the check of the generational invariants, and compaction. Loops over
  the table and over the free list are recursions that carry the vectors the Rust code mutates.
\<close>

record 'p sweep_acc =
  a_free :: "u32 list"
  a_remembered :: "u32 list"
  a_live :: nat
  a_poison :: "poison_state option"
  a_pool :: 'p
  a_swept :: nat

definition saturating_inc :: "u8 \<Rightarrow> u8" where
  "saturating_inc a = (if a = 255 then 255 else a + 1)"

subsection \<open>The full sweep\<close>

definition sweep_slot ::
  "('a, 'p) trace_ops \<Rightarrow> (handle \<Rightarrow> 'a \<Rightarrow> bool) \<Rightarrow> ('a \<Rightarrow> bool) \<Rightarrow> nat \<Rightarrow> 'a slot \<Rightarrow>
     'p sweep_acc \<Rightarrow> 'a slot \<times> 'p sweep_acc" where
  "sweep_slot ops keep sticky i s acc = (case s_value s of
       None \<Rightarrow> (s, acc)
     | Some v \<Rightarrow>
         let hn = \<lparr>h_index = of_nat i, h_generation = s_generation s\<rparr> in
         if keep hn v then
           (let s1 = s\<lparr>s_age := saturating_inc (s_age s)\<rparr> in
            if sticky v
            then (s1\<lparr>s_dirty := STICKY\<rparr>, acc\<lparr>a_remembered := a_remembered acc @ [of_nat i]\<rparr>)
            else (s1\<lparr>s_dirty := CLEAN\<rparr>, acc))
         else
           (let acc1 = acc\<lparr>a_swept := a_swept acc + 1\<rparr> in
            case a_poison acc of
              Some p \<Rightarrow>
                (s\<lparr>s_age := max (s_age s) OLD_AGE, s_dirty := CLEAN\<rparr>,
                 acc1\<lparr>a_poison := Some (p\<lparr>p_freed := insert hn (p_freed p)\<rparr>)\<rparr>)
            | None \<Rightarrow>
                (let next_gen = s_generation s + 1;
                     (s', pool') = vacate_release ops s next_gen (a_pool acc)
                 in (s', acc1\<lparr>a_pool := pool',
                              a_free := (if next_gen < COMPACT_GEN_BASE
                                         then a_free acc @ [of_nat i] else a_free acc),
                              a_live := a_live acc - 1\<rparr>))))"

fun sweep_slots ::
  "('a, 'p) trace_ops \<Rightarrow> (handle \<Rightarrow> 'a \<Rightarrow> bool) \<Rightarrow> ('a \<Rightarrow> bool) \<Rightarrow> nat \<Rightarrow> 'a slot list \<Rightarrow>
     'p sweep_acc \<Rightarrow> 'a slot list \<times> 'p sweep_acc" where
  "sweep_slots ops keep sticky i [] acc = ([], acc)"
| "sweep_slots ops keep sticky i (s # sl) acc =
     (let (s', acc1) = sweep_slot ops keep sticky i s acc;
          (sl', acc2) = sweep_slots ops keep sticky (i + 1) sl acc1
      in (s' # sl', acc2))"

definition sweep ::
  "('a, 'p) trace_ops \<Rightarrow> ('a, 'p) heap \<Rightarrow> (handle \<Rightarrow> 'a \<Rightarrow> bool) \<Rightarrow> ('a \<Rightarrow> bool) \<Rightarrow>
     nat \<times> ('a, 'p) heap" where
  "sweep ops h0 keep sticky =
     (let h = fold_allocs h0;
          (sl, acc) = sweep_slots ops keep sticky 0 (hp_slots h)
            \<lparr>a_free = take (hp_free_top h) (hp_free h), a_remembered = [], a_live = hp_live h,
             a_poison = hp_poison h, a_pool = hp_extra_pool h, a_swept = 0\<rparr>
      in (a_swept acc,
          h\<lparr>hp_slots := sl, hp_free := a_free acc, hp_remembered := a_remembered acc,
            hp_live := a_live acc, hp_poison := a_poison acc, hp_extra_pool := a_pool acc,
            hp_free_top := length (a_free acc), hp_young_floor := length sl\<rparr>))"

subsection \<open>The minor sweep\<close>

fun settle_rescanned ::
  "('a \<Rightarrow> bool) \<Rightarrow> u32 list \<Rightarrow> 'a slot list \<Rightarrow> u32 list \<Rightarrow> panic + ('a slot list \<times> u32 list)" where
  "settle_rescanned sticky [] sl rem = Inr (sl, rem)"
| "settle_rescanned sticky (i # is) sl rem =
     (case get_opt sl (unat i) of
        None \<Rightarrow> Inl IndexOutOfBounds
      | Some s \<Rightarrow>
          (case s_value s of
             Some v \<Rightarrow>
               if sticky v
               then settle_rescanned sticky is (sl[unat i := s\<lparr>s_dirty := STICKY\<rparr>]) (rem @ [i])
               else settle_rescanned sticky is (sl[unat i := s\<lparr>s_dirty := CLEAN\<rparr>]) rem
           | None \<Rightarrow> settle_rescanned sticky is (sl[unat i := s\<lparr>s_dirty := CLEAN\<rparr>]) rem))"

definition settle_young ::
  "('a, 'p) trace_ops \<Rightarrow> ('a \<Rightarrow> bool) \<Rightarrow> 'a slot \<Rightarrow> u32 \<Rightarrow> 'p sweep_acc \<Rightarrow>
     bool \<times> 'a slot \<times> 'p sweep_acc" where
  "settle_young ops sticky s i acc = (case s_value s of
       None \<Rightarrow> (False, s, acc)
     | Some v \<Rightarrow>
         if OLD_AGE \<le> s_age s then
           if s_dirty s = CLEAN \<and> sticky v
           then (False, s\<lparr>s_dirty := STICKY\<rparr>, acc\<lparr>a_remembered := a_remembered acc @ [i]\<rparr>)
           else (False, s, acc)
         else
           (let acc1 = acc\<lparr>a_swept := a_swept acc + 1\<rparr> in
            case a_poison acc of
              Some p \<Rightarrow>
                (False, s\<lparr>s_age := OLD_AGE\<rparr>,
                 acc1\<lparr>a_poison := Some (p\<lparr>p_freed := insert \<lparr>h_index = i,
                   h_generation = s_generation s\<rparr> (p_freed p)\<rparr>)\<rparr>)
            | None \<Rightarrow>
                (let next_gen = s_generation s + 1;
                     (s', pool') = vacate_release ops s next_gen (a_pool acc)
                 in (next_gen < COMPACT_GEN_BASE, s',
                     acc1\<lparr>a_live := a_live acc - 1, a_pool := pool'\<rparr>))))"

text \<open>The verification-mode loops: the consumed free-list entries, each kept one written back
  at \<open>kept\<close>, then the slots pushed since the last collection.\<close>

function settle_consumed ::
  "('a, 'p) trace_ops \<Rightarrow> ('a \<Rightarrow> bool) \<Rightarrow> nat \<Rightarrow> nat \<Rightarrow> u32 list \<Rightarrow> 'a slot list \<Rightarrow> 'p sweep_acc \<Rightarrow>
     panic + (nat \<times> u32 list \<times> 'a slot list \<times> 'p sweep_acc)" where
  "settle_consumed ops sticky r kept fr sl acc =
     (if length fr \<le> r then Inr (kept, fr, sl, acc)
      else
        (case get_opt sl (unat (fr ! r)) of
           None \<Rightarrow> Inl IndexOutOfBounds
         | Some s \<Rightarrow>
             (case settle_young ops sticky s (fr ! r) acc of
                (back, s', acc') \<Rightarrow>
                  settle_consumed ops sticky (r + 1) (if back then kept + 1 else kept)
                    (if back then fr[kept := fr ! r] else fr) (sl[unat (fr ! r) := s']) acc')))"
  by pat_completeness auto
termination
  by (relation "measure (\<lambda>(ops, sticky, r, kept, fr, sl, acc). length fr - r)") auto

function settle_pushed ::
  "('a, 'p) trace_ops \<Rightarrow> ('a \<Rightarrow> bool) \<Rightarrow> nat \<Rightarrow> u32 list \<Rightarrow> 'a slot list \<Rightarrow> 'p sweep_acc \<Rightarrow>
     u32 list \<times> 'a slot list \<times> 'p sweep_acc" where
  "settle_pushed ops sticky i fr sl acc =
     (if length sl \<le> i then (fr, sl, acc)
      else
        (case settle_young ops sticky (sl ! i) (of_nat i) acc of
           (back, s', acc') \<Rightarrow>
             settle_pushed ops sticky (i + 1) (if back then fr @ [of_nat i] else fr)
               (sl[i := s']) acc'))"
  by pat_completeness auto
termination
  by (relation "measure (\<lambda>(ops, sticky, i, fr, sl, acc). length sl - i)") auto

subsection \<open>The minor sweep's fast path\<close>

datatype fate = Kept | Freed | Retired

definition settle_young_fast ::
  "('a, 'p) trace_ops \<Rightarrow> ('a \<Rightarrow> bool) \<Rightarrow> 'a slot \<Rightarrow> u32 \<Rightarrow> u32 list \<Rightarrow> 'p \<Rightarrow>
     fate \<times> 'a slot \<times> u32 list \<times> 'p" where
  "settle_young_fast ops sticky s i rem pool = (case s_value s of
       None \<Rightarrow> (Kept, s, rem, pool)
     | Some v \<Rightarrow>
         if OLD_AGE \<le> s_age s then
           if s_dirty s = CLEAN \<and> sticky v
           then (Kept, s\<lparr>s_dirty := STICKY\<rparr>, rem @ [i], pool)
           else (Kept, s, rem, pool)
         else
           (let next_gen = s_generation s + 1;
                (s', pool') = vacate_release ops s next_gen pool
            in (if next_gen < COMPACT_GEN_BASE then Freed else Retired, s', rem, pool')))"

text \<open>\<open>free.copy_within(a..b, dest)\<close>.\<close>

definition copy_within :: "'b list \<Rightarrow> nat \<Rightarrow> nat \<Rightarrow> nat \<Rightarrow> 'b list" where
  "copy_within xs a b dest = take dest xs @ take (b - a) (drop a xs) @ drop (dest + (b - a)) xs"

text \<open>A run of entries that are freed again, up to the first that is not (or the end): where
  the run ends and the fate that ended it.\<close>

function freed_run ::
  "('a, 'p) trace_ops \<Rightarrow> ('a \<Rightarrow> bool) \<Rightarrow> nat \<Rightarrow> u32 list \<Rightarrow> nat \<Rightarrow> fate \<Rightarrow> 'a slot list \<Rightarrow> u32 list \<Rightarrow>
     'p \<Rightarrow> panic + (nat \<times> fate \<times> 'a slot list \<times> u32 list \<times> 'p)" where
  "freed_run ops sticky n fr r last_fate sl rem pool =
     (if n \<le> r then Inr (r, last_fate, sl, rem, pool)
      else
        (case get_opt fr r of
           None \<Rightarrow> Inl IndexOutOfBounds
         | Some i \<Rightarrow>
             (case get_opt sl (unat i) of
                None \<Rightarrow> Inl IndexOutOfBounds
              | Some s \<Rightarrow>
                  (case settle_young_fast ops sticky s i rem pool of
                     (fate', s', rem', pool') \<Rightarrow>
                       if fate' \<noteq> Freed then Inr (r, fate', sl[unat i := s'], rem', pool')
                       else freed_run ops sticky n fr (r + 1) fate' (sl[unat i := s']) rem' pool'))))"
  by pat_completeness auto
termination
  by (relation "measure (\<lambda>(ops, sticky, n, fr, r, f, sl, rem, pool). n - r)") auto

declare settle_consumed.simps [simp del] settle_pushed.simps [simp del] freed_run.simps [simp del]

lemma freed_run_le:
  "freed_run ops sticky n fr r f sl rem pool = Inr (r', x) \<Longrightarrow> r \<le> r'"
proof (induction ops sticky n fr r f sl rem pool rule: freed_run.induct)
  case (1 ops sticky n fr r last_fate sl rem pool)
  show ?case
    using 1(2) 1(1) [of "fr ! r"]
    by (simp add: freed_run.simps [of ops sticky n fr r] split: if_splits option.splits prod.splits)
       (metis Suc_leD get_opt_eq_Some)
qed

text \<open>The outer loop: runs move down over the \<open>gap\<close> entries that left the list before them.
  The cursor never passes \<open>n\<close>, so the source's test \<open>r == n\<close> is the bound below.\<close>

function settle_runs ::
  "('a, 'p) trace_ops \<Rightarrow> ('a \<Rightarrow> bool) \<Rightarrow> nat \<Rightarrow> nat \<Rightarrow> nat \<Rightarrow> nat \<Rightarrow> u32 list \<Rightarrow> 'a slot list \<Rightarrow>
     u32 list \<Rightarrow> 'p \<Rightarrow> panic + (nat \<times> nat \<times> u32 list \<times> 'a slot list \<times> u32 list \<times> 'p)" where
  "settle_runs ops sticky n r gap retired fr sl rem pool =
     (case freed_run ops sticky n fr r Freed sl rem pool of
        Inl e \<Rightarrow> Inl e
      | Inr (r', fate', sl', rem', pool') \<Rightarrow>
          let fr' = (if 0 < gap \<and> r < r' then copy_within fr r r' (r - gap) else fr) in
          if n \<le> r' then Inr (gap, retired, fr', sl', rem', pool')
          else settle_runs ops sticky n (r' + 1) (gap + 1)
                 (if fate' = Retired then retired + 1 else retired) fr' sl' rem' pool')"
  by pat_completeness auto
termination
  by (relation "measure (\<lambda>(ops, sticky, n, r, gap, retired, fr, sl, rem, pool). n - r)")
     (auto dest: freed_run_le)

function settle_pushed_fast ::
  "('a, 'p) trace_ops \<Rightarrow> ('a \<Rightarrow> bool) \<Rightarrow> nat \<Rightarrow> nat \<Rightarrow> u32 list \<Rightarrow> 'a slot list \<Rightarrow> u32 list \<Rightarrow> 'p \<Rightarrow>
     nat \<times> u32 list \<times> 'a slot list \<times> u32 list \<times> 'p" where
  "settle_pushed_fast ops sticky i retired fr sl rem pool =
     (if length sl \<le> i then (retired, fr, sl, rem, pool)
      else
        (case settle_young_fast ops sticky (sl ! i) (of_nat i) rem pool of
           (fate', s', rem', pool') \<Rightarrow>
             settle_pushed_fast ops sticky (i + 1)
               (case fate' of Retired \<Rightarrow> retired + 1 | _ \<Rightarrow> retired)
               (case fate' of Freed \<Rightarrow> fr @ [of_nat i] | _ \<Rightarrow> fr)
               (sl[i := s']) rem' pool'))"
  by pat_completeness auto
termination
  by (relation "measure (\<lambda>(ops, sticky, i, retired, fr, sl, rem, pool). length sl - i)") auto

declare settle_runs.simps [simp del] settle_pushed_fast.simps [simp del]

definition sweep_young_fast ::
  "('a, 'p) trace_ops \<Rightarrow> ('a \<Rightarrow> bool) \<Rightarrow> 'a slot list \<Rightarrow> u32 list \<Rightarrow> nat \<Rightarrow> nat \<Rightarrow> u32 list \<Rightarrow> 'p \<Rightarrow>
     panic + (nat \<times> 'a slot list \<times> u32 list \<times> u32 list \<times> 'p)" where
  "sweep_young_fast ops sticky sl fr free_top floor rem pool =
     (let n = length fr in
      case settle_runs ops sticky n free_top 0 0 fr sl rem pool of
        Inl e \<Rightarrow> Inl e
      | Inr (gap, retired, fr1, sl1, rem1, pool1) \<Rightarrow>
          (case settle_pushed_fast ops sticky floor retired (take (n - gap) fr1) sl1 rem1 pool1 of
             (retired', fr2, sl2, rem2, pool2) \<Rightarrow>
               Inr (length fr2 - free_top + retired', sl2, fr2, rem2, pool2)))"

text \<open>The verification-mode body of \<open>sweep_young\<close>.\<close>

definition sweep_young_loops ::
  "('a, 'p) trace_ops \<Rightarrow> ('a \<Rightarrow> bool) \<Rightarrow> nat \<Rightarrow> nat \<Rightarrow> u32 list \<Rightarrow> 'a slot list \<Rightarrow> 'p sweep_acc \<Rightarrow>
     panic + (u32 list \<times> 'a slot list \<times> 'p sweep_acc)" where
  "sweep_young_loops ops sticky free_top floor fr sl acc =
     (case settle_consumed ops sticky free_top free_top fr sl acc of
        Inl e \<Rightarrow> Inl e
      | Inr (kept, fr1, sl1, acc1) \<Rightarrow>
          Inr (settle_pushed ops sticky floor (take kept fr1) sl1 acc1))"

definition sweep_young ::
  "('a, 'p) trace_ops \<Rightarrow> ('a, 'p) heap \<Rightarrow> u32 list \<Rightarrow> ('a \<Rightarrow> bool) \<Rightarrow> panic + (nat \<times> ('a, 'p) heap)" where
  "sweep_young ops h0 rescanned sticky =
     (let h = fold_allocs h0 in
      case settle_rescanned sticky rescanned (hp_slots h) (hp_remembered h) of
        Inl e \<Rightarrow> Inl e
      | Inr (sl, rem) \<Rightarrow>
          if hp_poison h = None then
            (case sweep_young_fast ops sticky sl (hp_free h) (hp_free_top h) (hp_young_floor h) rem
                    (hp_extra_pool h) of
               Inl e \<Rightarrow> Inl e
             | Inr (swept, sl', fr', rem', pool') \<Rightarrow>
                 Inr (swept, h\<lparr>hp_slots := sl', hp_free := fr', hp_remembered := rem',
                   hp_extra_pool := pool', hp_live := hp_live h - swept,
                   hp_free_top := length fr', hp_young_floor := length sl'\<rparr>))
          else
            (case sweep_young_loops ops sticky (hp_free_top h) (hp_young_floor h) (hp_free h) sl
                    \<lparr>a_free = [], a_remembered = rem, a_live = hp_live h, a_poison = hp_poison h,
                     a_pool = hp_extra_pool h, a_swept = 0\<rparr> of
               Inl e \<Rightarrow> Inl e
             | Inr (fr', sl', acc) \<Rightarrow>
                 Inr (a_swept acc, h\<lparr>hp_slots := sl', hp_free := fr',
                   hp_remembered := a_remembered acc, hp_extra_pool := a_pool acc,
                   hp_poison := a_poison acc, hp_live := a_live acc,
                   hp_free_top := length fr', hp_young_floor := length sl'\<rparr>)))"

subsection \<open>The verifier's check of the generational invariants\<close>

fun mark_tracked :: "u32 list \<Rightarrow> bool list \<Rightarrow> panic + bool list" where
  "mark_tracked [] tracked = Inr tracked"
| "mark_tracked (i # is) tracked =
     (if unat i < length tracked then mark_tracked is (tracked[unat i := True])
      else Inl IndexOutOfBounds)"

definition slot_violation ::
  "('a, 'p) heap \<Rightarrow> bool list \<Rightarrow> ('a \<Rightarrow> handle list) \<Rightarrow> ('a \<Rightarrow> nat \<Rightarrow> handle list) \<Rightarrow> ('a \<Rightarrow> bool) \<Rightarrow>
     nat \<Rightarrow> 'a slot \<Rightarrow> (handle \<times> handle) option" where
  "slot_violation h tracked edges head_edges sticky i s = (case s_value s of
       None \<Rightarrow> None
     | Some v \<Rightarrow>
         let hn = \<lparr>h_index = of_nat i, h_generation = s_generation s\<rparr> in
         if s_age s < OLD_AGE then (if tracked ! i then None else Some (hn, hn))
         else if s_dirty s = APPENDED then
           map_option (Pair hn) (find (is_young h) (head_edges v (scan_from s)))
         else if s_dirty s \<noteq> CLEAN \<or>
             (case hp_poison h of None \<Rightarrow> False | Some p \<Rightarrow> hn \<in> p_freed p) then None
         else if sticky v then Some (hn, hn)
         else map_option (Pair hn) (find (is_young h) (edges v)))"

fun first_violation :: "(nat \<Rightarrow> 'a slot \<Rightarrow> 'v option) \<Rightarrow> nat \<Rightarrow> 'a slot list \<Rightarrow> 'v option" where
  "first_violation f i [] = None"
| "first_violation f i (s # sl) =
     (case f i s of Some r \<Rightarrow> Some r | None \<Rightarrow> first_violation f (i + 1) sl)"

definition remembered_violation ::
  "('a, 'p) heap \<Rightarrow> ('a \<Rightarrow> handle list) \<Rightarrow> ('a \<Rightarrow> nat \<Rightarrow> handle list) \<Rightarrow> ('a \<Rightarrow> bool) \<Rightarrow>
     panic + (handle \<times> handle) option" where
  "remembered_violation h edges head_edges sticky =
     (case mark_tracked (drop (hp_free_top h) (hp_free h))
             (replicate (length (hp_slots h)) False) of
        Inl e \<Rightarrow> Inl e
      | Inr tracked0 \<Rightarrow>
          let tracked = take (hp_young_floor h) tracked0 @
                replicate (length tracked0 - hp_young_floor h) True
          in Inr (first_violation (slot_violation h tracked edges head_edges sticky) 0 (hp_slots h)))"

subsection \<open>Compaction\<close>

fun compact_slots ::
  "(handle \<Rightarrow> bool) \<Rightarrow> u16 \<Rightarrow> nat \<Rightarrow> 'a slot list \<Rightarrow> 'a slot list \<Rightarrow> (handle \<times> handle) list \<Rightarrow>
     'a slot list \<times> (handle \<times> handle) list" where
  "compact_slots keep new_gen i [] new_slots fwd = (new_slots, fwd)"
| "compact_slots keep new_gen i (s # sl) new_slots fwd =
     (case s_value s of
        None \<Rightarrow> compact_slots keep new_gen (i + 1) sl new_slots fwd
      | Some v \<Rightarrow>
          let old = \<lparr>h_index = of_nat i, h_generation = s_generation s\<rparr> in
          if keep old then
            let new = \<lparr>h_index = of_nat (length new_slots), h_generation = new_gen\<rparr> in
            compact_slots keep new_gen (i + 1) sl (new_slots @ [slot_live new_gen (s_age s) v])
              (fwd @ [(old, new)])
          else compact_slots keep new_gen (i + 1) sl new_slots fwd)"

fun remember_old :: "nat \<Rightarrow> 'a slot list \<Rightarrow> u32 list \<Rightarrow> 'a slot list \<times> u32 list" where
  "remember_old i [] rem = ([], rem)"
| "remember_old i (s # sl) rem =
     (if OLD_AGE \<le> s_age s
      then (case remember_old (i + 1) sl (rem @ [of_nat i]) of (sl', rem') \<Rightarrow> (s\<lparr>s_dirty := DIRTY\<rparr> # sl', rem'))
      else (case remember_old (i + 1) sl rem of (sl', rem') \<Rightarrow> (s # sl', rem')))"

definition compact_to ::
  "('a, 'p) heap \<Rightarrow> (handle \<Rightarrow> bool) \<Rightarrow> (handle \<times> handle) list \<times> ('a, 'p) heap" where
  "compact_to h keep =
     (let new_gen = hp_compact_gen h;
          (new_slots, fwd) = compact_slots keep new_gen 0 (hp_slots h) [] [];
          (sl, rem) = remember_old 0 new_slots []
      in (fwd, h\<lparr>hp_compact_gen := max (new_gen + 1) COMPACT_GEN_BASE, hp_slots := sl,
                 hp_free := [], hp_remembered := rem, hp_live := length new_slots,
                 hp_counted := hp_allocs_since_gc h, hp_free_top := 0, hp_young_floor := 0\<rparr>))"

end
