(* ===== verification/SweepLaws.thy ===== *)
theory SweepLaws
  imports Sweep
begin

text \<open>
  What the sweeps do: each slot's new state in closed form, the values the table still resolves
  afterwards, and that the table's invariant holds again.
\<close>

subsection \<open>The full sweep\<close>

definition slot_handle :: "nat \<Rightarrow> 'a slot \<Rightarrow> handle" where
  "slot_handle i s = \<lparr>h_index = of_nat i, h_generation = s_generation s\<rparr>"

lemma slot_handle_simps [simp]:
  "h_index (slot_handle i s) = of_nat i" "h_generation (slot_handle i s) = s_generation s"
  by (simp_all add: slot_handle_def)

lemma handle_collapse [simp]: "\<lparr>h_index = h_index k, h_generation = h_generation k\<rparr> = k"
  by simp

definition doomed :: "(handle \<Rightarrow> 'a \<Rightarrow> bool) \<Rightarrow> nat \<Rightarrow> 'a slot \<Rightarrow> bool" where
  "doomed keep i s = (case s_value s of None \<Rightarrow> False | Some v \<Rightarrow> \<not> keep (slot_handle i s) v)"

definition sticks :: "(handle \<Rightarrow> 'a \<Rightarrow> bool) \<Rightarrow> ('a \<Rightarrow> bool) \<Rightarrow> nat \<Rightarrow> 'a slot \<Rightarrow> bool" where
  "sticks keep sticky i s =
     (case s_value s of None \<Rightarrow> False | Some v \<Rightarrow> keep (slot_handle i s) v \<and> sticky v)"

definition vacated :: "'a slot \<Rightarrow> 'a slot" where
  "vacated s = s\<lparr>s_occupied := 0, s_dirty := CLEAN, s_generation := s_generation s + 1, s_value := None\<rparr>"

definition swept_slot :: "bool \<Rightarrow> (handle \<Rightarrow> 'a \<Rightarrow> bool) \<Rightarrow> ('a \<Rightarrow> bool) \<Rightarrow> nat \<Rightarrow> 'a slot \<Rightarrow> 'a slot" where
  "swept_slot verify keep sticky i s =
     (if \<not> slot_is_live s then s
      else if doomed keep i s then
        (if verify then s\<lparr>s_age := max (s_age s) OLD_AGE, s_dirty := CLEAN\<rparr> else vacated s)
      else s\<lparr>s_age := saturating_inc (s_age s), s_dirty := (if sticks keep sticky i s then STICKY else CLEAN)\<rparr>)"

definition indices_where :: "(nat \<Rightarrow> 'a slot \<Rightarrow> bool) \<Rightarrow> nat \<Rightarrow> 'a slot list \<Rightarrow> u32 list" where
  "indices_where P i sl = map (\<lambda>(j, s). of_nat j) (filter (\<lambda>(j, s). P j s) (enumerate i sl))"

lemma indices_where_Cons [simp]:
  "indices_where P i [] = []"
  "indices_where P i (s # sl) = (if P i s then of_nat i # indices_where P (Suc i) sl else indices_where P (Suc i) sl)"
  by (simp_all add: indices_where_def)

lemma indices_where_set:
  "i + length sl \<le> 2 ^ 32 \<Longrightarrow>
    k \<in> set (indices_where P i sl) \<longleftrightarrow> i \<le> unat k \<and> unat k < i + length sl \<and> P (unat k) (sl ! (unat k - i))"
proof (induction sl arbitrary: i)
  case (Cons s sl)
  have u: "unat (of_nat i :: u32) = i" using Cons.prems by simp
  have e: "k = of_nat i \<longleftrightarrow> unat k = i" using u by auto
  show ?case
    using Cons.IH [of "Suc i"] Cons.prems by (cases "unat k = i") (auto simp: e nth_Cons')
qed simp

lemma indices_where_distinct: "i + length sl \<le> 2 ^ 32 \<Longrightarrow> distinct (indices_where P i sl)"
proof (induction sl arbitrary: i)
  case (Cons s sl)
  have "unat (of_nat i :: u32) = i" using Cons.prems by simp
  then show ?case using Cons.IH [of "Suc i"] Cons.prems by (simp add: indices_where_set)
qed simp

lemma length_indices_where: "length (indices_where P i sl) = length (filter (\<lambda>(j, s). P j s) (enumerate i sl))"
  by (simp add: indices_where_def)

lemma sweep_slots_parts:
  fixes acc :: "'p sweep_acc"
  assumes "sweep_slots ops keep sticky i sl acc = (sl', acc')"
  shows "sl' = map (\<lambda>(j, s). swept_slot (a_poison acc \<noteq> None) keep sticky j s) (enumerate i sl) \<and>
    a_remembered acc' = a_remembered acc @ indices_where (sticks keep sticky) i sl \<and>
    a_swept acc' = a_swept acc + length (indices_where (doomed keep) i sl) \<and>
    a_free acc' = a_free acc @ (if a_poison acc = None
      then indices_where (\<lambda>j s. doomed keep j s \<and> s_generation s + 1 < COMPACT_GEN_BASE) i sl else []) \<and>
    a_live acc' = a_live acc - (if a_poison acc = None then length (indices_where (doomed keep) i sl) else 0) \<and>
    (a_poison acc' = None \<longleftrightarrow> a_poison acc = None)"
  using assms
proof (induction sl arbitrary: i acc sl' acc')
  case (Cons s sl)
  obtain s1 acc1 sl2 where r: "sweep_slot ops keep sticky i s acc = (s1, acc1)"
    "sweep_slots ops keep sticky (Suc i) sl acc1 = (sl2, acc')" "sl' = s1 # sl2"
    using Cons.prems by (auto split: prod.splits)
  have step: "s1 = swept_slot (a_poison acc \<noteq> None) keep sticky i s"
    "a_remembered acc1 = a_remembered acc @ (if sticks keep sticky i s then [of_nat i] else [])"
    "a_swept acc1 = a_swept acc + (if doomed keep i s then 1 else 0)"
    "a_free acc1 = a_free acc @ (if a_poison acc = None \<and> doomed keep i s \<and>
       s_generation s + 1 < COMPACT_GEN_BASE then [of_nat i] else [])"
    "a_live acc1 = a_live acc - (if a_poison acc = None \<and> doomed keep i s then 1 else 0)"
    "a_poison acc1 = None \<longleftrightarrow> a_poison acc = None"
    using r(1) by (auto simp: sweep_slot_def swept_slot_def doomed_def sticks_def slot_handle_def
        slot_is_live_def vacated_def vacate_release_def Let_def split: option.splits if_splits)
  show ?case
    using Cons.IH [OF r(2)] by (simp add: r(3) step)
qed simp

text \<open>The table after a collection that left no young object.\<close>

lemma heap_inv_settled:
  assumes "length (hp_slots h) < 2 ^ 32" "\<forall>s \<in> set (hp_slots h). slot_inv s \<and> \<not> slot_young s"
    "distinct (hp_free h)" "\<And>i. i \<in> set (hp_free h) \<longleftrightarrow> unat i < length (hp_slots h) \<and> reusable (hp_slots h ! unat i)"
    "remembered_ok (hp_slots h) (hp_remembered h)" "hp_counted h = hp_allocs_since_gc h"
    "hp_live h = live_count (hp_slots h)" "hp_free_top h = length (hp_free h)"
    "hp_young_floor h = length (hp_slots h)" "COMPACT_GEN_BASE \<le> hp_compact_gen h"
  shows "heap_inv h"
  using assms by (auto simp: heap_inv_def free_ok_def young_ok_def len_def)

lemma saturating_inc_old: "OLD_AGE \<le> saturating_inc a"
proof -
  have "a = 255" if "a + 1 = 0"
    using that by (simp add: eq_neg_iff_add_eq_0 [symmetric])
  then have "a = 255 \<or> unat (a + 1) \<noteq> 0"
    by (auto simp: unat_eq_zero)
  then show ?thesis by (auto simp: saturating_inc_def OLD_AGE_def word_le_nat_alt)
qed

lemma swept_slot_inv:
  assumes "slot_inv s"
  shows "slot_inv (swept_slot verify keep sticky i s)" "\<not> slot_young (swept_slot verify keep sticky i s)"
  using assms saturating_inc_old [of "s_age s"]
  by (auto simp: swept_slot_def slot_inv_def slot_young_def slot_is_live_def vacated_def dirty_defs)

lemma swept_slot_live:
  "slot_is_live (swept_slot verify keep sticky i s) \<longleftrightarrow> slot_is_live s \<and> (verify \<or> \<not> doomed keep i s)"
  by (simp add: swept_slot_def vacated_def slot_is_live_def)

lemma doomed_live: "doomed keep i s \<Longrightarrow> slot_is_live s"
  by (simp add: doomed_def slot_is_live_def split: option.splits)

lemma swept_slot_reusable:
  "reusable (swept_slot verify keep sticky i s) \<longleftrightarrow>
     reusable s \<or> (\<not> verify \<and> doomed keep i s \<and> s_generation s + 1 < COMPACT_GEN_BASE)"
  using doomed_live [of keep i s]
  by (auto simp: swept_slot_def vacated_def slot_is_live_def reusable_def)

lemma swept_slot_dirty:
  "slot_inv s \<Longrightarrow> s_dirty (swept_slot verify keep sticky i s) \<noteq> CLEAN \<longleftrightarrow> sticks keep sticky i s"
  by (auto simp: swept_slot_def vacated_def slot_is_live_def slot_inv_def sticks_def doomed_def dirty_defs
      split: option.splits)

lemma doomed_count: "length (indices_where (doomed keep) i sl) \<le> live_count sl"
proof (induction sl arbitrary: i)
  case (Cons s sl)
  show ?case using Cons.IH [of "Suc i"] doomed_live [of keep i s] by (auto simp: live_count_def)
qed simp

lemma live_count_swept:
  "live_count (map (\<lambda>(j, s). swept_slot verify keep sticky j s) (enumerate i sl)) =
     live_count sl - (if verify then 0 else length (indices_where (doomed keep) i sl))"
proof (induction sl arbitrary: i)
  case (Cons s sl)
  show ?case
    using Cons.IH [of "Suc i"] doomed_live [of keep i s] doomed_count [of keep "Suc i" sl]
    by (auto simp: live_count_def swept_slot_live)
qed (simp add: live_count_def)

lemma live_handles_where:
  "length (filter P (live_handles h)) =
    length (indices_where (\<lambda>i s. slot_is_live s \<and> P (slot_handle i s)) 0 (hp_slots h))"
  by (simp add: live_handles_def indices_where_def filter_map o_def slot_handle_def case_prod_unfold
      conj_commute)

lemma indices_where_cong:
  assumes "\<And>j. i \<le> j \<Longrightarrow> j < i + length sl \<Longrightarrow> P j (sl ! (j - i)) = Q j (sl ! (j - i))"
  shows "indices_where P i sl = indices_where Q i sl"
  unfolding indices_where_def
  using assms by (intro arg_cong [of _ _ "map _"] filter_cong refl) (auto simp: in_set_enumerate_eq add.commute)

lemma free_ok_set:
  "free_ok sl fr ft \<Longrightarrow> i \<in> set (take ft fr) \<longleftrightarrow> unat i < length sl \<and> reusable (sl ! unat i)"
  unfolding free_ok_def by (metis in_set_takeD of_nat_unat_u32)

lemma peek_slot_handle:
  "i < length (hp_slots h) \<Longrightarrow> length (hp_slots h) < 2 ^ 32 \<Longrightarrow>
     peek h (slot_handle i (hp_slots h ! i)) = s_value (hp_slots h ! i)"
  by (simp add: peek_def slot_get_def)

lemma sweep_parts:
  assumes inv: "heap_inv h" and sw: "sweep ops h keep sticky = (n, h')"
  shows "length (hp_slots h') = length (hp_slots h)"
    and "i < length (hp_slots h) \<Longrightarrow>
      hp_slots h' ! i = swept_slot (hp_poison h \<noteq> None) keep sticky i (hp_slots h ! i)"
    and "heap_inv h'"
    and "n = length (indices_where (doomed keep) 0 (hp_slots h))"
    and "hp_poison h = None \<Longrightarrow> hp_poison h' = None \<and> len h' = len h - n"
proof -
  let ?sl = "hp_slots h"
  obtain sl acc where r: "sweep_slots ops keep sticky 0 ?sl
      \<lparr>a_free = take (hp_free_top h) (hp_free h), a_remembered = [], a_live = len h,
       a_poison = hp_poison h, a_pool = hp_extra_pool h, a_swept = 0\<rparr> = (sl, acc)"
    by fastforce
  have h': "n = a_swept acc"  "h' = (fold_allocs h)\<lparr>hp_slots := sl, hp_free := a_free acc,
      hp_remembered := a_remembered acc, hp_live := a_live acc, hp_poison := a_poison acc,
      hp_extra_pool := a_pool acc, hp_free_top := length (a_free acc), hp_young_floor := length sl\<rparr>"
    using sw r by (auto simp: sweep_def Let_def)
  note parts = sweep_slots_parts [OF r, simplified]
  let ?ver = "hp_poison h \<noteq> None"
  have len: "length sl = length ?sl" using parts by simp
  have nth: "sl ! i = swept_slot ?ver keep sticky i (?sl ! i)" if "i < length ?sl" for i
    using parts that by (simp add: nth_enumerate_eq)
  have fit: "0 + length ?sl \<le> 2 ^ 32" using heap_invD(1) [OF inv] by simp
  note iw = indices_where_set [OF fit, simplified] indices_where_distinct [OF fit]
  have cnt: "live_count sl = len h - (if hp_poison h = None then length (indices_where (doomed keep) 0 ?sl) else 0)"
    using parts live_count_swept [of ?ver keep sticky 0 ?sl] heap_invD(7) [OF inv] by simp
  have sinv: "slot_inv (?sl ! i)" if "i < length ?sl" for i
    using heap_invD(2) [OF inv] that by simp
  have fset: "i \<in> set (take (hp_free_top h) (hp_free h)) \<longleftrightarrow> unat i < length ?sl \<and> reusable (?sl ! unat i)" for i
    using free_ok_set [OF heap_invD(3) [OF inv]] by blast
  let ?dead = "\<lambda>j s. doomed keep j s \<and> s_generation s + 1 < COMPACT_GEN_BASE"
  have fr: "a_free acc = take (hp_free_top h) (hp_free h) @
      (if hp_poison h = None then indices_where ?dead 0 ?sl else [])"
    and rm: "a_remembered acc = indices_where (sticks keep sticky) 0 ?sl"
    and lv: "a_live acc = live_count sl"
    using parts cnt by simp_all
  show "heap_inv h'"
  proof (rule heap_inv_settled)
    show "\<forall>s \<in> set (hp_slots h'). slot_inv s \<and> \<not> slot_young s"
      using len nth sinv by (auto simp: h' in_set_conv_nth swept_slot_inv)
    show "i \<in> set (hp_free h') \<longleftrightarrow> unat i < length (hp_slots h') \<and> reusable (hp_slots h' ! unat i)" for i
      using iw(1) [of i ?dead] fset [of i] len nth [of "unat i"] by (auto simp: h' fr swept_slot_reusable)
    show "distinct (hp_free h')"
      using heap_invD(3) [OF inv] iw(1) [of _ ?dead] iw(2) fset
      by (auto simp: h' fr free_ok_def reusable_def dest!: doomed_live)
    show "remembered_ok (hp_slots h') (hp_remembered h')"
      using iw len nth sinv by (simp add: h' rm remembered_ok_def swept_slot_dirty cong: conj_cong)
  qed (use heap_invD(1,8) [OF inv] len lv in \<open>simp_all add: h'\<close>)
  show "length (hp_slots h') = length ?sl" "i < length ?sl \<Longrightarrow> hp_slots h' ! i = swept_slot ?ver keep sticky i (?sl ! i)"
    "n = length (indices_where (doomed keep) 0 ?sl)"
    "hp_poison h = None \<Longrightarrow> hp_poison h' = None \<and> len h' = len h - n"
    using len nth parts by (auto simp: h' len_def)
qed

lemma sweep_effect:
  assumes inv: "heap_inv h" and sw: "sweep ops h keep sticky = (n, h')"
  shows "heap_inv h'"
    and "peek h' k = (case peek h k of None \<Rightarrow> None
           | Some v \<Rightarrow> if keep k v \<or> hp_poison h \<noteq> None then Some v else None)"
    and "n = length (filter (\<lambda>k. \<not> keep k (the (peek h k))) (live_handles h))"
    and "hp_poison h = None \<Longrightarrow> len h' = len h - n"
    and "\<not> is_young h' k"
proof -
  let ?sl = "hp_slots h"
  note parts = sweep_parts [OF inv sw]
  have fit: "length ?sl < 2 ^ 32" using heap_invD(1) [OF inv] .
  show "heap_inv h'" "hp_poison h = None \<Longrightarrow> len h' = len h - n"
    using parts by simp_all
  show "\<not> is_young h' k"
  proof (cases "unat (h_index k) < length ?sl")
    case True
    then have "slot_inv (?sl ! unat (h_index k))" using heap_invD(2) [OF inv] by simp
    then have "\<not> slot_young (hp_slots h' ! unat (h_index k))"
      using True swept_slot_inv(2) parts(2) by metis
    then show ?thesis
      using True parts(1) by (auto simp: is_young_def slot_young_def)
  next
    case False
    then show ?thesis using parts(1) by (simp add: is_young_def)
  qed
  show "peek h' k = (case peek h k of None \<Rightarrow> None
      | Some v \<Rightarrow> if keep k v \<or> hp_poison h \<noteq> None then Some v else None)"
  proof (cases "unat (h_index k) < length ?sl")
    case True
    show ?thesis
      using True parts(1) parts(2) [of "unat (h_index k)"]
      by (auto simp: peek_def slot_get_def swept_slot_def doomed_def slot_handle_def vacated_def slot_is_live_def
          split: option.splits)
  next
    case False
    then show ?thesis using parts(1) by (simp add: peek_def)
  qed
  have "indices_where (doomed keep) 0 ?sl =
      indices_where (\<lambda>i s. slot_is_live s \<and> \<not> keep (slot_handle i s) (the (peek h (slot_handle i s)))) 0 ?sl"
    using fit by (intro indices_where_cong)
      (auto simp: doomed_def slot_is_live_def peek_slot_handle split: option.splits)
  then show "n = length (filter (\<lambda>k. \<not> keep k (the (peek h k))) (live_handles h))"
    using parts(4) by (simp add: live_handles_where)
qed

end
