(* ===== verification/MinorSweep.thy ===== *)
theory MinorSweep
  imports SweepLaws
begin

text \<open>
  The minor sweep. Both of its forms (the verification-mode loops and the fast path that moves
  runs of freed entries down as blocks) compute the same visit of the nursery, one entry after
  another; from that visit follow each slot's new state and the table's invariant.
\<close>

subsection \<open>The visit of the nursery\<close>

fun settle_list ::
  "('a, 'p) trace_ops \<Rightarrow> ('a \<Rightarrow> bool) \<Rightarrow> u32 list \<Rightarrow> 'a slot list \<Rightarrow> u32 list \<Rightarrow> 'p \<Rightarrow>
     u32 list \<times> nat \<times> 'a slot list \<times> u32 list \<times> 'p" where
  "settle_list ops sticky [] sl rem pool = ([], 0, sl, rem, pool)"
| "settle_list ops sticky (i # is) sl rem pool =
     (case settle_young_fast ops sticky (sl ! unat i) i rem pool of
        (f, s', rem', pool') \<Rightarrow>
          (case settle_list ops sticky is (sl[unat i := s']) rem' pool' of
             (bk, ret, rest) \<Rightarrow>
               (if f = Freed then i # bk else bk, if f = Retired then ret + 1 else ret, rest)))"

definition acc_settled :: "'p sweep_acc \<Rightarrow> nat \<Rightarrow> u32 list \<Rightarrow> 'p \<Rightarrow> 'p sweep_acc" where
  "acc_settled acc n rem pool = acc\<lparr>a_remembered := rem, a_pool := pool, a_live := a_live acc - n,
     a_swept := a_swept acc + n\<rparr>"

lemma settle_young_eq_fast:
  assumes "a_poison acc = None"
  shows "settle_young ops sticky s i acc =
    (case settle_young_fast ops sticky s i (a_remembered acc) (a_pool acc) of
       (f, s', rem', pool') \<Rightarrow> (f = Freed, s', acc_settled acc (if f = Kept then 0 else 1) rem' pool'))"
  using assms by (auto simp: settle_young_def settle_young_fast_def acc_settled_def Let_def
      split: option.splits prod.splits)

lemma acc_settled_simps [simp]:
  "a_poison (acc_settled acc n rem pool) = a_poison acc"
  "a_remembered (acc_settled acc n rem pool) = rem" "a_pool (acc_settled acc n rem pool) = pool"
  "acc_settled (acc_settled acc n rem pool) m rem' pool' = acc_settled acc (n + m) rem' pool'"
  "acc_settled acc 0 (a_remembered acc) (a_pool acc) = acc"
  by (simp_all add: acc_settled_def)

lemma settle_consumed_eq:
  assumes "settle_list ops sticky (drop r fr) sl (a_remembered acc) (a_pool acc) =
      (bk, ret, sl', rem', pool')"
    and "a_poison acc = None" "kept \<le> r" "r \<le> length fr" "\<forall>i \<in> set (drop r fr). unat i < length sl"
  shows "\<exists>fr'. settle_consumed ops sticky r kept fr sl acc =
      Inr (kept + length bk, fr', sl', acc_settled acc (length bk + ret) rem' pool') \<and>
    take (kept + length bk) fr' = take kept fr @ bk"
  using assms
proof (induction "length fr - r" arbitrary: r kept fr sl acc bk ret)
  case 0
  then show ?case by (auto simp: settle_consumed.simps)
next
  case (Suc n)
  then have r: "r < length fr" by simp
  have dr: "drop r fr = fr ! r # drop (Suc r) fr" using r by (simp add: Cons_nth_drop_Suc)
  have i: "unat (fr ! r) < length sl" using Suc.prems(5) by (simp add: dr)
  obtain f s1 rem1 pool1 where y: "settle_young_fast ops sticky (sl ! unat (fr ! r)) (fr ! r)
      (a_remembered acc) (a_pool acc) = (f, s1, rem1, pool1)" by (metis prod_cases4)
  obtain bk1 ret1 where l: "settle_list ops sticky (drop (Suc r) fr) (sl[unat (fr ! r) := s1]) rem1 pool1 =
      (bk1, ret1, sl', rem', pool')"
    and br: "bk = (if f = Freed then fr ! r # bk1 else bk1)" "ret = (if f = Retired then ret1 + 1 else ret1)"
    using Suc.prems(1) by (auto simp: dr y split: prod.splits)
  let ?fr = "if f = Freed then fr[kept := fr ! r] else fr" and ?kept = "if f = Freed then kept + 1 else kept"
  let ?acc = "acc_settled acc (if f = Kept then 0 else 1) rem1 pool1"
  have d: "drop (Suc r) ?fr = drop (Suc r) fr" using Suc.prems(3) by (simp add: drop_update_cancel)
  have "\<exists>fr'. settle_consumed ops sticky (Suc r) ?kept ?fr (sl[unat (fr ! r) := s1]) ?acc =
      Inr (?kept + length bk1, fr', sl', acc_settled ?acc (length bk1 + ret1) rem' pool') \<and>
    take (?kept + length bk1) fr' = take ?kept ?fr @ bk1"
    by (rule Suc.hyps(1)) (use Suc.prems Suc.hyps(2) d l r dr in auto)
  then obtain fr' where sc: "settle_consumed ops sticky (Suc r) ?kept ?fr (sl[unat (fr ! r) := s1]) ?acc =
      Inr (?kept + length bk1, fr', sl', acc_settled ?acc (length bk1 + ret1) rem' pool')"
    and tk: "take (?kept + length bk1) fr' = take ?kept ?fr @ bk1" by blast
  have "settle_consumed ops sticky r kept fr sl acc =
      settle_consumed ops sticky (Suc r) ?kept ?fr (sl[unat (fr ! r) := s1]) ?acc"
    using r i Suc.prems(2) y
    by (subst settle_consumed.simps) (simp add: settle_young_eq_fast)
  moreover have "take (kept + 1) (fr[kept := x]) = take kept fr @ [x]" for x
    using Suc.prems(3) r by (simp add: take_Suc_conv_app_nth)
  ultimately show ?case
    using sc tk by (cases f) (auto simp: br)
qed

lemma settle_pushed_eq:
  assumes "settle_list ops sticky (map of_nat [i..<length sl]) sl (a_remembered acc) (a_pool acc) =
      (bk, ret, sl', rem', pool')"
    and "a_poison acc = None" "length sl \<le> 2 ^ 32"
  shows "settle_pushed ops sticky i fr sl acc =
      (fr @ bk, sl', acc_settled acc (length bk + ret) rem' pool')"
  using assms
proof (induction "length sl - i" arbitrary: i fr sl acc bk ret)
  case 0
  then show ?case by (auto simp: settle_pushed.simps)
next
  case (Suc n)
  then have i: "i < length sl" by simp
  have u: "unat (of_nat i :: u32) = i" using i Suc.prems(3) by simp
  have dr: "[i..<length sl] = i # [Suc i..<length sl]" using i by (simp add: upt_conv_Cons)
  obtain f s1 rem1 pool1 where y: "settle_young_fast ops sticky (sl ! i) (of_nat i)
      (a_remembered acc) (a_pool acc) = (f, s1, rem1, pool1)" by (metis prod_cases4)
  obtain bk1 ret1 where l: "settle_list ops sticky (map of_nat [Suc i..<length sl]) (sl[i := s1]) rem1 pool1 =
      (bk1, ret1, sl', rem', pool')"
    and br: "bk = (if f = Freed then of_nat i # bk1 else bk1)" "ret = (if f = Retired then ret1 + 1 else ret1)"
    using Suc.prems(1) by (auto simp: dr y u split: prod.splits)
  let ?acc = "acc_settled acc (if f = Kept then 0 else 1) rem1 pool1"
  have "settle_pushed ops sticky (Suc i) fr' (sl[i := s1]) ?acc =
      (fr' @ bk1, sl', acc_settled ?acc (length bk1 + ret1) rem' pool')" for fr'
    by (rule Suc.hyps(1)) (use Suc.prems Suc.hyps(2) l in auto)
  then show ?case
    using i Suc.prems(2) y by (subst settle_pushed.simps) (cases f; simp add: settle_young_eq_fast br)
qed

lemma settle_pushed_fast_eq:
  assumes "settle_list ops sticky (map of_nat [i..<length sl]) sl rem pool = (bk, ret, sl', rem', pool')"
    and "length sl \<le> 2 ^ 32"
  shows "settle_pushed_fast ops sticky i retired fr sl rem pool =
      (retired + ret, fr @ bk, sl', rem', pool')"
  using assms
proof (induction "length sl - i" arbitrary: i fr sl rem pool bk ret retired)
  case 0
  then show ?case by (simp add: settle_pushed_fast.simps)
next
  case (Suc n)
  then have i: "i < length sl" by simp
  have u: "unat (of_nat i :: u32) = i" using i Suc.prems(2) by simp
  have dr: "[i..<length sl] = i # [Suc i..<length sl]" using i by (simp add: upt_conv_Cons)
  obtain f s1 rem1 pool1 where y: "settle_young_fast ops sticky (sl ! i) (of_nat i) rem pool =
      (f, s1, rem1, pool1)" by (metis prod_cases4)
  obtain bk1 ret1 where l: "settle_list ops sticky (map of_nat [Suc i..<length sl]) (sl[i := s1]) rem1 pool1 =
      (bk1, ret1, sl', rem', pool')"
    and br: "bk = (if f = Freed then of_nat i # bk1 else bk1)" "ret = (if f = Retired then ret1 + 1 else ret1)"
    using Suc.prems(1) by (auto simp: dr y u split: prod.splits)
  have "settle_pushed_fast ops sticky (Suc i) retired' fr' (sl[i := s1]) rem1 pool1 =
      (retired' + ret1, fr' @ bk1, sl', rem', pool')" for fr' retired'
    by (rule Suc.hyps(1)) (use Suc.prems Suc.hyps(2) l in auto)
  then show ?case
    using i y by (subst settle_pushed_fast.simps) (cases f; simp add: br)
qed

lemma freed_run_spec:
  assumes "r \<le> length fr" "\<forall>i \<in> set (drop r fr). unat i < length sl"
  obtains r' f sl1 rem1 pool1 where
    "freed_run ops sticky (length fr) fr r Freed sl rem pool = Inr (r', f, sl1, rem1, pool1)"
    "r \<le> r'" "r' \<le> length fr" "length sl1 = length sl"
    "settle_list ops sticky (drop r fr) sl rem pool =
       (if r' = length fr then (drop r fr, 0, sl1, rem1, pool1)
        else case settle_list ops sticky (drop (Suc r') fr) sl1 rem1 pool1 of
          (bk, ret, rest) \<Rightarrow> (take (r' - r) (drop r fr) @ bk, if f = Retired then ret + 1 else ret, rest))"
  using assms
proof (induction "length fr - r" arbitrary: r sl rem pool thesis)
  case 0
  then show ?case using 0(2) [of r Freed] by (simp add: freed_run.simps)
next
  case (Suc n)
  then have r: "r < length fr" by simp
  have dr: "drop r fr = fr ! r # drop (Suc r) fr" using r by (simp add: Cons_nth_drop_Suc)
  have i: "unat (fr ! r) < length sl" using Suc.prems(3) by (simp add: dr)
  obtain f s1 rem1 pool1 where y: "settle_young_fast ops sticky (sl ! unat (fr ! r)) (fr ! r) rem pool =
      (f, s1, rem1, pool1)" by (metis prod_cases4)
  let ?sl = "sl[unat (fr ! r) := s1]"
  show ?case
  proof (cases "f = Freed")
    case False
    then have "freed_run ops sticky (length fr) fr r Freed sl rem pool = Inr (r, f, ?sl, rem1, pool1)"
      using r i y by (simp add: freed_run.simps)
    then show ?thesis
      by (rule Suc.prems(1)) (use r i y False in \<open>simp_all add: dr split: prod.splits\<close>)
  next
    case True
    have run: "freed_run ops sticky (length fr) fr r Freed sl rem pool =
        freed_run ops sticky (length fr) fr (Suc r) Freed ?sl rem1 pool1"
      using r i y True by (subst freed_run.simps) simp
    show ?thesis
    proof (rule Suc.hyps(1) [of "Suc r" ?sl rem1 pool1])
      fix r' f' sl2 rem2 pool2
      assume a: "freed_run ops sticky (length fr) fr (Suc r) Freed ?sl rem1 pool1 = Inr (r', f', sl2, rem2, pool2)"
        "Suc r \<le> r'" "r' \<le> length fr" "length sl2 = length ?sl"
        "settle_list ops sticky (drop (Suc r) fr) ?sl rem1 pool1 =
          (if r' = length fr then (drop (Suc r) fr, 0, sl2, rem2, pool2)
           else case settle_list ops sticky (drop (Suc r') fr) sl2 rem2 pool2 of
             (bk, ret, rest) \<Rightarrow> (take (r' - Suc r) (drop (Suc r) fr) @ bk, if f' = Retired then ret + 1 else ret, rest))"
      have t: "take (r' - r) (drop r fr) = fr ! r # take (r' - Suc r) (drop (Suc r) fr)"
        using a(2) by (simp add: dr take_Cons' Suc_diff_le)
      show ?thesis
        by (rule Suc.prems(1) [OF a(1) [folded run]])
           (use a y True t in \<open>simp_all add: dr split: prod.splits\<close>)
    qed (use Suc.hyps(2) Suc.prems r dr in auto)
  qed
qed

lemma length_copy_within: "d \<le> a \<Longrightarrow> a \<le> b \<Longrightarrow> b \<le> length xs \<Longrightarrow> length (copy_within xs a b d) = length xs"
  by (simp add: copy_within_def)

lemma drop_copy_within: "d \<le> a \<Longrightarrow> a \<le> b \<Longrightarrow> b \<le> length xs \<Longrightarrow> drop b (copy_within xs a b d) = drop b xs"
  by (simp add: copy_within_def)

lemma take_copy_within:
  "d \<le> a \<Longrightarrow> a \<le> b \<Longrightarrow> b \<le> length xs \<Longrightarrow> take (d + (b - a)) (copy_within xs a b d) = take d xs @ take (b - a) (drop a xs)"
  by (simp add: copy_within_def)

lemma settle_runs_eq:
  assumes "settle_list ops sticky (drop r fr) sl rem pool = (bk, ret, sl', rem', pool')"
    and "gap \<le> r" "r \<le> length fr" "\<forall>i \<in> set (drop r fr). unat i < length sl"
  shows "\<exists>gap' fr'. settle_runs ops sticky (length fr) r gap retired fr sl rem pool =
      Inr (gap', retired + ret, fr', sl', rem', pool') \<and>
    take (length fr - gap') fr' = take (r - gap) fr @ bk"
  using assms
proof (induction "length fr - r" arbitrary: r gap retired fr sl rem pool bk ret rule: less_induct)
  case less
  obtain r1 f sl1 rem1 pool1 where run:
    "freed_run ops sticky (length fr) fr r Freed sl rem pool = Inr (r1, f, sl1, rem1, pool1)"
    "r \<le> r1" "r1 \<le> length fr" "length sl1 = length sl"
    "settle_list ops sticky (drop r fr) sl rem pool =
       (if r1 = length fr then (drop r fr, 0, sl1, rem1, pool1)
        else case settle_list ops sticky (drop (Suc r1) fr) sl1 rem1 pool1 of
          (bk, ret, rest) \<Rightarrow> (take (r1 - r) (drop r fr) @ bk, if f = Retired then ret + 1 else ret, rest))"
    by (rule freed_run_spec [OF less.prems(3,4)])
  let ?fr = "if 0 < gap \<and> r < r1 then copy_within fr r r1 (r - gap) else fr"
  have len: "length ?fr = length fr" and d1: "drop r1 ?fr = drop r1 fr"
    using run(2,3) less.prems(2) by (simp_all add: length_copy_within drop_copy_within)
  have dr: "drop (Suc r1) ?fr = drop (Suc r1) fr"
    using arg_cong [OF d1, of "drop 1"] by simp
  have tk: "take (r1 - gap) ?fr = take (r - gap) fr @ take (r1 - r) (drop r fr)"
    using run(2,3) less.prems(2) take_copy_within [of "r - gap" r r1 fr]
    by (auto simp: take_add [symmetric])
  show ?case
  proof (cases "r1 = length fr")
    case True
    then show ?thesis
      using run tk less.prems(1) by (auto simp: settle_runs.simps Let_def)
  next
    case False
    obtain bk1 ret1 where l: "settle_list ops sticky (drop (Suc r1) fr) sl1 rem1 pool1 = (bk1, ret1, sl', rem', pool')"
      "bk = take (r1 - r) (drop r fr) @ bk1" "ret = (if f = Retired then ret1 + 1 else ret1)"
      using run(5) less.prems(1) False by (auto split: prod.splits)
    have "\<exists>gap' fr'. settle_runs ops sticky (length ?fr) (Suc r1) (Suc gap)
        (if f = Retired then retired + 1 else retired) ?fr sl1 rem1 pool1 =
        Inr (gap', (if f = Retired then retired + 1 else retired) + ret1, fr', sl', rem', pool') \<and>
      take (length ?fr - gap') fr' = take (Suc r1 - Suc gap) ?fr @ bk1"
    proof (rule less.hyps)
      show "settle_list ops sticky (drop (Suc r1) ?fr) sl1 rem1 pool1 = (bk1, ret1, sl', rem', pool')"
        using l(1) dr by simp
      show "\<forall>i\<in>set (drop (Suc r1) ?fr). unat i < length sl1"
        unfolding dr run(4) using less.prems(4) run(2) set_drop_subset_set_drop [of r "Suc r1" fr] by fastforce
    qed (use run(2,3) False less.prems(2) len in auto)
    then show ?thesis
      using run(1,2,3) False len tk l(2,3) by (subst settle_runs.simps) (auto simp: Let_def)
  qed
qed

lemma settle_list_append:
  "settle_list ops sticky (is @ js) sl rem pool =
     (case settle_list ops sticky is sl rem pool of (b1, n1, sl1, rem1, pool1) \<Rightarrow>
        (case settle_list ops sticky js sl1 rem1 pool1 of (b2, n2, rest) \<Rightarrow> (b1 @ b2, n1 + n2, rest)))"
  by (induction "is" arbitrary: sl rem pool) (auto split: prod.splits)

lemma length_settle_list:
  "settle_list ops sticky is sl rem pool = (bk, ret, sl', rem', pool') \<Longrightarrow> length sl' = length sl"
  by (induction "is" arbitrary: sl rem pool bk ret) (force split: prod.splits)+

definition nursery :: "u32 list \<Rightarrow> nat \<Rightarrow> nat \<Rightarrow> 'a slot list \<Rightarrow> u32 list" where
  "nursery fr ft floor sl = drop ft fr @ map of_nat [floor..<length sl]"

lemma nursery_parts:
  assumes "settle_list ops sticky (nursery fr ft floor sl) sl rem pool = (bk, ret, sl', rem', pool')"
  obtains b1 n1 sl1 rem1 pool1 b2 n2 where
    "settle_list ops sticky (drop ft fr) sl rem pool = (b1, n1, sl1, rem1, pool1)"
    "settle_list ops sticky (map of_nat [floor..<length sl1]) sl1 rem1 pool1 = (b2, n2, sl', rem', pool')"
    "bk = b1 @ b2" "ret = n1 + n2" "length sl1 = length sl"
proof -
  obtain b1 n1 sl1 rem1 pool1 where 1: "settle_list ops sticky (drop ft fr) sl rem pool = (b1, n1, sl1, rem1, pool1)"
    by (metis prod_cases5)
  moreover obtain b2 n2 where 2: "settle_list ops sticky (map of_nat [floor..<length sl]) sl1 rem1 pool1 = (b2, n2, sl', rem', pool')"
    "bk = b1 @ b2" "ret = n1 + n2"
    using assms 1 by (auto simp: nursery_def settle_list_append split: prod.splits)
  ultimately show ?thesis using that length_settle_list by (metis (no_types))
qed

lemma sweep_young_fast_eq:
  assumes l: "settle_list ops sticky (nursery fr ft floor sl) sl rem pool = (bk, ret, sl', rem', pool')"
    and ft: "ft \<le> length fr" and b: "\<forall>i \<in> set fr. unat i < length sl" and len: "length sl \<le> 2 ^ 32"
  shows "sweep_young_fast ops sticky sl fr ft floor rem pool =
      Inr (length bk + ret, sl', take ft fr @ bk, rem', pool')"
proof -
  obtain b1 n1 sl1 rem1 pool1 b2 n2 where p:
    "settle_list ops sticky (drop ft fr) sl rem pool = (b1, n1, sl1, rem1, pool1)"
    "settle_list ops sticky (map of_nat [floor..<length sl1]) sl1 rem1 pool1 = (b2, n2, sl', rem', pool')"
    "bk = b1 @ b2" "ret = n1 + n2" "length sl1 = length sl"
    by (rule nursery_parts [OF l])
  obtain gap fr1 where "settle_runs ops sticky (length fr) ft 0 0 fr sl rem pool =
      Inr (gap, n1, fr1, sl1, rem1, pool1)" "take (length fr - gap) fr1 = take ft fr @ b1"
    using settle_runs_eq [OF p(1), of 0 0] ft b by (auto dest: in_set_dropD)
  then show ?thesis
    using settle_pushed_fast_eq [OF p(2)] p(3,4,5) len ft by (simp add: sweep_young_fast_def Let_def)
qed

lemma sweep_young_loops_eq:
  assumes l: "settle_list ops sticky (nursery fr ft floor sl) sl (a_remembered acc) (a_pool acc) =
      (bk, ret, sl', rem', pool')"
    and ft: "ft \<le> length fr" and b: "\<forall>i \<in> set fr. unat i < length sl" and len: "length sl \<le> 2 ^ 32"
    and np: "a_poison acc = None"
  shows "sweep_young_loops ops sticky ft floor fr sl acc =
      Inr (take ft fr @ bk, sl', acc_settled acc (length bk + ret) rem' pool')"
proof -
  obtain b1 n1 sl1 rem1 pool1 b2 n2 where p:
    "settle_list ops sticky (drop ft fr) sl (a_remembered acc) (a_pool acc) = (b1, n1, sl1, rem1, pool1)"
    "settle_list ops sticky (map of_nat [floor..<length sl1]) sl1 rem1 pool1 = (b2, n2, sl', rem', pool')"
    "bk = b1 @ b2" "ret = n1 + n2" "length sl1 = length sl"
    by (rule nursery_parts [OF l])
  obtain fr1 where "settle_consumed ops sticky ft ft fr sl acc =
      Inr (ft + length b1, fr1, sl1, acc_settled acc (length b1 + n1) rem1 pool1)"
    "take (ft + length b1) fr1 = take ft fr @ b1"
    using settle_consumed_eq [OF p(1) np, of ft] ft b by (auto dest: in_set_dropD)
  then show ?thesis
    using settle_pushed_eq [of ops sticky floor sl1 "acc_settled acc (length b1 + n1) rem1 pool1"] p len np
    by (simp add: sweep_young_loops_def add_ac)
qed

text \<open>C5: the vectorised nursery sweep (runs of freed slots copied with \<open>copy_within\<close>, ranges settled in
  bulk) computes the same slots, free list, remembered list, pool and counts as the one-slot-at-a-time loops
  that verification mode runs, and neither indexes out of bounds.\<close>

theorem sweep_young_fast_correct:
  assumes "heap_inv h" "length sl = length (hp_slots h)" "a_poison acc = None"
  shows "\<exists>swept sl' fr' rem' pool'.
    sweep_young_fast ops sticky sl (hp_free h) (hp_free_top h) (hp_young_floor h)
      (a_remembered acc) (a_pool acc) = Inr (swept, sl', fr', rem', pool') \<and>
    sweep_young_loops ops sticky (hp_free_top h) (hp_young_floor h) (hp_free h) sl acc =
      Inr (fr', sl', acc\<lparr>a_remembered := rem', a_pool := pool', a_live := a_live acc - swept,
                        a_swept := a_swept acc + swept\<rparr>)"
proof -
  obtain bk ret sl' rem' pool' where l: "settle_list ops sticky
      (nursery (hp_free h) (hp_free_top h) (hp_young_floor h) sl) sl (a_remembered acc) (a_pool acc) =
      (bk, ret, sl', rem', pool')"
    by (metis prod_cases5)
  have "hp_free_top h \<le> length (hp_free h)" "\<forall>i \<in> set (hp_free h). unat i < length sl" "length sl \<le> 2 ^ 32"
    using heap_invD(1,3) [OF assms(1)] assms(2) by (simp_all add: free_ok_def)
  then show ?thesis
    using sweep_young_fast_eq [OF l] sweep_young_loops_eq [OF l] assms(3) by (simp add: acc_settled_def)
qed

definition settled_slot :: "('a \<Rightarrow> bool) \<Rightarrow> 'a slot \<Rightarrow> 'a slot" where
  "settled_slot sticky s =
     (if slot_young s then vacated s
      else if slot_is_live s \<and> s_dirty s = CLEAN \<and> sticky (the (s_value s)) then s\<lparr>s_dirty := STICKY\<rparr>
      else s)"

lemma settled_slot_idem [simp]: "settled_slot sticky (settled_slot sticky s) = settled_slot sticky s"
  by (auto simp: settled_slot_def slot_young_def vacated_def slot_is_live_def dirty_defs)

lemma settle_young_fast_eq:
  "settle_young_fast ops sticky s i rem pool =
     (if slot_young s then if s_generation s + 1 < COMPACT_GEN_BASE then Freed else Retired else Kept,
      settled_slot sticky s,
      if slot_is_live s \<and> \<not> slot_young s \<and> s_dirty s = CLEAN \<and> sticky (the (s_value s)) then rem @ [i] else rem,
      case s_value s of Some v \<Rightarrow> if s_age s < OLD_AGE then release_in ops v pool else pool | None \<Rightarrow> pool)"
  by (auto simp: settle_young_fast_def settled_slot_def slot_young_def slot_is_live_def vacated_def
      vacate_release_def Let_def split: option.splits)

definition newly_sticky :: "('a \<Rightarrow> bool) \<Rightarrow> 'a slot \<Rightarrow> bool" where
  "newly_sticky sticky s = (slot_is_live s \<and> \<not> slot_young s \<and> s_dirty s = CLEAN \<and> sticky (the (s_value s)))"

lemma settle_list_spec:
  assumes "settle_list ops sticky is sl rem pool = (bk, ret, sl', rem', pool')"
    and "\<forall>i \<in> set is. unat i < length sl" "length sl \<le> 2 ^ 32"
  shows "(\<forall>j < length sl. sl' ! j = (if of_nat j \<in> set is then settled_slot sticky (sl ! j) else sl ! j)) \<and>
    distinct bk \<and> set bk = {i \<in> set is. slot_young (sl ! unat i) \<and> s_generation (sl ! unat i) + 1 < COMPACT_GEN_BASE} \<and>
    (\<exists>new. rem' = rem @ new \<and> distinct new \<and> set new = {i \<in> set is. newly_sticky sticky (sl ! unat i)}) \<and>
    live_count sl' + (length bk + ret) = live_count sl"
  using assms
proof (induction "is" arbitrary: sl rem pool bk ret)
  case Nil
  then show ?case by auto
next
  case (Cons i "is")
  let ?s = "sl ! unat i" and ?sl = "sl[unat i := settled_slot sticky (sl ! unat i)]"
  have i: "unat i < length sl" using Cons.prems(2) by simp
  obtain rem1 pool1 bk1 ret1 where
    y: "settle_young_fast ops sticky ?s i rem pool =
      (if slot_young ?s then if s_generation ?s + 1 < COMPACT_GEN_BASE then Freed else Retired else Kept,
       settled_slot sticky ?s, rem1, pool1)"
    and rem1: "rem1 = (if newly_sticky sticky ?s then rem @ [i] else rem)"
    and l: "settle_list ops sticky is ?sl rem1 pool1 = (bk1, ret1, sl', rem', pool')"
    and bk: "bk = (if slot_young ?s \<and> s_generation ?s + 1 < COMPACT_GEN_BASE then i # bk1 else bk1)"
    and ret: "ret = (if slot_young ?s \<and> \<not> s_generation ?s + 1 < COMPACT_GEN_BASE then ret1 + 1 else ret1)"
    using Cons.prems(1) by (auto simp: settle_young_fast_eq newly_sticky_def split: prod.splits if_splits)
  have IH: "\<And>j. j < length sl \<Longrightarrow> sl' ! j = (if of_nat j \<in> set is then settled_slot sticky (?sl ! j) else ?sl ! j)"
    "distinct bk1" "set bk1 = {k \<in> set is. slot_young (?sl ! unat k) \<and> s_generation (?sl ! unat k) + 1 < COMPACT_GEN_BASE}"
    "live_count sl' + (length bk1 + ret1) = live_count ?sl"
    using Cons.IH [OF l] Cons.prems(2,3) by simp_all
  obtain new where new: "rem' = rem1 @ new" "distinct new" "set new = {k \<in> set is. newly_sticky sticky (?sl ! unat k)}"
    using Cons.IH [OF l] Cons.prems(2,3) by auto
  have ni: "\<not> slot_young (settled_slot sticky ?s)" "\<not> newly_sticky sticky (settled_slot sticky ?s)"
    by (auto simp: settled_slot_def slot_young_def newly_sticky_def vacated_def slot_is_live_def dirty_defs)
  have at: "?sl ! unat k = (if k = i then settled_slot sticky ?s else sl ! unat k)" if "k \<in> set is" for k
    using that Cons.prems(2) by (simp add: nth_update_if)
  have "set bk1 = {k \<in> set is. k \<noteq> i \<and> slot_young (sl ! unat k) \<and> s_generation (sl ! unat k) + 1 < COMPACT_GEN_BASE}"
    unfolding IH(3) using at ni by (auto split: if_splits)
  then have B: "distinct bk \<and> set bk = {k \<in> set (i # is). slot_young (sl ! unat k) \<and> s_generation (sl ! unat k) + 1 < COMPACT_GEN_BASE}"
    using IH(2) by (auto simp: bk)
  have "set new = {k \<in> set is. k \<noteq> i \<and> newly_sticky sticky (sl ! unat k)}"
    unfolding new(3) using at ni by (auto split: if_splits)
  then have C: "\<exists>new. rem' = rem @ new \<and> distinct new \<and> set new = {k \<in> set (i # is). newly_sticky sticky (sl ! unat k)}"
    using new(1,2) by (intro exI [of _ "if newly_sticky sticky ?s then i # new else new"]) (auto simp: rem1)
  have D: "live_count sl' + (length bk + ret) = live_count sl"
    using IH(4) i live_count_update [OF i, of "settled_slot sticky ?s"] live_count_pos [OF i]
    by (auto simp: bk ret settled_slot_def vacated_def slot_young_def slot_is_live_def split: if_splits)
  have A: "sl' ! j = (if of_nat j \<in> set (i # is) then settled_slot sticky (sl ! j) else sl ! j)" if j: "j < length sl" for j
  proof (cases "j = unat i")
    case False
    then have "(of_nat j :: u32) \<noteq> i" using j Cons.prems(3) by (metis less_le_trans unat_of_nat_u32)
    with False show ?thesis using IH(1) [OF j] by simp
  qed (use IH(1) [OF j] i in simp)
  show ?case using A B C D by blast
qed

definition rescanned_slot :: "('a \<Rightarrow> bool) \<Rightarrow> 'a slot \<Rightarrow> 'a slot" where
  "rescanned_slot sticky s =
     s\<lparr>s_dirty := (if slot_is_live s \<and> sticky (the (s_value s)) then STICKY else CLEAN)\<rparr>"

lemma settle_rescanned_eq:
  assumes "distinct is" "\<forall>i \<in> set is. unat i < length sl" "length sl \<le> 2 ^ 32"
  obtains sl' where "settle_rescanned sticky is sl rem =
      Inr (sl', rem @ filter (\<lambda>i. s_dirty (rescanned_slot sticky (sl ! unat i)) \<noteq> CLEAN) is)"
    "length sl' = length sl"
    "\<And>j. j < length sl \<Longrightarrow> sl' ! j = (if of_nat j \<in> set is then rescanned_slot sticky (sl ! j) else sl ! j)"
  using assms
proof (induction "is" arbitrary: sl rem thesis)
  case Nil
  then show ?case by simp
next
  case (Cons i "is")
  let ?s = "sl ! unat i"
  let ?sl = "sl[unat i := rescanned_slot sticky ?s]"
  let ?rem = "if s_dirty (rescanned_slot sticky ?s) \<noteq> CLEAN then rem @ [i] else rem"
  have i: "unat i < length sl" using Cons.prems(3) by simp
  have step: "settle_rescanned sticky (i # is) sl rem = settle_rescanned sticky is ?sl ?rem"
    using i by (auto simp: rescanned_slot_def slot_is_live_def dirty_defs split: option.splits)
  show ?case
  proof (rule Cons.IH [of ?sl ?rem])
    fix sl'
    assume a: "settle_rescanned sticky is ?sl ?rem =
        Inr (sl', ?rem @ filter (\<lambda>i. s_dirty (rescanned_slot sticky (?sl ! unat i)) \<noteq> CLEAN) is)"
      "length sl' = length ?sl"
      "\<And>j. j < length ?sl \<Longrightarrow> sl' ! j = (if of_nat j \<in> set is then rescanned_slot sticky (?sl ! j) else ?sl ! j)"
    have "?sl ! unat k = sl ! unat k" if "k \<in> set is" for k
      using that Cons.prems(2) by (intro nth_list_update_neq) auto
    then have f: "filter (\<lambda>i. s_dirty (rescanned_slot sticky (?sl ! unat i)) \<noteq> CLEAN) is =
        filter (\<lambda>i. s_dirty (rescanned_slot sticky (sl ! unat i)) \<noteq> CLEAN) is"
      by (intro filter_cong refl) simp
    have "sl' ! j = (if of_nat j \<in> set (i # is) then rescanned_slot sticky (sl ! j) else sl ! j)"
      if j: "j < length sl" for j
    proof (cases "j = unat i")
      case False
      then have "(of_nat j :: u32) \<noteq> i" using j Cons.prems(4) by (metis less_le_trans unat_of_nat_u32)
      with False show ?thesis using a(3) [of j] j by simp
    qed (use a(3) [of j] j Cons.prems(2) in simp)
    then show thesis
      using a(1,2) f by (intro Cons.prems(1) [of sl']) (auto simp: step simp del: settle_rescanned.simps)
  qed (use Cons.prems in auto)
qed

definition minor_slot :: "('a \<Rightarrow> bool) \<Rightarrow> bool \<Rightarrow> 'a slot \<Rightarrow> 'a slot" where
  "minor_slot sticky visited s =
     (if slot_young s then vacated s
      else s\<lparr>s_dirty := (if slot_is_live s \<and> sticky (the (s_value s)) \<and> (visited \<or> s_dirty s \<noteq> CLEAN)
                        then STICKY else CLEAN)\<rparr>)"

lemma minor_slot_facts:
  assumes "slot_inv s"
  shows "slot_inv (minor_slot sticky b s)" "\<not> slot_young (minor_slot sticky b s)"
    "slot_is_live (minor_slot sticky b s) \<longleftrightarrow> slot_is_live s \<and> \<not> slot_young s"
    "reusable (minor_slot sticky b s) \<longleftrightarrow> reusable s \<or> (slot_young s \<and> s_generation s + 1 < COMPACT_GEN_BASE)"
  using assms
  by (auto simp: minor_slot_def slot_inv_def slot_young_def vacated_def slot_is_live_def reusable_def dirty_defs)

lemma minor_slot_dirty:
  assumes "slot_inv s" "slot_young s \<Longrightarrow> b"
  shows "s_dirty (minor_slot sticky b s) \<noteq> CLEAN \<longleftrightarrow>
    (s_dirty s \<noteq> CLEAN \<and> s_dirty (rescanned_slot sticky s) \<noteq> CLEAN) \<or> (b \<and> newly_sticky sticky s)"
  using assms
  by (auto simp: minor_slot_def slot_inv_def slot_young_def vacated_def rescanned_slot_def newly_sticky_def dirty_defs)

lemma minor_slot_settled:
  assumes "slot_inv s" "slot_young s \<Longrightarrow> b"
  shows "(if b then settled_slot sticky (if s_dirty s \<noteq> CLEAN then rescanned_slot sticky s else s)
          else (if s_dirty s \<noteq> CLEAN then rescanned_slot sticky s else s)) = minor_slot sticky b s"
  using assms
  by (auto simp: minor_slot_def slot_inv_def slot_young_def rescanned_slot_def settled_slot_def dirty_defs
      slot_is_live_def)

lemma young_split:
  "length (filter (\<lambda>s. slot_is_live s \<and> \<not> slot_young s) xs) + length (filter slot_young xs) = live_count xs"
  by (induction xs) (auto simp: slot_young_def live_count_def)

lemma live_count_minor:
  assumes "length sl' = length sl"
    and "\<And>j. j < length sl \<Longrightarrow> slot_is_live (sl' ! j) \<longleftrightarrow> slot_is_live (sl ! j) \<and> \<not> slot_young (sl ! j)"
  shows "live_count sl' + length (filter slot_young sl) = live_count sl"
proof -
  have "live_count sl' = length (filter (\<lambda>s. slot_is_live s \<and> \<not> slot_young s) sl)"
    unfolding live_count_def length_filter_conv_card using assms by (intro arg_cong [of _ _ card]) auto
  then show ?thesis by (simp add: young_split)
qed

lemma sweep_young_parts:
  assumes inv: "heap_inv (h\<lparr>hp_remembered := rescanned\<rparr>)" and emp: "hp_remembered h = []"
    and np: "hp_poison h = None"
  obtains n h' where "sweep_young ops h rescanned sticky = Inr (n, h')" "heap_inv h'" "hp_poison h' = None"
    "length (hp_slots h') = length (hp_slots h)"
    "\<And>j. j < length (hp_slots h) \<Longrightarrow> hp_slots h' ! j = minor_slot sticky
       (of_nat j \<in> set (nursery (hp_free h) (hp_free_top h) (hp_young_floor h) (hp_slots h))) (hp_slots h ! j)"
    "len h' = len h - n" "n = length (filter slot_young (hp_slots h))"
    "hp_allocs_since_gc h' = hp_allocs_since_gc h"
proof -
  let ?sl = "hp_slots h" and ?N = "nursery (hp_free h) (hp_free_top h) (hp_young_floor h) (hp_slots h)"
  have fit: "length ?sl < 2 ^ 32" using heap_invD(1) [OF inv] by simp
  have rem: "remembered_ok ?sl rescanned" and fr: "free_ok ?sl (hp_free h) (hp_free_top h)"
    and yo: "young_ok ?sl (hp_free h) (hp_free_top h) (hp_young_floor h)"
    and sinv: "\<And>j. j < length ?sl \<Longrightarrow> slot_inv (?sl ! j)"
    and lens: "hp_counted h \<le> hp_allocs_since_gc h" "len h = live_count ?sl" "COMPACT_GEN_BASE \<le> hp_compact_gen h"
    using inv by (auto simp: heap_inv_def len_def)
  obtain sl1 where r1: "settle_rescanned sticky rescanned ?sl [] =
      Inr (sl1, filter (\<lambda>i. s_dirty (rescanned_slot sticky (?sl ! unat i)) \<noteq> CLEAN) rescanned)"
    "length sl1 = length ?sl"
    "\<And>j. j < length ?sl \<Longrightarrow> sl1 ! j = (if of_nat j \<in> set rescanned then rescanned_slot sticky (?sl ! j) else ?sl ! j)"
    using settle_rescanned_eq [of rescanned ?sl sticky "[]"] rem fit by (auto simp: remembered_ok_def)
  let ?rem = "filter (\<lambda>i. s_dirty (rescanned_slot sticky (?sl ! unat i)) \<noteq> CLEAN) rescanned"
  have dirty: "of_nat j \<in> set rescanned \<longleftrightarrow> s_dirty (?sl ! j) \<noteq> CLEAN" if "j < length ?sl" for j
    using rem that fit by (auto simp: remembered_ok_def)
  have s1: "sl1 ! j = (if s_dirty (?sl ! j) \<noteq> CLEAN then rescanned_slot sticky (?sl ! j) else ?sl ! j)"
    if "j < length ?sl" for j using r1(3) [OF that] dirty [OF that] by simp
  obtain bk ret sl2 rem2 pool2 where l: "settle_list ops sticky
      (nursery (hp_free h) (hp_free_top h) (hp_young_floor h) sl1) sl1 ?rem (hp_extra_pool h) =
      (bk, ret, sl2, rem2, pool2)"
    by (metis prod_cases5)
  have bound: "\<forall>i \<in> set ?N. unat i < length sl1" "\<forall>i \<in> set (hp_free h). unat i < length sl1"
    "hp_free_top h \<le> length (hp_free h)"
    using fr fit r1(2) by (auto simp: nursery_def free_ok_def dest: in_set_dropD)
  have vis: "of_nat j \<in> set ?N" if "j < length ?sl" "slot_young (?sl ! j)" for j
    using yo that by (auto simp: young_ok_def nursery_def)
  have l': "settle_list ops sticky ?N sl1 ?rem (hp_extra_pool h) = (bk, ret, sl2, rem2, pool2)"
    using l by (simp add: nursery_def r1(2))
  have sp: "\<And>j. j < length ?sl \<Longrightarrow> sl2 ! j = (if of_nat j \<in> set ?N then settled_slot sticky (sl1 ! j) else sl1 ! j)"
    "distinct bk" "set bk = {i \<in> set ?N. slot_young (sl1 ! unat i) \<and> s_generation (sl1 ! unat i) + 1 < COMPACT_GEN_BASE}"
    "live_count sl2 + (length bk + ret) = live_count sl1"
    using settle_list_spec [OF l'] bound(1) r1(2) fit by simp_all
  obtain new where new: "rem2 = ?rem @ new" "distinct new" "set new = {i \<in> set ?N. newly_sticky sticky (sl1 ! unat i)}"
    using settle_list_spec [OF l'] bound(1) r1(2) fit by auto
  have same: "slot_young (sl1 ! j) = slot_young (?sl ! j)" "s_generation (sl1 ! j) = s_generation (?sl ! j)"
    "slot_is_live (sl1 ! j) = slot_is_live (?sl ! j)" if "j < length ?sl" for j
    using s1 [OF that] by (auto simp: rescanned_slot_def slot_young_def slot_is_live_def)
  have sl2: "sl2 ! j = minor_slot sticky (of_nat j \<in> set ?N) (?sl ! j)" if j: "j < length ?sl" for j
    unfolding sp(1) [OF j] s1 [OF j] by (rule minor_slot_settled [OF sinv [OF j] vis [OF j]])
  have len2: "length sl2 = length ?sl" using length_settle_list [OF l] r1(2) by simp
  define h' where "h' = (fold_allocs h)\<lparr>hp_slots := sl2, hp_free := take (hp_free_top h) (hp_free h) @ bk,
      hp_remembered := rem2, hp_extra_pool := pool2, hp_live := len h - (length bk + ret),
      hp_free_top := length (take (hp_free_top h) (hp_free h) @ bk), hp_young_floor := length sl2\<rparr>"
  have run: "sweep_young ops h rescanned sticky = Inr (length bk + ret, h')"
    using r1(1) sweep_young_fast_eq [OF l bound(3,2)] r1(2) fit np emp
    by (simp add: sweep_young_def Let_def h'_def)
  have free: "i \<in> set (hp_free h') \<longleftrightarrow> unat i < length sl2 \<and> reusable (sl2 ! unat i)" for i
  proof (cases "unat i < length ?sl")
    case True
    have "i \<in> set bk \<longleftrightarrow> slot_young (?sl ! unat i) \<and> s_generation (?sl ! unat i) + 1 < COMPACT_GEN_BASE"
      using sp(3) same [OF True] vis [OF True] by auto
    then show ?thesis
      using True free_ok_set [OF fr, of i] minor_slot_facts(4) [OF sinv [OF True]]
      by (simp add: h'_def len2 sl2)
  next
    case False
    then have "i \<notin> set bk" using sp(3) bound(1) r1(2) by auto
    then show ?thesis using False free_ok_set [OF fr, of i] by (simp add: h'_def len2)
  qed
  have dis: "distinct (hp_free h')"
    using sp(2,3) fr same(1) bound(1) r1(2) free_ok_set [OF fr]
    by (auto simp: h'_def free_ok_def reusable_def slot_young_def)
  have ns: "newly_sticky sticky (sl1 ! j) \<longleftrightarrow> newly_sticky sticky (?sl ! j)" if "j < length ?sl" for j
    unfolding s1 [OF that] by (auto simp: newly_sticky_def rescanned_slot_def slot_is_live_def dirty_defs)
  have mem: "i \<in> set rem2 \<longleftrightarrow> unat i < length sl2 \<and> s_dirty (sl2 ! unat i) \<noteq> CLEAN" for i
  proof (cases "unat i < length ?sl")
    case True
    have "s_dirty (sl2 ! unat i) \<noteq> CLEAN \<longleftrightarrow>
        (s_dirty (?sl ! unat i) \<noteq> CLEAN \<and> s_dirty (rescanned_slot sticky (?sl ! unat i)) \<noteq> CLEAN) \<or>
        (i \<in> set ?N \<and> newly_sticky sticky (?sl ! unat i))"
      using minor_slot_dirty [OF sinv [OF True], of "i \<in> set ?N" sticky] vis [OF True] sl2 [OF True] by simp
    then show ?thesis
      using True new(1,3) ns [OF True] dirty [OF True] len2 by auto
  next
    case False
    then show ?thesis using new(1,3) bound(1) r1(2) rem by (auto simp: len2 remembered_ok_def)
  qed
  have "set ?rem \<inter> set new = {}"
    using new(3) ns rem bound(1) r1(2) by (auto simp: remembered_ok_def newly_sticky_def)
  then have rok: "remembered_ok sl2 rem2"
    using mem new(1,2) rem by (auto simp: remembered_ok_def)
  have cnt: "live_count sl2 + length (filter slot_young ?sl) = live_count ?sl"
    using len2 minor_slot_facts(3) [OF sinv] sl2 by (intro live_count_minor) auto
  have "live_count sl1 = live_count ?sl"
    unfolding live_count_def length_filter_conv_card using r1(2) same(3) by (intro arg_cong [of _ _ card]) auto
  then have n: "length bk + ret = length (filter slot_young ?sl)" using cnt sp(4) by simp
  have "heap_inv h'"
  proof (rule heap_inv_settled)
    show "\<forall>s\<in>set (hp_slots h'). slot_inv s \<and> \<not> slot_young s"
      using minor_slot_facts(1,2) [OF sinv] sl2 len2 by (auto simp: h'_def in_set_conv_nth)
  qed (use free dis rok cnt n fit len2 lens in \<open>simp_all add: h'_def\<close>)
  then show thesis
    using run sl2 len2 np n by (intro that [of "length bk + ret" h']) (auto simp: h'_def len_def)
qed

lemma minor_slot_sticky:
  assumes "slot_is_live s" "sticky (the (s_value s))" "slot_young s \<or> s_dirty s \<noteq> CLEAN \<or> b"
  shows "\<not> slot_is_live (minor_slot sticky b s) \<or> s_dirty (minor_slot sticky b s) = STICKY"
  using assms by (auto simp: minor_slot_def vacated_def slot_is_live_def)

lemma sweep_young_effect:
  assumes inv: "heap_inv (h\<lparr>hp_remembered := rescanned\<rparr>)" and emp: "hp_remembered h = []"
    and np: "hp_poison h = None"
  obtains n h' where "sweep_young ops h rescanned sticky = Inr (n, h')" "heap_inv h'" "hp_poison h' = None"
    "\<And>k. peek h' k = (if is_young h k then None else peek h k)"
    "\<And>k. \<not> is_young h' k" "len h' = len h - n" "n = length (filter slot_young (hp_slots h))"
    "\<And>j. j < length (hp_slots h) \<Longrightarrow> slot_is_live (hp_slots h ! j) \<Longrightarrow> sticky (the (s_value (hp_slots h ! j))) \<Longrightarrow>
       slot_young (hp_slots h ! j) \<or> s_dirty (hp_slots h ! j) \<noteq> CLEAN \<or>
       of_nat j \<in> set (nursery (hp_free h) (hp_free_top h) (hp_young_floor h) (hp_slots h)) \<Longrightarrow>
       \<not> slot_is_live (hp_slots h' ! j) \<or> s_dirty (hp_slots h' ! j) = STICKY"
proof -
  obtain n h' where p: "sweep_young ops h rescanned sticky = Inr (n, h')" "heap_inv h'" "hp_poison h' = None"
    "length (hp_slots h') = length (hp_slots h)"
    "\<And>j. j < length (hp_slots h) \<Longrightarrow> hp_slots h' ! j = minor_slot sticky
       (of_nat j \<in> set (nursery (hp_free h) (hp_free_top h) (hp_young_floor h) (hp_slots h))) (hp_slots h ! j)"
    "len h' = len h - n" "n = length (filter slot_young (hp_slots h))"
    "hp_allocs_since_gc h' = hp_allocs_since_gc h"
    using sweep_young_parts [OF inv emp np, of ops sticky] by blast
  have "peek h' k = (if is_young h k then None else peek h k)" for k
  proof (cases "unat (h_index k) < length (hp_slots h)")
    case True
    then show ?thesis
      using p(4) p(5) [OF True]
      by (auto simp: peek_def slot_get_def is_young_def minor_slot_def slot_young_def vacated_def slot_is_live_def)
  next
    case False
    then show ?thesis using p(4) by (simp add: peek_def)
  qed
  moreover have "\<not> is_young h' k" for k
  proof (cases "unat (h_index k) < length (hp_slots h)")
    case True
    have "slot_inv (hp_slots h ! unat (h_index k))" using True inv by (auto simp: heap_inv_def)
    then have "\<not> slot_young (hp_slots h' ! unat (h_index k))"
      unfolding p(5) [OF True] by (rule minor_slot_facts(2))
    with True p(4) show ?thesis by (auto simp: is_young_def slot_young_def)
  next
    case False
    then show ?thesis using p(4) by (simp add: is_young_def)
  qed
  moreover have "\<not> slot_is_live (hp_slots h' ! j) \<or> s_dirty (hp_slots h' ! j) = STICKY"
    if "j < length (hp_slots h)" "slot_is_live (hp_slots h ! j)" "sticky (the (s_value (hp_slots h ! j)))"
      "slot_young (hp_slots h ! j) \<or> s_dirty (hp_slots h ! j) \<noteq> CLEAN \<or>
       of_nat j \<in> set (nursery (hp_free h) (hp_free_top h) (hp_young_floor h) (hp_slots h))" for j
    unfolding p(5) [OF that(1)] using that(2-4) by (rule minor_slot_sticky)
  ultimately show thesis
    using p(1-3,6,7) by (intro that) auto
qed

end
