(* ===== verification/CompactLaws.thy ===== *)
theory CompactLaws
  imports MinorSweep
begin

text \<open>
  Compaction: the forwarding list is a bijection between the kept objects' old handles and the
  handles of the compacted table, and every object keeps its value and its age.
\<close>

definition survivors :: "(handle \<Rightarrow> bool) \<Rightarrow> nat \<Rightarrow> 'a slot list \<Rightarrow> (nat \<times> 'a slot) list" where
  "survivors keep i sl = filter (\<lambda>(j, s). slot_is_live s \<and> keep (slot_handle j s)) (enumerate i sl)"

definition new_handle :: "u16 \<Rightarrow> nat \<Rightarrow> handle" where
  "new_handle g m = \<lparr>h_index = of_nat m, h_generation = g\<rparr>"

lemma survivors_Cons [simp]:
  "survivors keep i [] = []"
  "survivors keep i (s # sl) = (if slot_is_live s \<and> keep (slot_handle i s)
     then (i, s) # survivors keep (Suc i) sl else survivors keep (Suc i) sl)"
  by (simp_all add: survivors_def)

lemma compact_slots_eq:
  "compact_slots keep g i sl ns fwd =
     (ns @ map (\<lambda>(j, s). slot_live g (s_age s) (the (s_value s))) (survivors keep i sl),
      fwd @ map (\<lambda>(m, j, s). (slot_handle j s, new_handle g m)) (enumerate (length ns) (survivors keep i sl)))"
proof (induction sl arbitrary: i ns fwd)
  case (Cons s sl)
  show ?case
    by (cases "s_value s") (auto simp: Cons.IH slot_is_live_def Let_def slot_handle_def new_handle_def)
qed simp

lemma remember_old_eq:
  "remember_old i sl rem =
     (map (\<lambda>s. if OLD_AGE \<le> s_age s then s\<lparr>s_dirty := DIRTY\<rparr> else s) sl,
      rem @ indices_where (\<lambda>j s. OLD_AGE \<le> s_age s) i sl)"
  by (induction sl arbitrary: i rem) auto

definition moved_slot :: "u16 \<Rightarrow> 'a slot \<Rightarrow> 'a slot" where
  "moved_slot g s = (slot_live g (s_age s) (the (s_value s)))\<lparr>s_dirty := if OLD_AGE \<le> s_age s then DIRTY else CLEAN\<rparr>"

lemma survivors_mem:
  "(j, s) \<in> set (survivors keep 0 sl) \<longleftrightarrow> j < length sl \<and> s = sl ! j \<and> slot_is_live s \<and> keep (slot_handle j s)"
  by (auto simp: survivors_def in_set_enumerate_eq)

lemma distinct_survivors: "distinct (map fst (survivors keep i sl))"
  unfolding survivors_def by (rule distinct_map_filter) simp

lemma indices_where_map:
  "indices_where P i (map f sl) = indices_where (\<lambda>j s. P j (f s)) i sl"
  by (induction sl arbitrary: i) auto

lemma compact_to_eq:
  assumes c: "compact_to h keep = (fwd, h')"
  defines "sv \<equiv> survivors keep 0 (hp_slots h)"
  shows "hp_slots h' = map (\<lambda>(j, s). moved_slot (hp_compact_gen h) s) sv"
    "fwd = map (\<lambda>(m, j, s). (slot_handle j s, new_handle (hp_compact_gen h) m)) (enumerate 0 sv)"
    "h' = h\<lparr>hp_compact_gen := max (hp_compact_gen h + 1) COMPACT_GEN_BASE, hp_slots := hp_slots h',
        hp_free := [], hp_remembered := indices_where (\<lambda>j s. s_dirty s \<noteq> CLEAN) 0 (hp_slots h'),
        hp_live := length (hp_slots h'), hp_counted := hp_allocs_since_gc h, hp_free_top := 0, hp_young_floor := 0\<rparr>"
proof -
  let ?new = "map (\<lambda>(j, s). slot_live (hp_compact_gen h) (s_age s) (the (s_value s))) sv"
  have sl: "hp_slots h' = map (\<lambda>s. if OLD_AGE \<le> s_age s then s\<lparr>s_dirty := DIRTY\<rparr> else s) ?new"
    and rm: "hp_remembered h' = indices_where (\<lambda>j s. OLD_AGE \<le> s_age s) 0 ?new"
    and fw: "fwd = map (\<lambda>(m, j, s). (slot_handle j s, new_handle (hp_compact_gen h) m)) (enumerate 0 sv)"
    using c by (auto simp: compact_to_def compact_slots_eq remember_old_eq Let_def sv_def)
  show "hp_slots h' = map (\<lambda>(j, s). moved_slot (hp_compact_gen h) s) sv"
    unfolding sl by (auto simp: moved_slot_def slot_live_def)
  have r: "hp_remembered h' = indices_where (\<lambda>j s. s_dirty s \<noteq> CLEAN) 0 (hp_slots h')"
    unfolding rm sl indices_where_map
    by (intro indices_where_cong) (auto simp: slot_live_def dirty_defs case_prod_beta)
  show "h' = h\<lparr>hp_compact_gen := max (hp_compact_gen h + 1) COMPACT_GEN_BASE, hp_slots := hp_slots h',
        hp_free := [], hp_remembered := indices_where (\<lambda>j s. s_dirty s \<noteq> CLEAN) 0 (hp_slots h'),
        hp_live := length (hp_slots h'), hp_counted := hp_allocs_since_gc h, hp_free_top := 0, hp_young_floor := 0\<rparr>"
    unfolding r [symmetric]
    using c by (auto simp: compact_to_def compact_slots_eq remember_old_eq Let_def)
  show "fwd = map (\<lambda>(m, j, s). (slot_handle j s, new_handle (hp_compact_gen h) m)) (enumerate 0 sv)"
    by (rule fw)
qed

lemma compact_to_effect:
  assumes inv: "heap_inv h" and c: "compact_to h keep = (fwd, h')"
  shows "heap_inv h'" "hp_poison h' = hp_poison h"
    and "distinct (map fst fwd)" "distinct (map snd fwd)"
    and "fst ` set fwd = {k. peek h k \<noteq> None \<and> keep k}"
    and "snd ` set fwd = {k. peek h' k \<noteq> None}"
    and "(a, b) \<in> set fwd \<Longrightarrow> peek h' b = peek h a \<and> age h' b = age h a"
proof -
  let ?g = "hp_compact_gen h" and ?sl = "hp_slots h"
  define sv where "sv = survivors keep 0 ?sl"
  note eq = compact_to_eq [OF c, folded sv_def]
  have fit: "length ?sl < 2 ^ 32" using heap_invD(1) [OF inv] .
  have "length sv \<le> length ?sl"
    unfolding sv_def survivors_def by (rule order_trans [OF length_filter_le]) simp
  then have fit': "length (hp_slots h') < 2 ^ 32" "length sv < 2 ^ 32" using fit eq(1) by simp_all
  have nth: "hp_slots h' ! m = moved_slot ?g (snd (sv ! m))" if "m < length sv" for m
    using that by (simp add: eq(1) case_prod_beta)
  have live: "slot_is_live (snd (sv ! m))" "fst (sv ! m) < length ?sl" "snd (sv ! m) = ?sl ! fst (sv ! m)"
    "keep (slot_handle (fst (sv ! m)) (snd (sv ! m)))"
    if "m < length sv" for m
    using that nth_mem [OF that] survivors_mem [of "fst (sv ! m)" "snd (sv ! m)" keep ?sl] by (auto simp: sv_def)
  have fw: "(a, b) \<in> set fwd \<longleftrightarrow> (\<exists>m < length sv. a = slot_handle (fst (sv ! m)) (snd (sv ! m)) \<and> b = new_handle ?g m)" for a b
    unfolding eq(2) by (auto simp: in_set_enumerate_eq image_iff case_prod_beta intro!: bexI [of _ "(_, sv ! _)"])
  show "hp_poison h' = hp_poison h" by (subst eq(3)) simp
  have moved: "slot_inv (moved_slot ?g s)" "slot_is_live (moved_slot ?g s)" for s
    by (auto simp: slot_inv_def moved_slot_def slot_live_def slot_is_live_def dirty_defs)
  show "heap_inv h'"
  proof -
    have "live_count (hp_slots h') = length (hp_slots h')"
      unfolding live_count_def using moved(2) by (auto simp: eq(1) intro!: filter_True arg_cong [of _ _ length])
    moreover have "COMPACT_GEN_BASE \<le> hp_compact_gen h'" "hp_free h' = []" "hp_free_top h' = 0"
      "hp_young_floor h' = 0" "hp_counted h' = hp_allocs_since_gc h'" "hp_live h' = length (hp_slots h')"
      "hp_remembered h' = indices_where (\<lambda>j s. s_dirty s \<noteq> CLEAN) 0 (hp_slots h')"
      by (subst eq(3), simp)+
    ultimately show ?thesis
      using fit' moved live_not_reusable indices_where_set [of 0 "hp_slots h'" _ "\<lambda>j s. s_dirty s \<noteq> CLEAN"]
        indices_where_distinct [of 0 "hp_slots h'" "\<lambda>j s. s_dirty s \<noteq> CLEAN"]
      by (auto simp: heap_inv_def free_ok_def young_ok_def remembered_ok_def len_def case_prod_beta eq(1))
  qed
  have "map h_index (map fst fwd) = map of_nat (map fst sv)"
    by (rule nth_equalityI) (auto simp: eq(2) nth_enumerate_eq case_prod_beta)
  moreover have "distinct (map (of_nat :: nat \<Rightarrow> u32) (map fst sv))"
    using distinct_survivors [of keep 0 ?sl] fit
    by (auto simp: distinct_map sv_def survivors_mem inj_on_def of_nat_u32_inject dest: less_trans)
  ultimately show "distinct (map fst fwd)" by (metis distinct_map)
  have "map h_index (map snd fwd) = map of_nat [0..<length sv]"
    by (rule nth_equalityI) (auto simp: eq(2) nth_enumerate_eq case_prod_beta new_handle_def)
  moreover have "distinct (map (of_nat :: nat \<Rightarrow> u32) [0..<length sv])"
    using fit'(2) by (auto simp: distinct_map inj_on_def of_nat_u32_inject)
  ultimately show "distinct (map snd fwd)" by (metis distinct_map)
  have new: "unat (h_index (new_handle ?g m)) = m" if "m < length sv" for m
    using that fit' by (simp add: new_handle_def)
  have old: "unat (h_index (slot_handle (fst (sv ! m)) s)) = fst (sv ! m)" if "m < length sv" for m s
    using live(2) [OF that] fit by simp
  show pk: "(a, b) \<in> set fwd \<Longrightarrow> peek h' b = peek h a \<and> age h' b = age h a" for a b
  proof -
    assume "(a, b) \<in> set fwd"
    then obtain m where m: "m < length sv" "a = slot_handle (fst (sv ! m)) (snd (sv ! m))" "b = new_handle ?g m"
      using fw by blast
    show ?thesis
      using m(1) live [OF m(1)] nth [OF m(1)] eq(1) new [OF m(1)] old [OF m(1)]
      by (auto simp: m(2,3) peek_def age_def slot_get_def moved_slot_def slot_live_def slot_is_live_def)
         (simp_all add: new_handle_def)
  qed
  have "k \<in> fst ` set fwd \<longleftrightarrow> peek h k \<noteq> None \<and> keep k" for k
  proof
    assume "k \<in> fst ` set fwd"
    then obtain m where m: "m < length sv" "k = slot_handle (fst (sv ! m)) (snd (sv ! m))"
      using fw by fastforce
    then show "peek h k \<noteq> None \<and> keep k"
      using live [OF m(1)] old [OF m(1)] by (auto simp: peek_def slot_get_def slot_is_live_def)
  next
    assume k: "peek h k \<noteq> None \<and> keep k"
    let ?i = "unat (h_index k)"
    have s: "?i < length ?sl" "slot_is_live (?sl ! ?i)" "slot_handle ?i (?sl ! ?i) = k"
      using k by (auto simp: peek_Some slot_is_live_def slot_handle_def)
    then have "(?i, ?sl ! ?i) \<in> set sv" using k by (simp add: sv_def survivors_mem)
    then obtain m where "m < length sv" "sv ! m = (?i, ?sl ! ?i)" by (auto simp: in_set_conv_nth)
    then have "(k, new_handle ?g m) \<in> set fwd" using fw s(3) by fastforce
    then show "k \<in> fst ` set fwd" by force
  qed
  then show img: "fst ` set fwd = {k. peek h k \<noteq> None \<and> keep k}" by blast
  have "k \<in> snd ` set fwd \<longleftrightarrow> peek h' k \<noteq> None" for k
  proof
    assume "k \<in> snd ` set fwd"
    then obtain a where "(a, k) \<in> set fwd" by auto
    then show "peek h' k \<noteq> None" using pk img by force
  next
    assume "peek h' k \<noteq> None"
    then have m: "unat (h_index k) < length sv" "h_generation k = ?g"
      using nth eq(1) by (auto simp: peek_Some moved_slot_def slot_live_def)
    then have "k = new_handle ?g (unat (h_index k))" by (simp add: new_handle_def)
    then show "k \<in> snd ` set fwd" using fw m(1) by (force simp: image_iff)
  qed
  then show "snd ` set fwd = {k. peek h' k \<noteq> None}" by blast
qed
end
