(* ===== verification/Gc.thy ===== *)
theory Gc
  imports CompactLaws
begin

text \<open>
  The collectors of \<open>src/src/gc.rs\<close>. A worklist vector is a list whose head is the vector's
  last element, so that \<open>pop\<close> takes the head. The closures \<open>scan\<close> (extra strong edges) and
  \<open>expand\<close> (weak-key tables) are parameters, as pure functions of the object, and of the table
  and the live set. A read of the heap can count a use of a collected handle, so the marking
  loops return the table they read; outside verification mode it is the table they were given.
\<close>

subsection \<open>The mark set\<close>

record mark_set =
  ms_marks :: "u32 list"
  ms_count :: nat

definition MarkSet_with_slots :: "nat \<Rightarrow> mark_set" where
  "MarkSet_with_slots n = \<lparr>ms_marks = replicate n 0, ms_count = 0\<rparr>"

definition mark_tag :: "u16 \<Rightarrow> u32" where
  "mark_tag g = ucast g + 1"

definition MarkSet_insert :: "mark_set \<Rightarrow> handle \<Rightarrow> bool \<times> mark_set" where
  "MarkSet_insert m hn =
     (let i = unat (h_index hn);
          marks = (if length (ms_marks m) \<le> i
                   then ms_marks m @ replicate (i + 1 - length (ms_marks m)) 0 else ms_marks m);
          tag = mark_tag (h_generation hn)
      in if marks ! i = tag then (False, m\<lparr>ms_marks := marks\<rparr>)
         else (True, \<lparr>ms_marks = marks[i := tag],
                      ms_count = (if marks ! i = 0 then ms_count m + 1 else ms_count m)\<rparr>))"

definition MarkSet_contains :: "mark_set \<Rightarrow> handle \<Rightarrow> bool" where
  "MarkSet_contains m hn = (case get_opt (ms_marks m) (unat (h_index hn)) of
       None \<Rightarrow> False
     | Some t \<Rightarrow> t = mark_tag (h_generation hn))"

definition MarkSet_len :: "mark_set \<Rightarrow> nat" where "MarkSet_len m = ms_count m"
definition MarkSet_is_empty :: "mark_set \<Rightarrow> bool" where "MarkSet_is_empty m = (ms_count m = 0)"

definition MarkSet_iter :: "mark_set \<Rightarrow> handle list" where
  "MarkSet_iter m =
     map (\<lambda>(i, t). from_parts (of_nat i) (ucast (t - 1)))
       (filter (\<lambda>(i, t). t \<noteq> 0) (enumerate 0 (ms_marks m)))"

definition MinorLive_contains :: "('a, 'p) heap \<Rightarrow> handle \<Rightarrow> bool" where
  "MinorLive_contains h hn = (case age h hn of None \<Rightarrow> False | Some a \<Rightarrow> OLD_AGE \<le> a)"

record stats =
  st_marked :: nat
  st_swept :: nat
  st_weight :: nat

subsection \<open>Marking\<close>

text \<open>The visitor of the mark loops: a live edge that is newly marked goes on the worklist.\<close>

fun shade :: "('a, 'p) heap \<Rightarrow> handle list \<Rightarrow> mark_set \<Rightarrow> handle list \<Rightarrow> mark_set \<times> handle list" where
  "shade h [] marked work = (marked, work)"
| "shade h (e # es) marked work =
     (if is_live h e then
        (case MarkSet_insert marked e of
           (new, marked') \<Rightarrow> shade h es marked' (if new then e # work else work))
      else shade h es marked work)"

definition unmarked :: "('a, 'p) heap \<Rightarrow> mark_set \<Rightarrow> handle set" where
  "unmarked h m = {k. is_live h k \<and> \<not> MarkSet_contains m k}"

lemma is_live_unique: "is_live h j \<Longrightarrow> is_live h k \<Longrightarrow> h_index j = h_index k \<Longrightarrow> j = k"
  by (auto simp: is_live_def split: option.splits)

lemma finite_live: "finite {k. is_live h k}"
proof (rule finite_imageD)
  show "finite (h_index ` {k. is_live h k})" by (rule finite)
  show "inj_on h_index {k. is_live h k}" using is_live_unique by (auto simp: inj_on_def)
qed

lemma unat_mark_tag: "unat (mark_tag g) = unat g + 1"
proof -
  have "unat (ucast g :: u32) = unat g"
    using unsigned_less [of g, where 'a = nat] by (simp add: unsigned_ucast_eq take_bit_nat_eq_self)
  then show ?thesis
    using unsigned_less [of g, where 'a = nat] by (simp add: mark_tag_def unat_word_ariths)
qed

lemma mark_tag_inject [simp]: "mark_tag g = mark_tag g' \<longleftrightarrow> g = g'"
  by (metis add_right_cancel unat_inject unat_mark_tag)

lemma mark_tag_nonzero [simp]: "mark_tag g \<noteq> 0" "0 \<noteq> mark_tag g"
  by (metis add_is_0 one_neq_zero unat_0 unat_mark_tag)+

lemma MarkSet_insert_result: "fst (MarkSet_insert m k) \<longleftrightarrow> \<not> MarkSet_contains m k"
  by (auto simp: MarkSet_insert_def MarkSet_contains_def Let_def get_opt_def nth_append)

lemma MarkSet_contains_insert:
  "MarkSet_contains (snd (MarkSet_insert m k)) j \<longleftrightarrow>
     j = k \<or> (h_index j \<noteq> h_index k \<and> MarkSet_contains m j)"
  apply (auto simp: MarkSet_insert_def MarkSet_contains_def Let_def get_opt_def nth_append nth_list_update
      handle_eq_iff split: if_splits)
  done

lemma shade_spec:
  assumes "shade h es m w = (m', w')"
  shows "is_live h k \<Longrightarrow> MarkSet_contains m' k \<longleftrightarrow> MarkSet_contains m k \<or> k \<in> set es"
    and "\<exists>new. w' = new @ w \<and> distinct new \<and> set new = {k \<in> set es. is_live h k \<and> \<not> MarkSet_contains m k}"
proof -
  show "is_live h k \<Longrightarrow> MarkSet_contains m' k \<longleftrightarrow> MarkSet_contains m k \<or> k \<in> set es"
    using assms
  proof (induction es arbitrary: m w)
    case (Cons e es)
    then show ?case
      using MarkSet_contains_insert [of m e k] is_live_unique [of h k e]
      by (cases "MarkSet_insert m e") (auto split: if_splits)
  qed simp
  show "\<exists>new. w' = new @ w \<and> distinct new \<and> set new = {k \<in> set es. is_live h k \<and> \<not> MarkSet_contains m k}"
    using assms
  proof (induction es arbitrary: m w)
    case (Cons e es)
    show ?case
    proof (cases "is_live h e")
      case True
      obtain b m1 where i: "MarkSet_insert m e = (b, m1)" by fastforce
      have b: "b \<longleftrightarrow> \<not> MarkSet_contains m e" using MarkSet_insert_result [of m e] i by simp
      obtain new where n: "w' = new @ (if b then e # w else w)" "distinct new"
        "set new = {k \<in> set es. is_live h k \<and> \<not> MarkSet_contains m1 k}"
        using Cons.IH [of m1 "if b then e # w else w"] Cons.prems True i by auto
      have m1: "MarkSet_contains m1 k \<longleftrightarrow> k = e \<or> MarkSet_contains m k" if "is_live h k" for k
        using MarkSet_contains_insert [of m e k] is_live_unique [of h k e] that True i by auto
      have sn: "set new = {k \<in> set es. is_live h k \<and> k \<noteq> e \<and> \<not> MarkSet_contains m k}"
        using n(3) m1 by auto
      show ?thesis
        using n(1,2) b True sn by (intro exI [of _ "if b then new @ [e] else new"]) auto
    next
      case False
      then have "{k \<in> set (e # es). is_live h k \<and> \<not> MarkSet_contains m k} =
          {k \<in> set es. is_live h k \<and> \<not> MarkSet_contains m k}" by auto
      with False Cons show ?thesis by simp
    qed
  qed simp
qed

lemma shade_measure:
  assumes "shade h es m w = (m', w')"
  shows "card (unmarked h m') + length w' = card (unmarked h m) + length w"
proof -
  obtain new where n: "w' = new @ w" "distinct new" "set new = {k \<in> set es. is_live h k \<and> \<not> MarkSet_contains m k}"
    using shade_spec(2) [OF assms] by blast
  have "unmarked h m = unmarked h m' \<union> set new" "unmarked h m' \<inter> set new = {}"
    using shade_spec(1) [OF assms] n(3) by (auto simp: unmarked_def)
  moreover have "finite (unmarked h m')"
    by (rule finite_subset [OF _ finite_live [of h]]) (auto simp: unmarked_def)
  ultimately show ?thesis
    using n(1,2) by (simp add: card_Un_disjoint distinct_card)
qed

lemma get_effect:
  assumes "get h k = Inr (r, h')"
  shows "is_live h' = is_live h" "peek h' = peek h" "r = peek h k" "hp_slots h' = hp_slots h"
    "hp_poison h = None \<Longrightarrow> h' = h"
proof -
  obtain p where p: "h' = h\<lparr>hp_poison := p\<rparr>" "r = peek h' k" "hp_poison h = None \<Longrightarrow> h' = h"
  proof (cases "hp_poison h = None")
    case True
    then show ?thesis using assms that [of None] by (auto simp: get_def)
  next
    case False
    then have "note_poison_use h k = Inr h'" "r = peek h' k"
      using assms by (auto simp: get_def split: sum.splits)
    then show ?thesis using False that by (metis note_poison_useE)
  qed
  then show "is_live h' = is_live h" "peek h' = peek h" "r = peek h k" "hp_slots h' = hp_slots h"
    "hp_poison h = None \<Longrightarrow> h' = h"
    by (auto simp: is_live_def peek_eq fun_eq_iff)
qed

lemma shade_append:
  "shade h (es @ fs) m w = (case shade h es m w of (m1, w1) \<Rightarrow> shade h fs m1 w1)"
  by (induction es arbitrary: m w) (auto split: prod.splits)

function drain ::
  "('a, 'p) trace_ops \<Rightarrow> ('a \<Rightarrow> handle list) \<Rightarrow> ('a, 'p) heap \<Rightarrow> mark_set \<Rightarrow> handle list \<Rightarrow>
     panic + (('a, 'p) heap \<times> mark_set)" where
  "drain ops scan h marked [] = Inr (h, marked)"
| "drain ops scan h marked (hn # work) =
     (case get h hn of
        Inl e \<Rightarrow> Inl e
      | Inr (None, h') \<Rightarrow> drain ops scan h' marked work
      | Inr (Some obj, h') \<Rightarrow>
          (case shade h' (trace ops obj) marked work of
             (marked1, work1) \<Rightarrow>
               (case shade h' (scan obj) marked1 work1 of
                  (marked2, work2) \<Rightarrow> drain ops scan h' marked2 work2)))"
  by pat_completeness auto
termination
proof (relation "measure (\<lambda>(ops, scan, h, m, w). card (unmarked h m) + length w)")
  fix ops :: "('a, 'p) trace_ops" and scan :: "'a \<Rightarrow> handle list" and h h' :: "('a, 'p) heap" and m hn work b r
  assume "get h hn = Inr b" "(r, h') = b" "r = None"
  then show "((ops, scan, h', m, work), ops, scan, h, m, hn # work)
      \<in> measure (\<lambda>(ops, scan, h, m, w). card (unmarked h m) + length w)"
    by (auto simp: unmarked_def dest: get_effect(1))
next
  fix ops :: "('a, 'p) trace_ops" and scan :: "'a \<Rightarrow> handle list" and h h' :: "('a, 'p) heap" and m hn work b r obj m1 w1 m2 w2
  assume a: "get h hn = Inr b" "(r, h') = b" "r = Some obj"
    "(m1, w1) = shade h' (trace ops obj) m work" "(m2, w2) = shade h' (scan obj) m1 w1"
  have "unmarked h' = unmarked h" using a(1,2) get_effect(1) [of h hn r h'] by (simp add: unmarked_def fun_eq_iff)
  moreover have "card (unmarked h' m2) + length w2 = card (unmarked h' m) + length work"
    using shade_measure [of h' "trace ops obj" m work m1 w1] shade_measure [of h' "scan obj" m1 w1 m2 w2] a(4,5)
    by simp
  ultimately show "((ops, scan, h', m2, w2), ops, scan, h, m, hn # work)
      \<in> measure (\<lambda>(ops, scan, h, m, w). card (unmarked h m) + length w)"
    by simp
qed simp

definition mark ::
  "('a, 'p) trace_ops \<Rightarrow> ('a, 'p) heap \<Rightarrow> handle list \<Rightarrow> panic + (('a, 'p) heap \<times> mark_set)" where
  "mark ops h roots =
     (case shade h roots (MarkSet_with_slots (slot_capacity h)) [] of
        (marked, work) \<Rightarrow> drain ops (\<lambda>_. []) h marked work)"

lemma shade_unmarked: "shade h es m w = (m', w') \<Longrightarrow> unmarked h m' \<subseteq> unmarked h m"
  using shade_spec(1) by (fastforce simp: unmarked_def)

lemma drain_unmarked:
  "drain ops scan h m w = Inr (h', m') \<Longrightarrow> is_live h' = is_live h \<and> unmarked h' m' \<subseteq> unmarked h m"
proof (induction ops scan h m w rule: drain.induct)
  case (2 ops scan h m hn w)
  obtain r h1 where g: "get h hn = Inr (r, h1)"
    using 2(3) by (cases "get h hn") auto
  have u: "is_live h1 = is_live h" "unmarked h1 = unmarked h"
    using get_effect(1) [OF g] by (simp_all add: unmarked_def fun_eq_iff)
  show ?case
  proof (cases r)
    case None
    then show ?thesis using 2(1) [OF g refl None] 2(3) g u by simp
  next
    case (Some v)
    obtain m1 w1 where s1: "shade h1 (trace ops v) m w = (m1, w1)" by fastforce
    obtain m2 w2 where s2: "shade h1 (scan v) m1 w1 = (m2, w2)" by fastforce
    have "drain ops scan h1 m2 w2 = Inr (h', m')" using 2(3) g Some s1 s2 by simp
    then have "is_live h' = is_live h1 \<and> unmarked h' m' \<subseteq> unmarked h1 m2"
      using 2(2) [OF g refl Some s1 [symmetric] s2 [symmetric]] by simp
    then show ?thesis using u shade_unmarked [OF s1] shade_unmarked [OF s2] by auto
  qed
qed simp

text \<open>The ephemeron fixpoint, after the first drain: surface the values of the entries whose keys
  are marked, mark from them, and repeat until nothing new is marked.\<close>

function ephemeron_loop ::
  "('a, 'p) trace_ops \<Rightarrow> ('a \<Rightarrow> handle list) \<Rightarrow> (('a, 'p) heap \<Rightarrow> (handle \<Rightarrow> bool) \<Rightarrow> handle list) \<Rightarrow>
     ('a, 'p) heap \<Rightarrow> mark_set \<Rightarrow> panic + (('a, 'p) heap \<times> mark_set)" where
  "ephemeron_loop ops scan expand h marked =
     (case shade h (expand h (MarkSet_contains marked)) marked [] of
        (marked1, work) \<Rightarrow>
          if work = [] then Inr (h, marked1)
          else (case drain ops scan h marked1 work of
                  Inl e \<Rightarrow> Inl e
                | Inr (h', marked2) \<Rightarrow> ephemeron_loop ops scan expand h' marked2))"
  by pat_completeness auto
termination
proof (relation "measure (\<lambda>(ops, scan, expand, h, m). card (unmarked h m))")
  fix ops :: "('a, 'p) trace_ops" and scan :: "'a \<Rightarrow> handle list" and expand h m m1 w b h' m2
  assume a: "(m1, w) = shade h (expand h (MarkSet_contains m)) m []" "w \<noteq> []"
    "drain ops scan h m1 w = Inr b" "(h', m2) = b"
  have "card (unmarked h m1) + length w = card (unmarked h m)"
    using shade_measure a(1) by (metis add.right_neutral list.size(3))
  moreover have "card (unmarked h' m2) \<le> card (unmarked h m1)"
    using drain_unmarked [of ops scan h m1 w h' m2] a(3,4)
    by (intro card_mono finite_subset [OF _ finite_live [of h]]) (auto simp: unmarked_def)
  ultimately show "((ops, scan, expand, h', m2), ops, scan, expand, h, m)
      \<in> measure (\<lambda>(ops, scan, expand, h, m). card (unmarked h m))"
    using a(2) by simp (metis add_leD1 length_greater_0_conv less_add_same_cancel1 order_le_less_trans)
qed simp

declare ephemeron_loop.simps [simp del]

definition mark_with_ephemerons_scan ::
  "('a, 'p) trace_ops \<Rightarrow> ('a, 'p) heap \<Rightarrow> handle list \<Rightarrow> ('a \<Rightarrow> handle list) \<Rightarrow>
     (('a, 'p) heap \<Rightarrow> (handle \<Rightarrow> bool) \<Rightarrow> handle list) \<Rightarrow> panic + (('a, 'p) heap \<times> mark_set)" where
  "mark_with_ephemerons_scan ops h roots scan expand =
     (case shade h roots (MarkSet_with_slots (slot_capacity h)) [] of
        (marked, work) \<Rightarrow>
          (case drain ops scan h marked work of
             Inl e \<Rightarrow> Inl e
           | Inr (h', marked') \<Rightarrow> ephemeron_loop ops scan expand h' marked'))"

definition mark_with_ephemerons ::
  "('a, 'p) trace_ops \<Rightarrow> ('a, 'p) heap \<Rightarrow> handle list \<Rightarrow>
     (('a, 'p) heap \<Rightarrow> (handle \<Rightarrow> bool) \<Rightarrow> handle list) \<Rightarrow> panic + (('a, 'p) heap \<times> mark_set)" where
  "mark_with_ephemerons ops h roots expand = mark_with_ephemerons_scan ops h roots (\<lambda>_. []) expand"

subsection \<open>Major collections\<close>

definition collect ::
  "('a, 'p) trace_ops \<Rightarrow> ('a, 'p) heap \<Rightarrow> handle list \<Rightarrow> panic + (stats \<times> ('a, 'p) heap)" where
  "collect ops h roots = (case mark ops h roots of
       Inl e \<Rightarrow> Inl e
     | Inr (h1, marked) \<Rightarrow>
         (case sweep ops h1 (\<lambda>k _. MarkSet_contains marked k) (interior_mutable ops) of
            (swept, h2) \<Rightarrow>
              Inr (\<lparr>st_marked = MarkSet_len marked, st_swept = swept, st_weight = MarkSet_len marked\<rparr>, h2)))"

definition saturating_add :: "nat \<Rightarrow> nat \<Rightarrow> nat" where
  "saturating_add a b = min (a + b) (2 ^ 64 - 1)"

text \<open>The closure \<open>sweep_full\<close> passes to the sweep also sums the weights of the objects it keeps, in
  slot order.\<close>

definition kept_weight :: "('a, 'p) trace_ops \<Rightarrow> ('a, 'p) heap \<Rightarrow> mark_set \<Rightarrow> nat" where
  "kept_weight ops h marked =
     foldl (\<lambda>w k. case peek h k of
              None \<Rightarrow> w
            | Some v \<Rightarrow> if MarkSet_contains marked k then saturating_add w (weight ops v) else w)
       0 (live_handles h)"

definition sweep_full ::
  "('a, 'p) trace_ops \<Rightarrow> ('a, 'p) heap \<Rightarrow> mark_set \<Rightarrow> stats \<times> ('a, 'p) heap" where
  "sweep_full ops h marked =
     (case sweep ops h (\<lambda>k _. MarkSet_contains marked k) (interior_mutable ops) of
        (swept, h') \<Rightarrow>
          (\<lparr>st_marked = MarkSet_len marked, st_swept = swept, st_weight = kept_weight ops h marked\<rparr>, h'))"

subsection \<open>Minor collections\<close>

text \<open>A young object is marked by promoting it; a newly promoted one goes on the worklist.\<close>

fun promote_all ::
  "('a, 'p) heap \<Rightarrow> handle list \<Rightarrow> handle list \<Rightarrow> nat \<Rightarrow> ('a, 'p) heap \<times> handle list \<times> nat" where
  "promote_all h [] work marked = (h, work, marked)"
| "promote_all h (e # es) work marked =
     (case promote_young h e of
        (new, h') \<Rightarrow> promote_all h' es (if new then e # work else work) (if new then marked + 1 else marked))"

fun rescan ::
  "('a, 'p) trace_ops \<Rightarrow> ('a \<Rightarrow> handle list) \<Rightarrow> ('a, 'p) heap \<Rightarrow> u32 list \<Rightarrow> handle list \<Rightarrow> nat \<Rightarrow>
     ('a, 'p) heap \<times> handle list \<times> nat" where
  "rescan ops scan h [] work marked = (h, work, marked)"
| "rescan ops scan h (i # is) work marked =
     (let from = remembered_from h i;
          edges = (case Option.bind (live_handle_at h i) (peek h) of
                     None \<Rightarrow> []
                   | Some obj \<Rightarrow> (if from = 0 then trace ops obj else trace_tail ops obj from) @ scan obj)
      in case promote_all h edges work marked of
           (h', work', marked') \<Rightarrow> rescan ops scan h' is work' marked')"

definition young_set :: "('a, 'p) heap \<Rightarrow> handle set" where
  "young_set h = {k. is_young h k}"

lemma is_young_live: "is_young h k \<Longrightarrow> is_live h k"
  by (auto simp: is_young_def is_live_def split: option.splits)

lemma finite_young: "finite (young_set h)"
  by (rule finite_subset [OF _ finite_live [of h]]) (auto simp: young_set_def is_young_live)

lemma promote_young_spec:
  assumes "promote_young h k = (b, h')"
  shows "b \<longleftrightarrow> is_young h k" "young_set h' = young_set h - {k}" "is_live h' = is_live h" "peek h' = peek h"
proof -
  let ?i = "unat (h_index k)"
  let ?s = "hp_slots h ! ?i"
  have b: "b \<longleftrightarrow> is_young h k" "h' = (if is_young h k
      then h\<lparr>hp_slots := (hp_slots h)[?i := ?s\<lparr>s_age := OLD_AGE\<rparr>]\<rparr> else h)"
    using assms by (auto simp: promote_young_def is_young_def Let_def get_opt_eq_Some split: option.splits if_splits)
  show "b \<longleftrightarrow> is_young h k" by (rule b(1))
  show "young_set h' = young_set h - {k}"
  proof (cases "is_young h k")
    case True
    then have "?i < length (hp_slots h)" "s_generation ?s = h_generation k"
      by (auto simp: is_young_def get_opt_eq_Some split: option.splits)
    then have "is_young h' j \<longleftrightarrow> is_young h j \<and> j \<noteq> k" for j
      using True unfolding b(2) by (auto simp: is_young_def get_opt_update handle_eq_iff)
    then show ?thesis by (auto simp: young_set_def)
  qed (auto simp: b young_set_def)
  have "is_live h' j = is_live h j \<and> peek h' j = peek h j" for j
    unfolding b(2) by (auto simp: is_young_def is_live_def peek_def slot_get_def get_opt_def slot_is_live_def nth_list_update)
  then show "is_live h' = is_live h" "peek h' = peek h" by auto
qed

lemma promote_all_spec:
  assumes "promote_all h es w n = (h', w', n')"
  shows "young_set h' = young_set h - set es" "is_live h' = is_live h" "peek h' = peek h"
    "\<exists>new. w' = new @ w \<and> n' = n + length new \<and> distinct new \<and> set new = set es \<inter> young_set h"
proof -
  have "young_set h' = young_set h - set es \<and> is_live h' = is_live h \<and> peek h' = peek h \<and>
    (\<exists>new. w' = new @ w \<and> n' = n + length new \<and> distinct new \<and> set new = set es \<inter> young_set h)"
    using assms
  proof (induction es arbitrary: h w n)
    case (Cons e es)
    obtain b h1 where p: "promote_young h e = (b, h1)" by fastforce
    note q = promote_young_spec [OF p]
    let ?w = "if b then e # w else w" and ?n = "if b then n + 1 else n"
    have r: "promote_all h1 es ?w ?n = (h', w', n')" using Cons.prems p by simp
    obtain new where new: "w' = new @ ?w" "n' = ?n + length new" "distinct new" "set new = set es \<inter> young_set h1"
      using Cons.IH [OF r] by blast
    have "\<exists>new. w' = new @ w \<and> n' = n + length new \<and> distinct new \<and> set new = set (e # es) \<inter> young_set h"
      using new q(1,2) by (intro exI [of _ "if b then new @ [e] else new"]) (auto simp: young_set_def)
    then show ?case using Cons.IH [OF r] q(2-4) by auto
  qed simp
  then show "young_set h' = young_set h - set es" "is_live h' = is_live h" "peek h' = peek h"
    "\<exists>new. w' = new @ w \<and> n' = n + length new \<and> distinct new \<and> set new = set es \<inter> young_set h"
    by auto
qed

lemma promote_all_measure:
  assumes "promote_all h es w n = (h', w', n')"
  shows "card (young_set h') + length w' = card (young_set h) + length w"
proof -
  obtain new where n: "w' = new @ w" "distinct new" "set new = set es \<inter> young_set h"
    using promote_all_spec(4) [OF assms] by blast
  have "card (young_set h) = card (young_set h - set es) + card (set es \<inter> young_set h)"
    using finite_young [of h] by (metis Int_commute card_Diff_subset_Int card_mono finite_Int inf_le1 le_add_diff_inverse2 add.commute)
  then show ?thesis
    using n promote_all_spec(1) [OF assms] distinct_card [OF n(2)] by simp
qed

lemma get_young: "get h k = Inr (r, h') \<Longrightarrow> young_set h' = young_set h"
  using get_effect(4) by (fastforce simp: young_set_def is_young_def)

function minor_drain ::
  "('a, 'p) trace_ops \<Rightarrow> ('a \<Rightarrow> handle list) \<Rightarrow> ('a, 'p) heap \<Rightarrow> handle list \<Rightarrow> nat \<Rightarrow>
     panic + (('a, 'p) heap \<times> nat)" where
  "minor_drain ops scan h [] marked = Inr (h, marked)"
| "minor_drain ops scan h (hn # work) marked =
     (case get h hn of
        Inl e \<Rightarrow> Inl e
      | Inr (obj, h') \<Rightarrow>
          (case promote_all h' (case obj of None \<Rightarrow> [] | Some v \<Rightarrow> trace ops v @ scan v) work marked of
             (h2, work', marked') \<Rightarrow> minor_drain ops scan h2 work' marked'))"
  by pat_completeness auto
termination
proof (relation "measure (\<lambda>(ops, scan, h, w, n). card (young_set h) + length w)")
  fix ops :: "('a, 'p) trace_ops" and scan :: "'a \<Rightarrow> handle list" and h h' h2 :: "('a, 'p) heap"
    and hn work n b r x w2 n2
  assume a: "get h hn = Inr b" "(r, h') = b"
    "(h2, x) = promote_all h' (case r of None \<Rightarrow> [] | Some v \<Rightarrow> trace ops v @ scan v) work n" "(w2, n2) = x"
  then have "card (young_set h2) + length w2 = card (young_set h) + length work"
    using promote_all_measure [of h' _ work n h2 w2 n2] get_young [of h hn r h'] by metis
  then show "((ops, scan, h2, w2, n2), ops, scan, h, hn # work, n)
      \<in> measure (\<lambda>(ops, scan, h, w, n). card (young_set h) + length w)"
    by simp
qed simp

lemma minor_drain_young: "minor_drain ops scan h w n = Inr (h', n') \<Longrightarrow> young_set h' \<subseteq> young_set h"
proof (induction ops scan h w n rule: minor_drain.induct)
  case (2 ops scan h hn w n)
  obtain r h1 where g: "get h hn = Inr (r, h1)"
    using 2(2) by (cases "get h hn") auto
  obtain h2 w2 n2 where p: "promote_all h1 (case r of None \<Rightarrow> [] | Some v \<Rightarrow> trace ops v @ scan v) w n = (h2, w2, n2)"
    by (metis prod_cases3)
  then show ?case
    using 2(1) [OF g refl p [symmetric] refl] 2(2) g promote_all_spec(1) [OF p] get_young [OF g] by auto
qed simp

function minor_loop ::
  "('a, 'p) trace_ops \<Rightarrow> ('a \<Rightarrow> handle list) \<Rightarrow> (('a, 'p) heap \<Rightarrow> (handle \<Rightarrow> bool) \<Rightarrow> handle list) \<Rightarrow>
     ('a, 'p) heap \<Rightarrow> handle list \<Rightarrow> nat \<Rightarrow> panic + (('a, 'p) heap \<times> nat)" where
  "minor_loop ops scan expand h work marked =
     (case minor_drain ops scan h work marked of
        Inl e \<Rightarrow> Inl e
      | Inr (h1, marked1) \<Rightarrow>
          (case promote_all h1 (expand h1 (MinorLive_contains h1)) [] marked1 of
             (h2, work2, marked2) \<Rightarrow>
               if work2 = [] then Inr (h2, marked2)
               else minor_loop ops scan expand h2 work2 marked2))"
  by pat_completeness auto
termination
proof (relation "measure (\<lambda>(ops, scan, expand, h, w, n). card (young_set h))")
  fix ops :: "('a, 'p) trace_ops" and scan :: "'a \<Rightarrow> handle list"
    and expand :: "('a, 'p) heap \<Rightarrow> (handle \<Rightarrow> bool) \<Rightarrow> handle list" and h h1 h2 :: "('a, 'p) heap"
    and work n b n1 x w2 n2
  assume a: "minor_drain ops scan h work n = Inr b" "(h1, n1) = b"
    "(h2, x) = promote_all h1 (expand h1 (MinorLive_contains h1)) [] n1" "(w2, n2) = x" "w2 \<noteq> []"
  have "card (young_set h2) + length w2 = card (young_set h1)"
    using promote_all_measure [of h1 _ "[]" n1 h2 w2 n2] a(3,4) by (metis add.right_neutral list.size(3))
  moreover have "card (young_set h1) \<le> card (young_set h)"
    using minor_drain_young [of ops scan h work n h1 n1] a(1,2) by (auto intro: card_mono finite_young)
  ultimately show "((ops, scan, expand, h2, w2, n2), ops, scan, expand, h, work, n)
      \<in> measure (\<lambda>(ops, scan, expand, h, w, n). card (young_set h))"
    using a(5) by (cases w2) auto
qed simp

declare minor_loop.simps [simp del]

record minor_mark =
  mm_rescanned :: "u32 list"
  mm_marked :: nat

definition mark_minor ::
  "('a, 'p) trace_ops \<Rightarrow> ('a, 'p) heap \<Rightarrow> handle list \<Rightarrow> ('a \<Rightarrow> handle list) \<Rightarrow>
     (('a, 'p) heap \<Rightarrow> (handle \<Rightarrow> bool) \<Rightarrow> handle list) \<Rightarrow> panic + (minor_mark \<times> ('a, 'p) heap)" where
  "mark_minor ops h roots scan expand =
     (case promote_all h roots [] 0 of
        (h1, work1, marked1) \<Rightarrow>
          (case take_remembered h1 of
             (rescanned, h2) \<Rightarrow>
               (case rescan ops scan h2 rescanned work1 marked1 of
                  (h3, work3, marked3) \<Rightarrow>
                    (case minor_loop ops scan expand h3 work3 marked3 of
                       Inl e \<Rightarrow> Inl e
                     | Inr (h4, marked4) \<Rightarrow>
                         Inr (\<lparr>mm_rescanned = rescanned, mm_marked = marked4\<rparr>, h4)))))"

definition sweep_minor ::
  "('a, 'p) trace_ops \<Rightarrow> ('a, 'p) heap \<Rightarrow> minor_mark \<Rightarrow> panic + (stats \<times> ('a, 'p) heap)" where
  "sweep_minor ops h m = (case sweep_young ops h (mm_rescanned m) (interior_mutable ops) of
       Inl e \<Rightarrow> Inl e
     | Inr (swept, h') \<Rightarrow>
         Inr (\<lparr>st_marked = mm_marked m, st_swept = swept, st_weight = mm_marked m\<rparr>, h'))"

definition collect_minor_with ::
  "('a, 'p) trace_ops \<Rightarrow> ('a, 'p) heap \<Rightarrow> handle list \<Rightarrow> ('a \<Rightarrow> handle list) \<Rightarrow>
     (('a, 'p) heap \<Rightarrow> (handle \<Rightarrow> bool) \<Rightarrow> handle list) \<Rightarrow> panic + (stats \<times> ('a, 'p) heap)" where
  "collect_minor_with ops h roots scan expand = (case mark_minor ops h roots scan expand of
       Inl e \<Rightarrow> Inl e
     | Inr (m, h') \<Rightarrow> sweep_minor ops h' m)"

definition collect_minor ::
  "('a, 'p) trace_ops \<Rightarrow> ('a, 'p) heap \<Rightarrow> handle list \<Rightarrow> panic + (stats \<times> ('a, 'p) heap)" where
  "collect_minor ops h roots = collect_minor_with ops h roots (\<lambda>_. []) (\<lambda>_ _. [])"

definition gc_remembered_violation ::
  "('a, 'p) trace_ops \<Rightarrow> ('a, 'p) heap \<Rightarrow> ('a \<Rightarrow> handle list) \<Rightarrow> panic + (handle \<times> handle) option" where
  "gc_remembered_violation ops h scan =
     remembered_violation h (\<lambda>obj. trace ops obj @ scan obj) (trace_head ops) (interior_mutable ops)"

subsection \<open>Compaction\<close>

text \<open>The \<open>Relocate\<close> trait is the parameter \<open>reloc\<close>: what \<open>relocate\<close> makes of an object. The map
  collected from the forwarding list keeps the last entry of a key. The caller's \<open>fixup\<close> closure
  receives the forwarding function, which is therefore part of the result.\<close>

fun relocate_all ::
  "((handle \<Rightarrow> handle) \<Rightarrow> 'a \<Rightarrow> 'a) \<Rightarrow> (handle \<Rightarrow> handle) \<Rightarrow> handle list \<Rightarrow> ('a, 'p) heap \<Rightarrow>
     panic + ('a, 'p) heap" where
  "relocate_all reloc fwd [] h = Inr h"
| "relocate_all reloc fwd (hn # hs) h =
     (case get_mut h hn (reloc fwd) of
        Inl e \<Rightarrow> Inl e
      | Inr (_, h') \<Rightarrow> relocate_all reloc fwd hs h')"

definition relocate ::
  "((handle \<Rightarrow> handle) \<Rightarrow> 'a \<Rightarrow> 'a) \<Rightarrow> ('a, 'p) heap \<Rightarrow> (handle \<Rightarrow> handle) \<Rightarrow> panic + ('a, 'p) heap" where
  "relocate reloc h fwd = relocate_all reloc fwd (live_handles h) h"

definition compact_with ::
  "('a, 'p) trace_ops \<Rightarrow> ((handle \<Rightarrow> handle) \<Rightarrow> 'a \<Rightarrow> 'a) \<Rightarrow> ('a, 'p) heap \<Rightarrow> handle list \<Rightarrow>
     panic + (stats \<times> ('a, 'p) heap \<times> handle list \<times> (handle \<Rightarrow> handle))" where
  "compact_with ops reloc h roots =
     (let before = len h in
      case mark ops h roots of
        Inl e \<Rightarrow> Inl e
      | Inr (h1, marked) \<Rightarrow>
          (case compact_to h1 (MarkSet_contains marked) of
             (moved, h2) \<Rightarrow>
               let fwd = (\<lambda>k. case map_of (rev moved) k of None \<Rightarrow> k | Some k' \<Rightarrow> k') in
               (case relocate reloc h2 fwd of
                  Inl e \<Rightarrow> Inl e
                | Inr h3 \<Rightarrow>
                    Inr (\<lparr>st_marked = MarkSet_len marked, st_swept = before - MarkSet_len marked,
                          st_weight = MarkSet_len marked\<rparr>, h3, map fwd roots, fwd))))"

definition compact ::
  "('a, 'p) trace_ops \<Rightarrow> ((handle \<Rightarrow> handle) \<Rightarrow> 'a \<Rightarrow> 'a) \<Rightarrow> ('a, 'p) heap \<Rightarrow> handle list \<Rightarrow>
     panic + (stats \<times> ('a, 'p) heap \<times> handle list)" where
  "compact ops reloc h roots = (case compact_with ops reloc h roots of
       Inl e \<Rightarrow> Inl e
     | Inr (st, h', roots', _) \<Rightarrow> Inr (st, h', roots'))"

subsection \<open>Incremental marking\<close>

record incremental_marker =
  im_marked :: "handle set"
  im_grey :: "handle list"

definition mark_grey :: "incremental_marker \<Rightarrow> handle \<Rightarrow> incremental_marker" where
  "mark_grey m hn =
     (if hn \<in> im_marked m then m
      else \<lparr>im_marked = insert hn (im_marked m), im_grey = hn # im_grey m\<rparr>)"

definition IncrementalMarker_new :: "handle list \<Rightarrow> incremental_marker" where
  "IncrementalMarker_new roots = foldl mark_grey \<lparr>im_marked = {}, im_grey = []\<rparr> roots"

fun step ::
  "('a, 'p) trace_ops \<Rightarrow> incremental_marker \<Rightarrow> ('a, 'p) heap \<Rightarrow> nat \<Rightarrow>
     panic + (bool \<times> incremental_marker \<times> ('a, 'p) heap)" where
  "step ops m h 0 = Inr (im_grey m = [], m, h)"
| "step ops m h (Suc budget) = (case im_grey m of
       [] \<Rightarrow> Inr (True, m, h)
     | hn # grey \<Rightarrow>
         (case get h hn of
            Inl e \<Rightarrow> Inl e
          | Inr (obj, h') \<Rightarrow>
              let edges = (case obj of None \<Rightarrow> [] | Some v \<Rightarrow> trace ops v) in
              step ops (foldl mark_grey (m\<lparr>im_grey := grey\<rparr>) (filter (is_live h') edges)) h' budget))"

definition is_complete :: "incremental_marker \<Rightarrow> bool" where
  "is_complete m = (im_grey m = [])"

fun sweep_unmarked :: "handle set \<Rightarrow> handle list \<Rightarrow> ('a, 'p) heap \<Rightarrow> nat \<Rightarrow> nat \<times> ('a, 'p) heap" where
  "sweep_unmarked M [] h swept = (swept, h)"
| "sweep_unmarked M (hn # hs) h swept =
     (if hn \<notin> M then (case free h hn of (_, h') \<Rightarrow> sweep_unmarked M hs h' (swept + 1))
      else sweep_unmarked M hs h swept)"

definition IncrementalMarker_sweep :: "incremental_marker \<Rightarrow> ('a, 'p) heap \<Rightarrow> nat \<times> ('a, 'p) heap" where
  "IncrementalMarker_sweep m h = sweep_unmarked (im_marked m) (live_handles h) h 0"

end
