(* ===== verification/GcLaws.thy ===== *)
theory GcLaws
  imports Gc
begin

text \<open>
  The mark phase computes reachability, with and without weak-key tables, and a major collection
  keeps exactly the reachable objects.
\<close>

text \<open>Reachability: the live objects the roots lead to through live edges.\<close>

inductive_set reach :: "('a, 'p) heap \<Rightarrow> ('a \<Rightarrow> handle list) \<Rightarrow> handle set \<Rightarrow> handle set"
  for h succs roots where
  root: "k \<in> roots \<Longrightarrow> is_live h k \<Longrightarrow> k \<in> reach h succs roots"
| edge: "k \<in> reach h succs roots \<Longrightarrow> peek h k = Some v \<Longrightarrow> e \<in> set (succs v) \<Longrightarrow> is_live h e \<Longrightarrow>
    e \<in> reach h succs roots"

definition marked_in :: "mark_set \<Rightarrow> handle set" where
  "marked_in m = {k. MarkSet_contains m k}"

definition closed_but :: "('a, 'p) heap \<Rightarrow> ('a \<Rightarrow> handle list) \<Rightarrow> handle set \<Rightarrow> handle set \<Rightarrow> bool" where
  "closed_but h succs grey M =
     (\<forall>k \<in> M - grey. \<forall>v. peek h k = Some v \<longrightarrow> (\<forall>e \<in> set (succs v). is_live h e \<longrightarrow> e \<in> M))"

lemma reach_least:
  assumes "\<And>k. k \<in> roots \<Longrightarrow> is_live h k \<Longrightarrow> k \<in> M" "closed_but h succs {} M"
  shows "reach h succs roots \<subseteq> M"
proof
  fix k assume "k \<in> reach h succs roots"
  then show "k \<in> M" by induction (use assms in \<open>auto simp: closed_but_def\<close>)
qed

lemma reach_mono: "(\<And>k. k \<in> R \<Longrightarrow> is_live h k \<Longrightarrow> k \<in> reach h succs R') \<Longrightarrow> reach h succs R \<subseteq> reach h succs R'"
  by (rule reach_least) (auto simp: closed_but_def intro: reach.edge)

lemma reach_live: "k \<in> reach h succs roots \<Longrightarrow> is_live h k"
  by (induction rule: reach.induct)

lemma shade_marked:
  assumes "shade h es m w = (m', w')" "\<forall>k \<in> marked_in m. is_live h k"
  shows "marked_in m' = marked_in m \<union> {k \<in> set es. is_live h k}"
proof -
  have "\<forall>k \<in> marked_in m'. is_live h k"
    using assms
  proof (induction es arbitrary: m w)
    case (Cons e es)
    obtain b m1 where i: "MarkSet_insert m e = (b, m1)" by fastforce
    have "is_live h e \<Longrightarrow> \<forall>k \<in> marked_in m1. is_live h k"
      using Cons.prems(2) MarkSet_contains_insert [of m e] i by (auto simp: marked_in_def)
    with Cons i show ?case by (auto split: if_splits)
  qed simp
  then show ?thesis
    using shade_spec(1) [OF assms(1)] assms(2) by (auto simp: marked_in_def)
qed

lemma drain_spec:
  assumes "hp_poison h = None" "\<forall>k \<in> marked_in m. is_live h k" "set w \<subseteq> marked_in m"
    "closed_but h (\<lambda>v. trace ops v @ scan v) (set w) (marked_in m)"
  shows "\<exists>m'. drain ops scan h m w = Inr (h, m') \<and>
    marked_in m' = reach h (\<lambda>v. trace ops v @ scan v) (marked_in m)"
  using assms
proof (induction ops scan h m w rule: drain.induct)
  case (1 ops scan h m)
  have "marked_in m \<subseteq> reach h (\<lambda>v. trace ops v @ scan v) (marked_in m)"
    using 1(2) by (auto intro: reach.root)
  moreover have "reach h (\<lambda>v. trace ops v @ scan v) (marked_in m) \<subseteq> marked_in m"
    using 1(4) by (intro reach_least) auto
  ultimately show ?case by auto
next
  case (2 ops scan h m hn w)
  let ?succ = "\<lambda>v. trace ops v @ scan v"
  have g: "get h hn = Inr (peek h hn, h)" using 2(3) by (simp add: get_def)
  have live: "is_live h hn" using 2(4,5) by auto
  then obtain v where v: "peek h hn = Some v" by (auto simp: is_live_peek)
  obtain m1 w1 where s1: "shade h (trace ops v) m w = (m1, w1)" by fastforce
  obtain m2 w2 where s2: "shade h (scan v) m1 w1 = (m2, w2)" by fastforce
  have s: "shade h (?succ v) m w = (m2, w2)" by (simp add: shade_append s1 s2)
  have M: "marked_in m2 = marked_in m \<union> {k \<in> set (?succ v). is_live h k}"
    using shade_marked [OF s 2(4)] .
  obtain new where n: "w2 = new @ w" "set new = {k \<in> set (?succ v). is_live h k \<and> k \<notin> marked_in m}"
    using shade_spec(2) [OF s] by (auto simp: marked_in_def)
  have "e \<in> marked_in m2"
    if k: "k \<in> marked_in m2" "k \<notin> set w2" and e: "peek h k = Some u" "e \<in> set (?succ u)" "is_live h e" for k u e
  proof (cases "k = hn")
    case True
    with e v show ?thesis by (simp add: M)
  next
    case False
    have "k \<in> marked_in m" "k \<notin> set (hn # w)" using k False by (auto simp: M n)
    then show ?thesis using 2(6) e unfolding closed_but_def M by blast
  qed
  then have "closed_but h ?succ (set w2) (marked_in m2)"
    unfolding closed_but_def by blast
  moreover have "set w2 \<subseteq> marked_in m2" "\<forall>k \<in> marked_in m2. is_live h k"
    using 2(4,5) by (auto simp: M n)
  ultimately have "\<exists>m'. drain ops scan h m2 w2 = Inr (h, m') \<and> marked_in m' = reach h ?succ (marked_in m2)"
    using 2(2) [OF g refl] v s1 s2 2(3) by auto
  moreover have "reach h ?succ (marked_in m2) = reach h ?succ (marked_in m)"
  proof
    have hn: "hn \<in> reach h ?succ (marked_in m)" using 2(5) live by (auto intro: reach.root)
    show "reach h ?succ (marked_in m2) \<subseteq> reach h ?succ (marked_in m)"
      by (rule reach_mono) (auto simp: M intro: reach.root reach.edge [OF hn v])
    show "reach h ?succ (marked_in m) \<subseteq> reach h ?succ (marked_in m2)"
      by (rule reach_mono) (auto simp: M intro: reach.root)
  qed
  ultimately show ?case using g v s1 s2 by simp
qed

subsection \<open>The mark set's count\<close>

definition ms_wf :: "mark_set \<Rightarrow> bool" where
  "ms_wf m = (length (ms_marks m) \<le> 2 ^ 32 \<and> ms_count m = length (filter (\<lambda>t. t \<noteq> 0) (ms_marks m)) \<and>
     (\<forall>t \<in> set (ms_marks m). t = 0 \<or> (\<exists>g. t = mark_tag g)))"

lemma ms_wf_new: "n \<le> 2 ^ 32 \<Longrightarrow> ms_wf (MarkSet_with_slots n)"
  by (simp add: ms_wf_def MarkSet_with_slots_def)

lemma length_filter_update:
  "i < length xs \<Longrightarrow> \<not> P (xs ! i) \<Longrightarrow> P x \<Longrightarrow> length (filter P (xs[i := x])) = Suc (length (filter P xs))"
  "i < length xs \<Longrightarrow> P (xs ! i) \<Longrightarrow> P x \<Longrightarrow> length (filter P (xs[i := x])) = length (filter P xs)"
  by (induction xs arbitrary: i) (auto split: nat.splits)

lemma ms_wf_insert: "ms_wf m \<Longrightarrow> ms_wf (snd (MarkSet_insert m k))"
proof -
  assume wf: "ms_wf m"
  let ?i = "unat (h_index k)"
  define marks where "marks = (if length (ms_marks m) \<le> ?i
    then ms_marks m @ replicate (?i + 1 - length (ms_marks m)) 0 else ms_marks m)"
  have i: "?i < length marks" "length marks \<le> 2 ^ 32"
    using wf unsigned_less [of "h_index k", where 'a = nat] by (auto simp: marks_def ms_wf_def)
  have m: "length (filter (\<lambda>t. t \<noteq> 0) marks) = ms_count m" "\<forall>t \<in> set marks. t = 0 \<or> (\<exists>g. t = mark_tag g)"
    using wf by (auto simp: marks_def ms_wf_def)
  have "snd (MarkSet_insert m k) = (if marks ! ?i = mark_tag (h_generation k) then m\<lparr>ms_marks := marks\<rparr>
      else \<lparr>ms_marks = marks[?i := mark_tag (h_generation k)],
            ms_count = (if marks ! ?i = 0 then ms_count m + 1 else ms_count m)\<rparr>)"
    by (simp add: MarkSet_insert_def Let_def marks_def)
  then show "ms_wf (snd (MarkSet_insert m k))"
    using i m length_filter_update [of ?i marks "\<lambda>t. t \<noteq> 0" "mark_tag (h_generation k)"]
      set_update_subset_insert [of marks ?i "mark_tag (h_generation k)"]
    by (auto simp: ms_wf_def)
qed

lemma mark_tag_inverse: "ucast (mark_tag g - 1) = g"
proof -
  have "mark_tag g - 1 = ucast g" by (simp add: mark_tag_def)
  moreover have "unat (ucast (ucast g :: u32) :: u16) = unat g"
    by (simp add: unsigned_ucast_eq take_bit_word_eq_self)
  ultimately show ?thesis by (metis unat_inject)
qed

lemma MarkSet_contains_iter:
  assumes "ms_wf m"
  shows "set (MarkSet_iter m) = marked_in m"
proof -
  have "k \<in> set (MarkSet_iter m) \<longleftrightarrow> MarkSet_contains m k" for k
  proof
    assume "k \<in> set (MarkSet_iter m)"
    then obtain i where i: "i < length (ms_marks m)" "ms_marks m ! i \<noteq> 0"
      "k = from_parts (of_nat i) (ucast (ms_marks m ! i - 1))"
      by (auto simp: MarkSet_iter_def in_set_enumerate_eq)
    moreover obtain g where "ms_marks m ! i = mark_tag g"
      using assms i(1,2) unfolding ms_wf_def by (metis nth_mem)
    ultimately show "MarkSet_contains m k"
      using assms by (simp add: MarkSet_contains_def ms_wf_def from_parts_def mark_tag_inverse)
  next
    assume "MarkSet_contains m k"
    then have i: "unat (h_index k) < length (ms_marks m)" "ms_marks m ! unat (h_index k) = mark_tag (h_generation k)"
      by (auto simp: MarkSet_contains_def get_opt_def split: if_splits)
    have "k = from_parts (of_nat (unat (h_index k))) (ucast (mark_tag (h_generation k) - 1))"
      unfolding mark_tag_inverse by (simp add: from_parts_def)
    moreover have "(unat (h_index k), mark_tag (h_generation k)) \<in> set (enumerate 0 (ms_marks m))"
      using i by (simp add: in_set_enumerate_eq)
    then have "(\<lambda>(i, t). from_parts (of_nat i) (ucast (t - 1))) (unat (h_index k), mark_tag (h_generation k))
        \<in> set (MarkSet_iter m)"
      unfolding MarkSet_iter_def set_map by (intro imageI) simp
    ultimately show "k \<in> set (MarkSet_iter m)" by simp
  qed
  then show ?thesis by (auto simp: marked_in_def)
qed

lemma distinct_of_nat_u32: "distinct xs \<Longrightarrow> \<forall>i \<in> set xs. i < 2 ^ 32 \<Longrightarrow> distinct (map (of_nat :: nat \<Rightarrow> u32) xs)"
  by (simp add: distinct_map inj_on_def of_nat_u32_inject)

lemma map_snd_filter_enumerate: "map snd (filter (\<lambda>(i, t). P t) (enumerate n xs)) = filter P xs"
  by (induction xs arbitrary: n) auto

lemma MarkSet_len_card:
  assumes wf: "ms_wf m"
  shows "MarkSet_len m = card (marked_in m)"
proof -
  let ?xs = "filter (\<lambda>(i, t). t \<noteq> 0) (enumerate 0 (ms_marks m))"
  have "length (MarkSet_iter m) = ms_count m"
    using wf map_snd_filter_enumerate [of "\<lambda>t. t \<noteq> 0" 0 "ms_marks m"]
    unfolding MarkSet_iter_def ms_wf_def by (metis length_map)
  moreover have "map h_index (MarkSet_iter m) = map of_nat (map fst ?xs)"
    by (simp add: MarkSet_iter_def from_parts_def case_prod_unfold)
  moreover have "distinct (map (of_nat :: nat \<Rightarrow> u32) (map fst ?xs))"
  proof -
    have "distinct (map fst ?xs)" by (rule distinct_map_filter) simp
    moreover have "\<forall>i \<in> set (map fst ?xs). i < 2 ^ 32"
      using wf by (auto simp: ms_wf_def in_set_enumerate_eq)
    ultimately show ?thesis by (rule distinct_of_nat_u32)
  qed
  ultimately show ?thesis
    using MarkSet_contains_iter [OF wf] distinct_card [of "MarkSet_iter m"]
    by (simp add: MarkSet_len_def) (metis distinct_map)
qed

lemma shade_wf: "shade h es m w = (m', w') \<Longrightarrow> ms_wf m \<Longrightarrow> ms_wf m'"
proof (induction es arbitrary: m w)
  case (Cons e es)
  obtain b m1 where i: "MarkSet_insert m e = (b, m1)" by fastforce
  have "ms_wf m1" using ms_wf_insert [of m e] Cons.prems(2) i by simp
  then show ?case using Cons i by (auto split: if_splits)
qed simp

lemma drain_wf: "drain ops scan h m w = Inr (h', m') \<Longrightarrow> ms_wf m \<Longrightarrow> ms_wf m'"
proof (induction ops scan h m w rule: drain.induct)
  case (2 ops scan h m hn w)
  obtain r h1 where g: "get h hn = Inr (r, h1)"
    using 2(3) by (cases "get h hn") auto
  show ?case
  proof (cases r)
    case None
    then show ?thesis using 2(1) [OF g refl None] 2(3,4) g by simp
  next
    case (Some v)
    obtain m1 w1 where s1: "shade h1 (trace ops v) m w = (m1, w1)" by fastforce
    obtain m2 w2 where s2: "shade h1 (scan v) m1 w1 = (m2, w2)" by fastforce
    have "drain ops scan h1 m2 w2 = Inr (h', m')" using 2(3) g Some s1 s2 by simp
    then show ?thesis
      using 2(2) [OF g refl Some s1 [symmetric] s2 [symmetric]] 2(4) shade_wf s1 s2 by metis
  qed
qed simp

subsection \<open>Marking computes reachability\<close>

lemma marked_in_new: "marked_in (MarkSet_with_slots n) = {}"
  by (auto simp: marked_in_def MarkSet_contains_def MarkSet_with_slots_def get_opt_def split: if_splits)

lemma mark_from_roots:
  assumes np: "hp_poison h = None" and fit: "length (hp_slots h) \<le> 2 ^ 32"
    and s: "shade h roots (MarkSet_with_slots (slot_capacity h)) [] = (m, w)"
  obtains m' where "drain ops scan h m w = Inr (h, m')" "ms_wf m'"
    "marked_in m' = reach h (\<lambda>v. trace ops v @ scan v) (set roots)"
proof -
  let ?succ = "\<lambda>v. trace ops v @ scan v"
  have M: "marked_in m = {k \<in> set roots. is_live h k}"
    using shade_marked [OF s] by (simp add: marked_in_new)
  have W: "set w = marked_in m"
    using shade_spec(2) [OF s] marked_in_new unfolding M by (auto simp: marked_in_def)
  obtain m' where d: "drain ops scan h m w = Inr (h, m')" "marked_in m' = reach h ?succ (marked_in m)"
    using drain_spec [OF np, of m w ops scan] M W by (auto simp: closed_but_def)
  have "ms_wf m'"
    using drain_wf [OF d(1)] shade_wf [OF s] ms_wf_new fit by (simp add: slot_capacity_def)
  moreover have "reach h ?succ (marked_in m) = reach h ?succ (set roots)"
    by (intro equalityI reach_mono) (auto simp: M intro: reach.root)
  ultimately show thesis using d that by simp
qed

lemma mark_exact:
  assumes "heap_inv h" "hp_poison h = None"
  shows "\<exists>m. mark ops h roots = Inr (h, m) \<and> marked_in m = reach h (trace ops) (set roots) \<and>
    MarkSet_len m = card (reach h (trace ops) (set roots)) \<and> set (MarkSet_iter m) = reach h (trace ops) (set roots)"
proof -
  obtain m0 w where s: "shade h roots (MarkSet_with_slots (slot_capacity h)) [] = (m0, w)" by fastforce
  obtain m where "drain ops (\<lambda>_. []) h m0 w = Inr (h, m)" "ms_wf m"
    "marked_in m = reach h (\<lambda>v. trace ops v @ []) (set roots)"
    using mark_from_roots [OF assms(2) _ s, of ops "\<lambda>_. []"] heap_invD(1) [OF assms(1)] by auto
  then show ?thesis
    using MarkSet_len_card MarkSet_contains_iter by (simp add: mark_def s)
qed

text \<open>Ephemerons: an entry keeps its value alive while its key is.\<close>

inductive_set reach_weak ::
  "('a, 'p) heap \<Rightarrow> ('a \<Rightarrow> handle list) \<Rightarrow> (handle \<times> handle) set \<Rightarrow> handle set \<Rightarrow> handle set"
  for h succs E roots where
  weak_root: "k \<in> roots \<Longrightarrow> is_live h k \<Longrightarrow> k \<in> reach_weak h succs E roots"
| weak_edge: "k \<in> reach_weak h succs E roots \<Longrightarrow> peek h k = Some v \<Longrightarrow> e \<in> set (succs v) \<Longrightarrow>
    is_live h e \<Longrightarrow> e \<in> reach_weak h succs E roots"
| weak_entry: "k \<in> reach_weak h succs E roots \<Longrightarrow> (k, v) \<in> E \<Longrightarrow> is_live h v \<Longrightarrow>
    v \<in> reach_weak h succs E roots"

definition expands :: "(('a, 'p) heap \<Rightarrow> (handle \<Rightarrow> bool) \<Rightarrow> handle list) \<Rightarrow> (handle \<times> handle) set \<Rightarrow> bool" where
  "expands expand E = (\<forall>h live. set (expand h live) = {v. \<exists>k. (k, v) \<in> E \<and> live k})"

lemma reach_weak_least:
  assumes "\<And>k. k \<in> roots \<Longrightarrow> is_live h k \<Longrightarrow> k \<in> M" "closed_but h succs {} M"
    "\<And>k v. k \<in> M \<Longrightarrow> (k, v) \<in> E \<Longrightarrow> is_live h v \<Longrightarrow> v \<in> M"
  shows "reach_weak h succs E roots \<subseteq> M"
proof
  fix k assume "k \<in> reach_weak h succs E roots"
  then show "k \<in> M"
  proof induction
    case (weak_edge k v e)
    then show ?case using assms(2) by (auto simp: closed_but_def)
  qed (use assms(1,3) in blast)+
qed

lemma reach_closed: "closed_but h succs {} (reach h succs R)"
  by (auto simp: closed_but_def intro: reach.edge)

lemma ephemeron_loop_spec:
  assumes "hp_poison h = None" "ms_wf m" "expands expand E"
    and "closed_but h (\<lambda>v. trace ops v @ scan v) {} (marked_in m)" "\<forall>k \<in> marked_in m. is_live h k"
  shows "\<exists>m'. ephemeron_loop ops scan expand h m = Inr (h, m') \<and> ms_wf m' \<and>
    marked_in m' = reach_weak h (\<lambda>v. trace ops v @ scan v) E (marked_in m)"
  using assms
proof (induction ops scan expand h m rule: ephemeron_loop.induct)
  case (1 ops scan expand h m)
  let ?succ = "\<lambda>v. trace ops v @ scan v"
  let ?R = "reach_weak h ?succ E (marked_in m)"
  let ?ex = "expand h (MarkSet_contains m)"
  have ex: "set ?ex = {v. \<exists>k \<in> marked_in m. (k, v) \<in> E}"
    using 1(4) by (auto simp: expands_def marked_in_def)
  obtain m1 w where s: "shade h ?ex m [] = (m1, w)" by fastforce
  have M1: "marked_in m1 = marked_in m \<union> {v. is_live h v \<and> (\<exists>k \<in> marked_in m. (k, v) \<in> E)}"
    using shade_marked [OF s 1(6)] ex by auto
  have W: "set w = {k \<in> set ?ex. is_live h k \<and> k \<notin> marked_in m}"
    using shade_spec(2) [OF s] by (auto simp: marked_in_def)
  have wf1: "ms_wf m1" using shade_wf [OF s 1(3)] .
  have base: "marked_in m \<subseteq> ?R" using 1(6) by (auto intro: reach_weak.weak_root)
  show ?case
  proof (cases "w = []")
    case True
    then have "marked_in m1 = marked_in m" using W M1 ex by auto
    moreover have "?R \<subseteq> marked_in m"
      by (rule reach_weak_least) (use 1(5) calculation M1 in auto)
    ultimately show ?thesis
      using base s True wf1 by (subst ephemeron_loop.simps) auto
  next
    case False
    have "k \<in> marked_in m" if "k \<in> marked_in m1" "k \<notin> set w" for k
      using that W ex by (auto simp: M1)
    moreover have live1: "\<forall>k \<in> marked_in m1. is_live h k" and sub1: "set w \<subseteq> marked_in m1"
      and "marked_in m \<subseteq> marked_in m1" using 1(6) W ex by (auto simp: M1)
    ultimately have c: "closed_but h ?succ (set w) (marked_in m1)"
      using 1(5) unfolding closed_but_def by blast
    obtain m2 where d: "drain ops scan h m1 w = Inr (h, m2)" "marked_in m2 = reach h ?succ (marked_in m1)"
      using drain_spec [OF 1(2) live1 sub1 c] by blast
    have "\<exists>m'. ephemeron_loop ops scan expand h m2 = Inr (h, m') \<and> ms_wf m' \<and>
        marked_in m' = reach_weak h ?succ E (marked_in m2)"
    proof (rule 1(1) [OF s [symmetric] False d(1) refl 1(2) _ 1(4)])
      show "ms_wf m2" using drain_wf [OF d(1) wf1] .
      show "closed_but h ?succ {} (marked_in m2)" unfolding d(2) by (rule reach_closed)
      show "\<forall>k \<in> marked_in m2. is_live h k" unfolding d(2) using reach_live by blast
    qed
    moreover have "reach_weak h ?succ E (marked_in m2) = ?R"
    proof
      have m1: "marked_in m1 \<subseteq> ?R" using base by (auto simp: M1 intro: reach_weak.weak_entry)
      have "reach h ?succ (marked_in m1) \<subseteq> ?R"
        using m1 by (intro reach_least) (auto simp: closed_but_def intro: reach_weak.weak_edge)
      then show "reach_weak h ?succ E (marked_in m2) \<subseteq> ?R"
        unfolding d(2) by (intro reach_weak_least)
          (auto simp: closed_but_def intro: reach_weak.weak_edge reach_weak.weak_entry)
      show "?R \<subseteq> reach_weak h ?succ E (marked_in m2)"
        unfolding d(2) using 1(6) by (intro reach_weak_least)
          (auto simp: closed_but_def M1 intro: reach_weak.weak_root reach_weak.weak_edge reach_weak.weak_entry reach.root)
    qed
    ultimately show ?thesis
      using s False d(1) by (subst ephemeron_loop.simps) simp
  qed
qed

text \<open>The number of live objects.\<close>

definition live_set :: "('a, 'p) heap \<Rightarrow> handle set" where
  "live_set h = {k. is_live h k}"

lemma len_card:
  assumes "heap_inv h"
  shows "len h = card (live_set h)"
proof -
  let ?I = "{i. i < length (hp_slots h) \<and> slot_is_live (hp_slots h ! i)}"
  have "live_set h = (\<lambda>i. slot_handle i (hp_slots h ! i)) ` ?I"
  proof (intro set_eqI iffI)
    fix k assume "k \<in> live_set h"
    then have "unat (h_index k) \<in> ?I" "k = slot_handle (unat (h_index k)) (hp_slots h ! unat (h_index k))"
      by (auto simp: live_set_def is_live_def get_opt_def slot_handle_def split: if_splits)
    then show "k \<in> (\<lambda>i. slot_handle i (hp_slots h ! i)) ` ?I" by blast
  next
    fix k assume "k \<in> (\<lambda>i. slot_handle i (hp_slots h ! i)) ` ?I"
    then show "k \<in> live_set h"
      using heap_invD(1) [OF assms] by (auto simp: live_set_def is_live_def)
  qed
  moreover have "inj_on (\<lambda>i. slot_handle i (hp_slots h ! i)) ?I"
    using heap_invD(1) [OF assms] by (auto simp: inj_on_def handle_eq_iff of_nat_u32_inject)
  ultimately show ?thesis
    using heap_invD(7) [OF assms] by (simp add: card_image live_count_def length_filter_conv_card)
qed

text \<open>C6: marking with ephemerons terminates and marks exactly the least set that contains the live roots
  and is closed under the traced edges, the rescanned edges and the entries whose key is marked: an
  ephemeron keeps its value alive while its key is alive, and only then.\<close>

theorem ephemerons_correct:
  assumes "heap_inv h" "hp_poison h = None" "expands expand E"
  shows "\<exists>m. mark_with_ephemerons_scan ops h roots scan expand = Inr (h, m) \<and>
    marked_in m = reach_weak h (\<lambda>v. trace ops v @ scan v) E (set roots) \<and>
    MarkSet_len m = card (reach_weak h (\<lambda>v. trace ops v @ scan v) E (set roots))"
proof -
  let ?succ = "\<lambda>v. trace ops v @ scan v"
  obtain m0 w where s: "shade h roots (MarkSet_with_slots (slot_capacity h)) [] = (m0, w)" by fastforce
  obtain m where d: "drain ops scan h m0 w = Inr (h, m)" "ms_wf m" "marked_in m = reach h ?succ (set roots)"
    using mark_from_roots [OF assms(2) _ s, of ops scan] heap_invD(1) [OF assms(1)] by auto
  have cl: "closed_but h ?succ {} (marked_in m)" unfolding d(3) by (rule reach_closed)
  have lv: "\<forall>k \<in> marked_in m. is_live h k" unfolding d(3) using reach_live by blast
  obtain m' where e: "ephemeron_loop ops scan expand h m = Inr (h, m')" "ms_wf m'"
    "marked_in m' = reach_weak h ?succ E (marked_in m)"
    using ephemeron_loop_spec [OF assms(2) d(2) assms(3) cl lv] by blast
  have "reach_weak h ?succ E (reach h ?succ (set roots)) = reach_weak h ?succ E (set roots)"
  proof
    have "reach h ?succ (set roots) \<subseteq> reach_weak h ?succ E (set roots)"
      by (rule reach_least) (auto simp: closed_but_def intro: reach_weak.intros)
    then show "reach_weak h ?succ E (reach h ?succ (set roots)) \<subseteq> reach_weak h ?succ E (set roots)"
      by (intro reach_weak_least) (auto simp: closed_but_def intro: reach_weak.intros)
    show "reach_weak h ?succ E (set roots) \<subseteq> reach_weak h ?succ E (reach h ?succ (set roots))"
      by (intro reach_weak_least) (auto simp: closed_but_def intro: reach_weak.intros reach.root)
  qed
  then show ?thesis
    using e d(3) MarkSet_len_card [OF e(2)] by (simp add: mark_with_ephemerons_scan_def s d(1))
qed

lemma collect_exact:
  assumes inv: "heap_inv h" and np: "hp_poison h = None"
  shows "\<exists>st h'. collect ops h roots = Inr (st, h') \<and> heap_inv h' \<and>
    (\<forall>k. peek h' k = (if k \<in> reach h (trace ops) (set roots) then peek h k else None)) \<and>
    len h' = card (reach h (trace ops) (set roots)) \<and> st_marked st = len h' \<and> st_swept st = len h - len h' \<and>
    (\<forall>k. \<not> is_young h' k)"
proof -
  let ?R = "reach h (trace ops) (set roots)"
  obtain m where m: "mark ops h roots = Inr (h, m)" "marked_in m = ?R" "MarkSet_len m = card ?R"
    using mark_exact [OF inv np] by blast
  obtain n h' where s: "sweep ops h (\<lambda>k _. MarkSet_contains m k) (interior_mutable ops) = (n, h')" by fastforce
  note e = sweep_effect [OF inv s]
  have c: "MarkSet_contains m k \<longleftrightarrow> k \<in> ?R" for k using m(2) by (auto simp: marked_in_def)
  have pk: "peek h' k = (if k \<in> ?R then peek h k else None)" for k
    using e(2) [of k] np by (simp add: c split: option.splits)
  have "live_set h' = ?R"
    unfolding live_set_def is_live_peek pk using reach_live [of _ h "trace ops" "set roots"] by (auto simp: is_live_peek)
  then have "len h' = card ?R" using len_card [OF e(1)] by simp
  moreover have "card ?R \<le> len h"
    using len_card [OF inv] finite_live [of h] reach_live [of _ h "trace ops" "set roots"]
    by (auto simp: live_set_def intro!: card_mono)
  moreover have "n \<le> len h"
    using sweep_parts(4) [OF inv s] doomed_count heap_invD(7) [OF inv] by metis
  ultimately show ?thesis
    using m s e(1,4,5) pk np by (simp add: collect_def)
qed

text \<open>C7: a full collection keeps exactly the objects reachable from the roots: every reachable handle
  resolves to its value and every other handle is stale, the counts it reports are those of the table, every
  survivor is old, and the table stays well formed.\<close>

theorem collect_correct:
  assumes "heap_inv h" "hp_poison h = None"
  shows "\<exists>st h'. collect ops h roots = Inr (st, h') \<and> heap_inv h' \<and>
    (\<forall>k. peek h' k = (if k \<in> reach h (trace ops) (set roots) then peek h k else None)) \<and>
    len h' = card (reach h (trace ops) (set roots)) \<and> st_marked st = len h' \<and> st_swept st = len h - len h' \<and>
    (\<forall>k. \<not> is_young h' k)"
  by (rule collect_exact [OF assms])

end
