(* ===== verification/GcMinor.thy ===== *)
theory GcMinor
  imports GcLaws
begin

text \<open>
  Minor collections. Marking promotes, so the set of marked objects is the set of live objects that
  are not young; under the generational invariant it is everything reachable from the roots and
  from the old generation, and the sweep frees exactly the young objects outside it.
\<close>

subsection \<open>Promotion\<close>

definition same_but_age :: "('a, 'p) heap \<Rightarrow> ('a, 'p) heap \<Rightarrow> bool" where
  "same_but_age h h' = (h' = h\<lparr>hp_slots := hp_slots h'\<rparr> \<and>
     map (\<lambda>s. s\<lparr>s_age := 0\<rparr>) (hp_slots h') = map (\<lambda>s. s\<lparr>s_age := 0\<rparr>) (hp_slots h))"

lemma same_but_age_refl [simp]: "same_but_age h h"
  by (simp add: same_but_age_def)

lemma same_but_age_trans: "same_but_age h h1 \<Longrightarrow> same_but_age h1 h2 \<Longrightarrow> same_but_age h h2"
  unfolding same_but_age_def by (metis heap.surjective heap.update_convs(1))

lemma same_but_ageD:
  assumes "same_but_age h h'"
  shows "length (hp_slots h') = length (hp_slots h)"
    and "i < length (hp_slots h) \<Longrightarrow> s_value (hp_slots h' ! i) = s_value (hp_slots h ! i) \<and>
      s_generation (hp_slots h' ! i) = s_generation (hp_slots h ! i) \<and> s_dirty (hp_slots h' ! i) = s_dirty (hp_slots h ! i) \<and>
      scan_from (hp_slots h' ! i) = scan_from (hp_slots h ! i)"
    and "peek h' = peek h" "is_live h' = is_live h" "hp_poison h' = hp_poison h" "hp_remembered h' = hp_remembered h"
    and "remembered_from h' = remembered_from h" "live_handle_at h' = live_handle_at h"
    and "hp_free h' = hp_free h" "hp_free_top h' = hp_free_top h" "hp_young_floor h' = hp_young_floor h"
    and "hp_allocs_since_gc h' = hp_allocs_since_gc h" "hp_live h' = hp_live h" "hp_counted h' = hp_counted h"
    and "hp_compact_gen h' = hp_compact_gen h"
proof -
  have h': "h' = h\<lparr>hp_slots := hp_slots h'\<rparr>"
    and m: "map (\<lambda>s. s\<lparr>s_age := 0\<rparr>) (hp_slots h') = map (\<lambda>s. s\<lparr>s_age := 0\<rparr>) (hp_slots h)"
    using assms by (auto simp: same_but_age_def)
  show len: "length (hp_slots h') = length (hp_slots h)" using map_eq_imp_length_eq [OF m] .
  have s: "(hp_slots h' ! i)\<lparr>s_age := 0\<rparr> = (hp_slots h ! i)\<lparr>s_age := 0\<rparr>" if "i < length (hp_slots h)" for i
    using m that len by (metis nth_map)
  show fields: "s_value (hp_slots h' ! i) = s_value (hp_slots h ! i) \<and>
      s_generation (hp_slots h' ! i) = s_generation (hp_slots h ! i) \<and> s_dirty (hp_slots h' ! i) = s_dirty (hp_slots h ! i) \<and>
      scan_from (hp_slots h' ! i) = scan_from (hp_slots h ! i)" if "i < length (hp_slots h)" for i
    using arg_cong [OF s [OF that], of s_value] arg_cong [OF s [OF that], of s_generation]
      arg_cong [OF s [OF that], of s_dirty] arg_cong [OF s [OF that], of s_scan_lo]
      arg_cong [OF s [OF that], of s_scan_hi] by (simp add: scan_from_def)
  show "peek h' = peek h" "is_live h' = is_live h" "remembered_from h' = remembered_from h"
    "live_handle_at h' = live_handle_at h"
    using len fields by (auto simp: fun_eq_iff peek_def is_live_def slot_get_def get_opt_def slot_is_live_def
        remembered_from_def live_handle_at_def)
  show "hp_poison h' = hp_poison h" "hp_remembered h' = hp_remembered h" "hp_free h' = hp_free h"
    "hp_free_top h' = hp_free_top h" "hp_young_floor h' = hp_young_floor h"
    "hp_allocs_since_gc h' = hp_allocs_since_gc h" "hp_live h' = hp_live h" "hp_counted h' = hp_counted h"
    "hp_compact_gen h' = hp_compact_gen h"
    by (subst h', simp)+
qed

lemma promote_young_same:
  assumes "promote_young h k = (b, h')"
  shows "same_but_age h h'"
proof -
  have "(map (\<lambda>s. s\<lparr>s_age := 0\<rparr>) xs)[i := (xs ! i)\<lparr>s_age := 0\<rparr>] = map (\<lambda>s. s\<lparr>s_age := 0\<rparr>) xs"
    if "i < length xs" for i and xs :: "'a slot list"
    using that by (metis list_update_id nth_map)
  then show ?thesis
    using assms by (auto simp: promote_young_def same_but_age_def Let_def get_opt_eq_Some map_update
        split: option.splits if_splits)
qed

lemma heap_inv_promote:
  assumes "promote_young h k = (b, h')" "heap_inv (h\<lparr>hp_remembered := r\<rparr>)"
  shows "heap_inv (h'\<lparr>hp_remembered := r\<rparr>)"
proof (cases "is_young h k")
  case True
  let ?i = "unat (h_index k)"
  let ?s = "hp_slots h ! ?i"
  have s: "?i < length (hp_slots h)" "slot_is_live ?s" "s_age ?s < OLD_AGE"
    and h': "h' = h\<lparr>hp_slots := (hp_slots h)[?i := ?s\<lparr>s_age := OLD_AGE\<rparr>]\<rparr>"
    using True assms(1) by (auto simp: promote_young_def is_young_def Let_def get_opt_def split: if_splits)
  have "slot_inv ?s" using assms(2) s(1) by (simp add: heap_inv_def)
  then have "slot_inv (?s\<lparr>s_age := OLD_AGE\<rparr>)" "s_dirty ?s = CLEAN"
    using s by (auto simp: slot_inv_def slot_is_live_def)
  moreover have "reusable (?s\<lparr>s_age := OLD_AGE\<rparr>) = reusable ?s"
    "slot_young (?s\<lparr>s_age := OLD_AGE\<rparr>) \<longrightarrow> slot_young ?s" "slot_is_live (?s\<lparr>s_age := OLD_AGE\<rparr>)"
    using s by (auto simp: reusable_def slot_young_def slot_is_live_def)
  moreover have "live_count ((hp_slots h)[?i := ?s\<lparr>s_age := OLD_AGE\<rparr>]) = live_count (hp_slots h)"
    using live_count_update [OF s(1)] s(2) calculation(5) by simp
  moreover have "Ball (set ((hp_slots h)[?i := ?s\<lparr>s_age := OLD_AGE\<rparr>])) slot_inv"
    using assms(2) calculation(1) by (intro slot_inv_update) (auto simp: heap_inv_def)
  ultimately show ?thesis
    using assms(2) s(1) unfolding h' heap_inv_def
    by (simp add: free_ok_same_reusable young_ok_update remembered_ok_same_dirty len_def)
next
  case False
  then show ?thesis using assms by (auto simp: promote_young_def is_young_def Let_def split: option.splits if_splits)
qed

definition minor_marked :: "('a, 'p) heap \<Rightarrow> handle set" where
  "minor_marked h = {k. is_live h k \<and> \<not> is_young h k}"

lemma MinorLive_marked: "MinorLive_contains h k \<longleftrightarrow> k \<in> minor_marked h"
  by (auto simp: MinorLive_contains_def minor_marked_def age_def is_live_def is_young_def split: option.splits)

lemma promote_all_inv:
  assumes "promote_all h es w n = (h', w', n')"
  shows "same_but_age h h'" "heap_inv (h\<lparr>hp_remembered := r\<rparr>) \<Longrightarrow> heap_inv (h'\<lparr>hp_remembered := r\<rparr>)"
    "minor_marked h' = minor_marked h \<union> {e \<in> set es. is_live h e}"
    "\<exists>new. w' = new @ w \<and> n' = n + length new \<and> distinct new \<and> set new = minor_marked h' - minor_marked h"
proof -
  have "same_but_age h h' \<and> (heap_inv (h\<lparr>hp_remembered := r\<rparr>) \<longrightarrow> heap_inv (h'\<lparr>hp_remembered := r\<rparr>))"
    using assms
  proof (induction es arbitrary: h w n)
    case (Cons e es)
    obtain b h1 where p: "promote_young h e = (b, h1)" by fastforce
    have "promote_all h1 es (if b then e # w else w) (if b then n + 1 else n) = (h', w', n')"
      using Cons.prems p by simp
    then show ?case
      using Cons.IH promote_young_same [OF p] heap_inv_promote [OF p] same_but_age_trans by blast
  qed simp
  then show "same_but_age h h'" "heap_inv (h\<lparr>hp_remembered := r\<rparr>) \<Longrightarrow> heap_inv (h'\<lparr>hp_remembered := r\<rparr>)"
    by auto
  note sp = promote_all_spec [OF assms]
  have y: "is_young h' k \<longleftrightarrow> is_young h k \<and> k \<notin> set es" for k
    using sp(1) by (auto simp: young_set_def)
  show m: "minor_marked h' = minor_marked h \<union> {e \<in> set es. is_live h e}"
    using sp(2) is_young_live by (auto simp: minor_marked_def y)
  have "set es \<inter> young_set h = minor_marked h' - minor_marked h"
    unfolding m using is_young_live by (auto simp: minor_marked_def young_set_def)
  then show "\<exists>new. w' = new @ w \<and> n' = n + length new \<and> distinct new \<and> set new = minor_marked h' - minor_marked h"
    using sp(4) by simp
qed

text \<open>What every phase of minor marking keeps: only ages change, and the table stays well formed once
  the remembered list is put back.\<close>

definition promoted :: "u32 list \<Rightarrow> ('a, 'p) heap \<Rightarrow> ('a, 'p) heap \<Rightarrow> bool" where
  "promoted r h h' = (same_but_age h h' \<and> (heap_inv (h\<lparr>hp_remembered := r\<rparr>) \<longrightarrow> heap_inv (h'\<lparr>hp_remembered := r\<rparr>)))"

lemma promoted_refl [simp]: "promoted r h h"
  by (simp add: promoted_def)

lemma promoted_trans: "promoted r h h1 \<Longrightarrow> promoted r h1 h2 \<Longrightarrow> promoted r h h2"
  using same_but_age_trans by (auto simp: promoted_def)

lemma promote_all_promoted: "promote_all h es w n = (h', w', n') \<Longrightarrow> promoted r h h'"
  using promote_all_inv(1,2) by (auto simp: promoted_def)

lemma promoted_reach:
  assumes "promoted r h h'"
  shows "reach h' S R = reach h S R" "closed_but h' S G M = closed_but h S G M" "is_live h' = is_live h" "peek h' = peek h"
    "reach_weak h' S E R = reach_weak h S E R"
proof -
  show l: "is_live h' = is_live h" "peek h' = peek h"
    using assms same_but_ageD by (auto simp: promoted_def)
  show "closed_but h' S G M = closed_but h S G M" by (simp add: closed_but_def l)
  have "reach h1 S R \<subseteq> reach h2 S R" if "is_live h1 = is_live h2" "peek h1 = peek h2"
    for h1 h2 :: "('a, 'b) heap"
    using that by (intro reach_least) (auto simp: closed_but_def intro: reach.intros)
  from this [of h h'] this [of h' h] show "reach h' S R = reach h S R" using l by auto
  have "reach_weak h1 S E R \<subseteq> reach_weak h2 S E R" if "is_live h1 = is_live h2" "peek h1 = peek h2"
    for h1 h2 :: "('a, 'b) heap"
    using that by (intro reach_weak_least) (auto simp: closed_but_def intro: reach_weak.intros)
  from this [of h h'] this [of h' h] show "reach_weak h' S E R = reach_weak h S E R" using l by auto
qed

lemma card_Diff_chain:
  "A \<subseteq> B \<Longrightarrow> B \<subseteq> C \<Longrightarrow> finite C \<Longrightarrow> card (C - A) = card (C - B) + card (B - A)"
  by (subst card_Un_disjoint [symmetric]) (auto intro: finite_subset arg_cong [of _ _ card])

lemma finite_minor_marked: "finite (minor_marked h)"
  by (rule finite_subset [OF _ finite_live [of h]]) (auto simp: minor_marked_def)

lemma minor_drain_spec:
  assumes "hp_poison h = None" "set w \<subseteq> minor_marked h"
    "closed_but h (\<lambda>v. trace ops v @ scan v) (set w) (minor_marked h)"
  shows "\<exists>h' n'. minor_drain ops scan h w n = Inr (h', n') \<and> promoted r h h' \<and>
    minor_marked h' = reach h (\<lambda>v. trace ops v @ scan v) (minor_marked h) \<and>
    n' = n + card (minor_marked h' - minor_marked h)"
  using assms
proof (induction ops scan h w n rule: minor_drain.induct)
  case (1 ops scan h n)
  have "minor_marked h \<subseteq> reach h (\<lambda>v. trace ops v @ scan v) (minor_marked h)"
    by (auto simp: minor_marked_def intro: reach.root)
  moreover have "reach h (\<lambda>v. trace ops v @ scan v) (minor_marked h) \<subseteq> minor_marked h"
    using 1(3) by (intro reach_least) auto
  ultimately show ?case by auto
next
  case (2 ops scan h hn w n)
  let ?succ = "\<lambda>v. trace ops v @ scan v"
  have g: "get h hn = Inr (peek h hn, h)" using 2(2) by (simp add: get_def)
  have hn: "hn \<in> minor_marked h" "is_live h hn" using 2(3) by (auto simp: minor_marked_def)
  then obtain v where v: "peek h hn = Some v" by (auto simp: is_live_peek)
  obtain h1 w1 n1 where p: "promote_all h (?succ v) w n = (h1, w1, n1)" by (metis prod_cases3)
  note M = promote_all_inv(3) [OF p]
  obtain new where new: "w1 = new @ w" "n1 = n + length new" "distinct new" "set new = minor_marked h1 - minor_marked h"
    using promote_all_inv(4) [OF p] by blast
  have pr: "promoted r h h1" using promote_all_promoted [OF p] .
  note pr' = promoted_reach [OF pr]
  have "e \<in> minor_marked h1"
    if k: "k \<in> minor_marked h1" "k \<notin> set w1" and e: "peek h k = Some u" "e \<in> set (?succ u)" "is_live h e" for k u e
  proof (cases "k = hn")
    case True
    with e v show ?thesis by (simp add: M)
  next
    case False
    have "k \<in> minor_marked h" "k \<notin> set (hn # w)" using k False new by auto
    then show ?thesis using 2(4) e unfolding closed_but_def M by blast
  qed
  then have c: "closed_but h1 ?succ (set w1) (minor_marked h1)"
    unfolding closed_but_def pr' by blast
  have sub: "set w1 \<subseteq> minor_marked h1" using 2(3) new M by auto
  have np: "hp_poison h1 = None" using pr 2(2) same_but_ageD(5) by (metis promoted_def)
  have p': "promote_all h (case peek h hn of None \<Rightarrow> [] | Some v \<Rightarrow> ?succ v) w n = (h1, w1, n1)"
    using p v by simp
  obtain h' n' where d: "minor_drain ops scan h1 w1 n1 = Inr (h', n')" "promoted r h1 h'"
    "minor_marked h' = reach h1 ?succ (minor_marked h1)" "n' = n1 + card (minor_marked h' - minor_marked h1)"
    using 2(1) [OF g refl p' [symmetric] refl np sub c] by blast
  have R: "reach h ?succ (minor_marked h1) = reach h ?succ (minor_marked h)"
  proof
    have hr: "hn \<in> reach h ?succ (minor_marked h)" using hn by (auto intro: reach.root)
    show "reach h ?succ (minor_marked h1) \<subseteq> reach h ?succ (minor_marked h)"
      by (rule reach_mono) (auto simp: M intro: reach.root reach.edge [OF hr v])
    show "reach h ?succ (minor_marked h) \<subseteq> reach h ?succ (minor_marked h1)"
      by (rule reach_mono) (auto simp: M intro: reach.root)
  qed
  have "minor_marked h1 \<subseteq> minor_marked h'"
    unfolding d(3) by (auto simp: minor_marked_def intro: reach.root)
  moreover have "minor_marked h \<subseteq> minor_marked h1" by (auto simp: M)
  ultimately have "card (minor_marked h' - minor_marked h) =
      card (minor_marked h' - minor_marked h1) + card (minor_marked h1 - minor_marked h)"
    by (intro card_Diff_chain finite_minor_marked)
  then have "n' = n + card (minor_marked h' - minor_marked h)"
    using d(4) new distinct_card [OF new(3)] by simp
  then show ?case
    using g p' d R pr'(1) promoted_trans [OF pr d(2)] by auto
qed

lemma minor_loop_spec:
  assumes "hp_poison h = None" "set w \<subseteq> minor_marked h" "expands expand E"
    "closed_but h (\<lambda>v. trace ops v @ scan v) (set w) (minor_marked h)"
  shows "\<exists>h' n'. minor_loop ops scan expand h w n = Inr (h', n') \<and> promoted r h h' \<and>
    minor_marked h' = reach_weak h (\<lambda>v. trace ops v @ scan v) E (minor_marked h) \<and>
    n' = n + card (minor_marked h' - minor_marked h)"
  using assms
proof (induction ops scan expand h w n rule: minor_loop.induct)
  case (1 ops scan expand h w n)
  let ?succ = "\<lambda>v. trace ops v @ scan v"
  let ?R = "reach_weak h ?succ E (minor_marked h)"
  obtain h1 n1 where d: "minor_drain ops scan h w n = Inr (h1, n1)" "promoted r h h1"
    "minor_marked h1 = reach h ?succ (minor_marked h)" "n1 = n + card (minor_marked h1 - minor_marked h)"
    using minor_drain_spec [OF 1(2,3,5)] by blast
  note pr1 = promoted_reach [OF d(2)]
  let ?ex = "expand h1 (MinorLive_contains h1)"
  have ex: "set ?ex = {v. \<exists>k \<in> minor_marked h1. (k, v) \<in> E}"
    using 1(4) by (auto simp: expands_def MinorLive_marked)
  obtain h2 w2 n2 where p: "promote_all h1 ?ex [] n1 = (h2, w2, n2)" by (metis prod_cases3)
  note M = promote_all_inv(3) [OF p, unfolded ex pr1(3)]
  obtain W: "n2 = n1 + length w2" "distinct w2" "set w2 = minor_marked h2 - minor_marked h1"
    using promote_all_inv(4) [OF p] by auto
  have pr2: "promoted r h h2" using promoted_trans [OF d(2) promote_all_promoted [OF p]] .
  note pr2' = promoted_reach [OF pr2]
  have base: "minor_marked h1 \<subseteq> ?R"
    unfolding d(3) by (rule reach_least) (auto simp: closed_but_def minor_marked_def intro: reach_weak.intros)
  have up: "minor_marked h \<subseteq> minor_marked h1"
    unfolding d(3) by (auto simp: minor_marked_def intro: reach.root)
  have closed: "closed_but h ?succ {} (minor_marked h1)" unfolding d(3) by (rule reach_closed)
  show ?case
  proof (cases "w2 = []")
    case True
    then have same: "minor_marked h2 = minor_marked h1" using W(3) M by auto
    have "?R \<subseteq> minor_marked h1"
      by (rule reach_weak_least [OF _ closed]) (use up same M in auto)
    then show ?thesis
      using base d(1,4) p True pr2 same W(1) by (subst minor_loop.simps) auto
  next
    case False
    have sub: "set w2 \<subseteq> minor_marked h2" "minor_marked h1 \<subseteq> minor_marked h2" using W(3) by (auto simp: M)
    then have c: "closed_but h2 ?succ (set w2) (minor_marked h2)"
      using closed W(3) unfolding pr2' closed_but_def by blast
    have np: "hp_poison h2 = None" using pr2 1(2) same_but_ageD(5) by (metis promoted_def)
    obtain h' n' where l: "minor_loop ops scan expand h2 w2 n2 = Inr (h', n')" "promoted r h2 h'"
      "minor_marked h' = reach_weak h2 ?succ E (minor_marked h2)" "n' = n2 + card (minor_marked h' - minor_marked h2)"
      using 1(1) [OF d(1) refl p [symmetric] refl False np sub(1) 1(4) c] by blast
    have R: "reach_weak h2 ?succ E (minor_marked h2) = ?R"
      unfolding pr2'(5)
    proof
      have "minor_marked h2 \<subseteq> ?R" using base by (auto simp: M intro: reach_weak.weak_entry)
      then show "reach_weak h ?succ E (minor_marked h2) \<subseteq> ?R"
        by (intro reach_weak_least) (auto simp: closed_but_def intro: reach_weak.intros)
      show "?R \<subseteq> reach_weak h ?succ E (minor_marked h2)"
        using up sub(2) by (intro reach_weak_least) (auto simp: closed_but_def intro: reach_weak.intros)
    qed
    have "minor_marked h2 \<subseteq> minor_marked h'"
      unfolding l(3) by (auto simp: minor_marked_def intro: reach_weak.weak_root)
    then have "n' = n + card (minor_marked h' - minor_marked h)"
      using l(4) W d(4) distinct_card [OF W(2)] card_Diff_chain [OF up sub(2) finite_minor_marked]
        card_Diff_chain [OF subset_trans [OF up sub(2)] _ finite_minor_marked, of h'] by simp
    then show ?thesis
      using d(1) p False l R promoted_trans [OF pr2 l(2)] by (subst minor_loop.simps) auto
  qed
qed

definition rescan_edges :: "('a, 'p) trace_ops \<Rightarrow> ('a \<Rightarrow> handle list) \<Rightarrow> ('a, 'p) heap \<Rightarrow> u32 \<Rightarrow> handle list" where
  "rescan_edges ops scan h i = (case Option.bind (live_handle_at h i) (peek h) of
     None \<Rightarrow> []
   | Some obj \<Rightarrow> (if remembered_from h i = 0 then trace ops obj else trace_tail ops obj (remembered_from h i)) @ scan obj)"

lemma rescan_spec:
  assumes "rescan ops scan h is w n = (h', w', n')"
  shows "promoted r h h'" "minor_marked h' = minor_marked h \<union> {e. is_live h e \<and> (\<exists>i \<in> set is. e \<in> set (rescan_edges ops scan h i))}"
    "\<exists>new. w' = new @ w \<and> n' = n + length new \<and> distinct new \<and> set new = minor_marked h' - minor_marked h"
proof -
  have "promoted r h h' \<and> minor_marked h' = minor_marked h \<union> {e. is_live h e \<and> (\<exists>i \<in> set is. e \<in> set (rescan_edges ops scan h i))} \<and>
    (\<exists>new. w' = new @ w \<and> n' = n + length new \<and> distinct new \<and> set new = minor_marked h' - minor_marked h)"
    using assms
  proof (induction "is" arbitrary: h w n)
    case (Cons i "is")
    obtain h1 w1 n1 where p: "promote_all h (rescan_edges ops scan h i) w n = (h1, w1, n1)" by (metis prod_cases3)
    have rr: "rescan ops scan h1 is w1 n1 = (h', w', n')"
      using Cons.prems p by (simp add: rescan_edges_def Let_def)
    have pr: "promoted r h h1" using promote_all_promoted [OF p] .
    have sb: "same_but_age h h1" using pr by (simp add: promoted_def)
    have "rescan_edges ops scan h1 j = rescan_edges ops scan h j" for j
      by (simp only: rescan_edges_def same_but_ageD(3,7,8) [OF sb])
    then have same: "rescan_edges ops scan h1 = rescan_edges ops scan h" "is_live h1 = is_live h"
      using same_but_ageD(4) [OF sb] by auto
    note M = promote_all_inv(3) [OF p]
    note IH = Cons.IH [OF rr, unfolded same]
    obtain new1 where n1: "w1 = new1 @ w" "n1 = n + length new1" "distinct new1" "set new1 = minor_marked h1 - minor_marked h"
      using promote_all_inv(4) [OF p] by blast
    obtain new2 where n2: "w' = new2 @ w1" "n' = n1 + length new2" "distinct new2" "set new2 = minor_marked h' - minor_marked h1"
      using IH by blast
    have up: "minor_marked h \<subseteq> minor_marked h1" "minor_marked h1 \<subseteq> minor_marked h'"
      using IH by (auto simp: M)
    have "\<exists>new. w' = new @ w \<and> n' = n + length new \<and> distinct new \<and> set new = minor_marked h' - minor_marked h"
      using n1 n2 up by (intro exI [of _ "new2 @ new1"]) auto
    then show ?case using IH promoted_trans [OF pr] M by auto
  qed simp
  then show "promoted r h h'" "minor_marked h' = minor_marked h \<union> {e. is_live h e \<and> (\<exists>i \<in> set is. e \<in> set (rescan_edges ops scan h i))}"
    "\<exists>new. w' = new @ w \<and> n' = n + length new \<and> distinct new \<and> set new = minor_marked h' - minor_marked h"
    by blast+
qed

subsection \<open>The generational invariant\<close>

text \<open>An old object outside the remembered set refers to no young one and is not interior-mutable; one
  remembered only for what was appended to it refers to none before its scan position.\<close>

definition old_slot_ok :: "('a, 'p) trace_ops \<Rightarrow> ('a \<Rightarrow> handle list) \<Rightarrow> ('a, 'p) heap \<Rightarrow> 'a slot \<Rightarrow> bool" where
  "old_slot_ok ops scan h s = (case s_value s of
       None \<Rightarrow> True
     | Some v \<Rightarrow>
         if s_age s < OLD_AGE then True
         else if s_dirty s = APPENDED then list_all (\<lambda>e. \<not> is_young h e) (trace_head ops v (scan_from s))
         else if s_dirty s \<noteq> CLEAN then True
         else \<not> interior_mutable ops v \<and> list_all (\<lambda>e. \<not> is_young h e) (trace ops v @ scan v))"

definition gen_inv :: "('a, 'p) trace_ops \<Rightarrow> ('a \<Rightarrow> handle list) \<Rightarrow> ('a, 'p) heap \<Rightarrow> bool" where
  "gen_inv ops scan h = list_all (old_slot_ok ops scan h) (hp_slots h)"

text \<open>What the \<open>Trace\<close> trait asks of \<open>trace_tail\<close> and \<open>trace_head\<close>: together they visit what \<open>trace\<close>
  visits and nothing else, and a longer head visits no less.\<close>

definition trace_splits :: "('a, 'p) trace_ops \<Rightarrow> bool" where
  "trace_splits ops = (\<forall>v n. set (trace ops v) \<subseteq> set (trace_head ops v n) \<union> set (trace_tail ops v n) \<and>
     set (trace_tail ops v n) \<subseteq> set (trace ops v) \<and> set (trace_head ops v n) \<subseteq> set (trace ops v) \<and>
     (\<forall>m \<ge> n. set (trace_head ops v n) \<subseteq> set (trace_head ops v m)))"

lemma trace_splitsD:
  assumes "trace_splits ops"
  shows "e \<in> set (trace ops v) \<Longrightarrow> e \<in> set (trace_head ops v n) \<or> e \<in> set (trace_tail ops v n)"
    "e \<in> set (trace_tail ops v n) \<Longrightarrow> e \<in> set (trace ops v)"
    "e \<in> set (trace_head ops v n) \<Longrightarrow> e \<in> set (trace ops v)"
    "e \<in> set (trace_head ops v n) \<Longrightarrow> n \<le> m \<Longrightarrow> e \<in> set (trace_head ops v m)"
  using assms unfolding trace_splits_def by blast+

lemma rescan_edges_sub:
  assumes "trace_splits ops" "e \<in> set (rescan_edges ops scan h i)"
  obtains k v where "peek h k = Some v" "h_index k = i" "e \<in> set (trace ops v @ scan v)"
proof (cases "live_handle_at h i")
  case None
  then show ?thesis using assms(2) by (simp add: rescan_edges_def)
next
  case (Some k)
  then have i: "h_index k = i" by (auto simp: live_handle_at_def split: option.splits if_splits)
  obtain v where v: "peek h k = Some v"
    using assms(2) Some by (cases "peek h k") (auto simp: rescan_edges_def)
  then have "e \<in> set (trace ops v @ scan v)"
    using assms(2) Some trace_splitsD(2) [OF assms(1)] by (auto simp: rescan_edges_def split: if_splits)
  then show ?thesis using that i v by blast
qed

lemma gen_inv_edges:
  assumes inv: "heap_inv h" and gi: "gen_inv ops scan h" and ts: "trace_splits ops"
    and k: "is_live h k" "\<not> is_young h k" "peek h k = Some v" "e \<in> set (trace ops v @ scan v)" "is_young h e"
  shows "h_index k \<in> set (hp_remembered h)" "e \<in> set (rescan_edges ops scan h (h_index k))"
proof -
  let ?i = "unat (h_index k)"
  let ?s = "hp_slots h ! ?i"
  have s: "?i < length (hp_slots h)" "s_generation ?s = h_generation k" "s_value ?s = Some v"
    using k(3) by (auto simp: peek_Some)
  have old: "\<not> s_age ?s < OLD_AGE" using k(2) s by (auto simp: is_young_def slot_is_live_def)
  have ok: "old_slot_ok ops scan h ?s" using gi s(1) by (simp add: gen_inv_def list_all_length)
  have nc: "s_dirty ?s \<noteq> CLEAN"
    using ok old s(3) k(4,5) by (auto simp: old_slot_ok_def list_all_iff dirty_defs split: if_splits)
  then show "h_index k \<in> set (hp_remembered h)"
    using heap_invD(4) [OF inv] s(1) by (simp add: remembered_ok_def)
  have at: "Option.bind (live_handle_at h (h_index k)) (peek h) = Some v"
    using s by (simp add: live_handle_at_def slot_is_live_def peek_Some)
  show "e \<in> set (rescan_edges ops scan h (h_index k))"
  proof (cases "s_dirty ?s = APPENDED")
    case True
    have "e \<notin> set (trace_head ops v (scan_from ?s))"
      using ok old s(3) k(5) True by (auto simp: old_slot_ok_def list_all_iff)
    then have "e \<in> set (trace_tail ops v (scan_from ?s) @ scan v)"
      using trace_splitsD(1) [OF ts] k(4) by auto
    then show ?thesis
      using k(4) s(1) True at by (simp add: rescan_edges_def remembered_from_def)
  next
    case False
    then show ?thesis using k(4) s(1) at by (simp add: rescan_edges_def remembered_from_def)
  qed
qed

lemma remembered_update [simp]:
  "is_live (h\<lparr>hp_remembered := r\<rparr>) = is_live h" "is_young (h\<lparr>hp_remembered := r\<rparr>) = is_young h"
  "peek (h\<lparr>hp_remembered := r\<rparr>) = peek h" "minor_marked (h\<lparr>hp_remembered := r\<rparr>) = minor_marked h"
  "live_handle_at (h\<lparr>hp_remembered := r\<rparr>) = live_handle_at h" "remembered_from (h\<lparr>hp_remembered := r\<rparr>) = remembered_from h"
  by (auto simp: fun_eq_iff is_live_def is_young_def peek_def minor_marked_def live_handle_at_def remembered_from_def)

lemma rescan_edges_update [simp]:
  "rescan_edges ops scan (h\<lparr>hp_remembered := r\<rparr>) = rescan_edges ops scan h"
  unfolding rescan_edges_def remembered_update ..

lemma promoted_remembered:
  assumes "promoted r h h'"
  shows "promoted r (h\<lparr>hp_remembered := x\<rparr>) (h'\<lparr>hp_remembered := x\<rparr>)"
proof -
  have "same_but_age h h'" using assms by (simp add: promoted_def)
  then have "same_but_age (h\<lparr>hp_remembered := x\<rparr>) (h'\<lparr>hp_remembered := x\<rparr>)"
    by (cases h; cases h') (simp add: same_but_age_def)
  then show ?thesis using assms by (simp add: promoted_def)
qed

lemma remembered_old:
  assumes "heap_inv h" "peek h k = Some v" "h_index k \<in> set (hp_remembered h)"
  shows "k \<in> minor_marked h"
proof -
  let ?s = "hp_slots h ! unat (h_index k)"
  have s: "unat (h_index k) < length (hp_slots h)" "s_dirty ?s \<noteq> CLEAN" "slot_inv ?s"
    using heap_invD(2,4) [OF assms(1)] assms(2,3) by (auto simp: remembered_ok_def peek_Some)
  then show ?thesis
    using assms(2) by (auto simp: minor_marked_def is_live_peek is_young_def slot_inv_def)
qed

lemma mark_minor_spec:
  assumes inv: "heap_inv h" and np: "hp_poison h = None" and gi: "gen_inv ops scan h" and ts: "trace_splits ops"
    and ex: "expands expand E"
  obtains mm h4 where "mark_minor ops h roots scan expand = Inr (mm, h4)"
    "mm_rescanned mm = hp_remembered h" "promoted (hp_remembered h) (h\<lparr>hp_remembered := []\<rparr>) h4"
    "minor_marked h4 = reach_weak h (\<lambda>v. trace ops v @ scan v) E (set roots \<union> minor_marked h)"
    "mm_marked mm = card (minor_marked h4 - minor_marked h)"
proof -
  let ?succ = "\<lambda>v. trace ops v @ scan v" and ?r = "hp_remembered h"
  obtain h1 w1 n1 where p1: "promote_all h roots [] 0 = (h1, w1, n1)" by (metis prod_cases3)
  let ?h0 = "h\<lparr>hp_remembered := []\<rparr>" and ?h2 = "h1\<lparr>hp_remembered := []\<rparr>"
  obtain h3 w3 n3 where p3: "rescan ops scan ?h2 (hp_remembered h1) w1 n1 = (h3, w3, n3)" by (metis prod_cases3)
  have pr1: "promoted ?r ?h0 ?h2"
    using promoted_remembered [OF promote_all_promoted [OF p1]] .
  have r1: "hp_remembered h1 = ?r" using same_but_ageD(6) [OF promote_all_inv(1) [OF p1]] .
  have re: "rescan_edges ops scan h1 i = rescan_edges ops scan h i" for i
    by (simp only: rescan_edges_def same_but_ageD(3,7,8) [OF promote_all_inv(1) [OF p1]])
  have l1: "is_live h1 = is_live h" using same_but_ageD(4) [OF promote_all_inv(1) [OF p1]] .
  have M1: "minor_marked h1 = minor_marked h \<union> {e \<in> set roots. is_live h e}" using promote_all_inv(3) [OF p1] .
  have W1: "n1 = length w1" "distinct w1" "set w1 = minor_marked h1 - minor_marked h"
    using promote_all_inv(4) [OF p1] by auto
  have pr3: "promoted ?r ?h0 h3" using promoted_trans [OF pr1 rescan_spec(1) [OF p3]] .
  have M3: "minor_marked h3 = minor_marked h1 \<union> {e. is_live h e \<and> (\<exists>i \<in> set ?r. e \<in> set (rescan_edges ops scan h i))}"
    using rescan_spec(2) [OF p3] by (simp add: re l1 r1)
  have up: "minor_marked h \<subseteq> minor_marked h1" "minor_marked h1 \<subseteq> minor_marked h3" by (auto simp: M1 M3)
  obtain new where new: "w3 = new @ w1" "n3 = n1 + length new" "distinct new" "set new = minor_marked h3 - minor_marked h1"
    using rescan_spec(3) [OF p3] by auto
  have W3: "n3 = length w3" "distinct w3" "set w3 = minor_marked h3 - minor_marked h"
    using new W1 up by auto
  have "e \<in> minor_marked h3"
    if k: "k \<in> minor_marked h3" "k \<notin> set w3" and e: "peek h k = Some v" "e \<in> set (?succ v)" "is_live h e" for k v e
  proof (cases "is_young h e")
    case True
    have "is_live h k" "\<not> is_young h k" using k W3(3) by (auto simp: minor_marked_def)
    then show ?thesis using gen_inv_edges [OF inv gi ts _ _ e(1,2) True] e(3) by (auto simp: M3)
  next
    case False
    then show ?thesis using e(3) up by (auto simp: minor_marked_def)
  qed
  moreover note pr3' = promoted_reach [OF pr3, simplified]
  ultimately have c: "closed_but h3 ?succ (set w3) (minor_marked h3)"
    unfolding closed_but_def pr3'(3,4) by blast
  have np3: "hp_poison h3 = None" using pr3 np same_but_ageD(5) by (fastforce simp: promoted_def)
  have sub: "set w3 \<subseteq> minor_marked h3" using W3(3) by auto
  obtain h4 n4 where l: "minor_loop ops scan expand h3 w3 n3 = Inr (h4, n4)" "promoted ?r h3 h4"
    "minor_marked h4 = reach_weak h3 ?succ E (minor_marked h3)" "n4 = n3 + card (minor_marked h4 - minor_marked h3)"
    using minor_loop_spec [OF np3 sub ex c] by blast
  let ?R = "reach_weak h ?succ E (set roots \<union> minor_marked h)"
  have "e \<in> ?R" if i: "i \<in> set ?r" "e \<in> set (rescan_edges ops scan h i)" "is_live h e" for i e
  proof -
    obtain k v where k: "peek h k = Some v" "h_index k = i" "e \<in> set (?succ v)"
      using rescan_edges_sub [OF ts i(2)] .
    have "k \<in> ?R"
      using remembered_old [OF inv k(1)] k(2) i(1) by (auto simp: minor_marked_def intro: reach_weak.weak_root)
    then show ?thesis using k(1,3) i(3) by (rule reach_weak.weak_edge)
  qed
  then have "minor_marked h3 \<subseteq> ?R"
    by (auto simp: M3 M1) (auto simp: minor_marked_def intro: reach_weak.weak_root)
  then have eqR: "reach_weak h3 ?succ E (minor_marked h3) = ?R"
    unfolding pr3'(5) using M1 up
    by (intro equalityI reach_weak_least) (auto simp: closed_but_def intro: reach_weak.intros)
  have "minor_marked h3 \<subseteq> minor_marked h4"
    unfolding l(3) by (auto simp: minor_marked_def intro: reach_weak.weak_root)
  then have n4: "n4 = card (minor_marked h4 - minor_marked h)"
    using l(4) W3 distinct_card [OF W3(2)] card_Diff_chain [OF subset_trans [OF up] _ finite_minor_marked, of h4] by simp
  have "mark_minor ops h roots scan expand = Inr (\<lparr>mm_rescanned = ?r, mm_marked = n4\<rparr>, h4)"
    using p1 p3 l(1) by (simp add: mark_minor_def take_remembered_def r1)
  then show thesis
    by (rule that) (use promoted_trans [OF pr3 l(2)] l(3) eqR n4 in simp_all)
qed

lemma collect_minor_exact:
  assumes inv: "heap_inv h" and np: "hp_poison h = None" and gi: "gen_inv ops scan h" and ts: "trace_splits ops"
    and ex: "expands expand E"
  shows "\<exists>st h'. collect_minor_with ops h roots scan expand = Inr (st, h') \<and> heap_inv h' \<and> gen_inv ops scan h' \<and>
    (\<forall>k. peek h' k = (if is_young h k \<and> k \<notin> reach_weak h (\<lambda>v. trace ops v @ scan v) E (set roots \<union> {k. is_live h k \<and> \<not> is_young h k})
       then None else peek h k)) \<and>
    (\<forall>k. \<not> is_young h' k) \<and> len h' = len h - st_swept st \<and> hp_poison h' = None"
proof -
  let ?succ = "\<lambda>v. trace ops v @ scan v" and ?r = "hp_remembered h" and ?h0 = "h\<lparr>hp_remembered := []\<rparr>"
  obtain mm h4 where m: "mark_minor ops h roots scan expand = Inr (mm, h4)"
    "mm_rescanned mm = ?r" "promoted ?r ?h0 h4"
    "minor_marked h4 = reach_weak h ?succ E (set roots \<union> minor_marked h)"
    "mm_marked mm = card (minor_marked h4 - minor_marked h)"
    by (rule mark_minor_spec [OF inv np gi ts ex])
  have sb: "same_but_age ?h0 h4" and inv4: "heap_inv (h4\<lparr>hp_remembered := ?r\<rparr>)"
    using m(3) inv by (simp_all add: promoted_def)
  note sbD = same_but_ageD [OF sb, simplified]
  obtain n h' where s: "sweep_young ops h4 ?r (interior_mutable ops) = Inr (n, h')" "heap_inv h'" "hp_poison h' = None"
    "\<And>k. peek h' k = (if is_young h4 k then None else peek h4 k)"
    "\<And>k. \<not> is_young h' k" "len h' = len h4 - n" "n = length (filter slot_young (hp_slots h4))"
    "\<And>j. j < length (hp_slots h4) \<Longrightarrow> slot_is_live (hp_slots h4 ! j) \<Longrightarrow> interior_mutable ops (the (s_value (hp_slots h4 ! j))) \<Longrightarrow>
       slot_young (hp_slots h4 ! j) \<or> s_dirty (hp_slots h4 ! j) \<noteq> CLEAN \<or>
       of_nat j \<in> set (nursery (hp_free h4) (hp_free_top h4) (hp_young_floor h4) (hp_slots h4)) \<Longrightarrow>
       \<not> slot_is_live (hp_slots h' ! j) \<or> s_dirty (hp_slots h' ! j) = STICKY"
    using sweep_young_effect [OF inv4 sbD(6) sbD(5) [unfolded np], of ops "interior_mutable ops"] by blast
  let ?R = "reach_weak h ?succ E (set roots \<union> minor_marked h)"
  have live4: "is_live h4 = is_live h" and pk4: "peek h4 = peek h" using sbD(3,4) by auto
  have y4: "is_young h4 k \<longleftrightarrow> is_live h k \<and> k \<notin> ?R" for k
    using m(4) is_young_live [of h4 k] live4 by (auto simp: minor_marked_def)
  have oldR: "is_live h k \<Longrightarrow> \<not> is_young h k \<Longrightarrow> k \<in> ?R" for k
    by (auto simp: minor_marked_def intro: reach_weak.weak_root)
  have pk: "peek h' k = (if is_young h k \<and> k \<notin> ?R then None else peek h k)" for k
    using s(4) [of k] y4 [of k] oldR [of k] is_young_live [of h k] by (auto simp: pk4 is_live_peek)
  have nosticky: "\<not> interior_mutable ops v"
    if j: "j < length (hp_slots h')" "s_value (hp_slots h' ! j) = Some v" "s_dirty (hp_slots h' ! j) = CLEAN" for j v
  proof
    assume im: "interior_mutable ops v"
    let ?k = "slot_handle j (hp_slots h' ! j)"
    have u: "unat (of_nat j :: u32) = j" using heap_invD(1) [OF s(2)] j(1) by simp
    have "peek h' ?k = Some v" using peek_slot_handle [OF j(1) heap_invD(1) [OF s(2)]] j(2) by simp
    then have "peek h ?k = Some v" using pk [of ?k] by (auto split: if_splits)
    then have v: "j < length (hp_slots h)" "s_value (hp_slots h ! j) = Some v" using u by (auto simp: peek_Some)
    then have v4: "j < length (hp_slots h4)" "s_value (hp_slots h4 ! j) = Some v" "s_dirty (hp_slots h4 ! j) = s_dirty (hp_slots h ! j)"
      using sbD(1) sbD(2) [of j] by auto
    have "old_slot_ok ops scan h (hp_slots h ! j)" using gi v(1) by (simp add: gen_inv_def list_all_length)
    then have "slot_young (hp_slots h ! j) \<or> s_dirty (hp_slots h ! j) \<noteq> CLEAN"
      using im v(2) by (auto simp: old_slot_ok_def slot_young_def slot_is_live_def dirty_defs split: if_splits)
    then have "s_dirty (hp_slots h4 ! j) \<noteq> CLEAN \<or>
        of_nat j \<in> set (nursery (hp_free h4) (hp_free_top h4) (hp_young_floor h4) (hp_slots h4))"
      using heap_invD(5) [OF inv] v(1) sbD(1,9,10,11) v4(3) by (auto simp: young_ok_def nursery_def)
    then show False
      using s(8) [OF v4(1)] v4(2) im j(2,3) by (auto simp: slot_is_live_def dirty_defs)
  qed
  have "gen_inv ops scan h'"
    using s(5) nosticky by (auto simp: gen_inv_def list_all_length old_slot_ok_def list_all_iff split: option.splits)
  moreover have "len h4 = len h" using sbD(12,13,14) by (simp add: len_def)
  ultimately show ?thesis
    using m(1,2) s pk by (simp add: collect_minor_with_def sweep_minor_def minor_marked_def)
qed
end
