(* ===== verification/GcBarrier.thy ===== *)
theory GcBarrier
  imports GcMinor
begin

text \<open>
  The generational invariant: the verifier of \<open>heap.rs\<close> decides it, and the write barrier of every
  mutable borrow keeps it.
\<close>

subsection \<open>The verifier decides the generational invariant\<close>

lemma mark_tracked_eq:
  assumes "\<forall>i \<in> set is. unat i < length tr"
  shows "\<exists>tr'. mark_tracked is tr = Inr tr' \<and> length tr' = length tr \<and>
    (\<forall>j < length tr. tr' ! j \<longleftrightarrow> tr ! j \<or> (\<exists>i \<in> set is. unat i = j))"
  using assms
proof (induction "is" arbitrary: tr)
  case (Cons i "is")
  obtain tr' where "mark_tracked is (tr[unat i := True]) = Inr tr'" "length tr' = length tr"
    "\<forall>j < length tr. tr' ! j \<longleftrightarrow> tr[unat i := True] ! j \<or> (\<exists>i \<in> set is. unat i = j)"
    using Cons.IH [of "tr[unat i := True]"] Cons.prems by auto
  then show ?case using Cons.prems by (auto simp: nth_list_update split: if_splits)
qed simp

lemma first_violation_None:
  "first_violation f i sl = None \<longleftrightarrow> (\<forall>j < length sl. f (i + j) (sl ! j) = None)"
proof (induction sl arbitrary: i)
  case (Cons s sl)
  have "(\<forall>j < length (s # sl). f (i + j) ((s # sl) ! j) = None) \<longleftrightarrow>
      f i s = None \<and> (\<forall>j < length sl. f (Suc i + j) (sl ! j) = None)"
    by (auto simp: nth_Cons less_Suc_eq_0_disj split: nat.splits)
  then show ?case by (auto simp: Cons.IH split: option.splits)
qed simp

lemma first_violation_Some:
  "first_violation f i sl = Some r \<Longrightarrow> \<exists>j < length sl. f (i + j) (sl ! j) = Some r"
proof (induction sl arbitrary: i)
  case (Cons s sl)
  show ?case
  proof (cases "f i s")
    case None
    then obtain j where "j < length sl" "f (i + 1 + j) (sl ! j) = Some r" using Cons by fastforce
    then show ?thesis by (intro exI [of _ "Suc j"]) simp
  qed (use Cons.prems in auto)
qed simp

lemma find_None_iff_list_all: "find P xs = None \<longleftrightarrow> list_all (\<lambda>x. \<not> P x) xs"
  by (auto simp: find_None_iff list_all_iff)

text \<open>What the check takes for granted: the table's invariant without the visibility of the young objects.\<close>

definition table_inv :: "('a, 'p) heap \<Rightarrow> bool" where
  "table_inv h = (length (hp_slots h) < 2 ^ 32 \<and> (\<forall>s \<in> set (hp_slots h). slot_inv s) \<and>
     free_ok (hp_slots h) (hp_free h) (hp_free_top h) \<and> remembered_ok (hp_slots h) (hp_remembered h) \<and>
     hp_young_floor h \<le> length (hp_slots h) \<and>
     hp_counted h \<le> hp_allocs_since_gc h \<and> len h = live_count (hp_slots h) \<and> COMPACT_GEN_BASE \<le> hp_compact_gen h)"

abbreviation young_visible :: "('a, 'p) heap \<Rightarrow> nat \<Rightarrow> bool" where
  "young_visible h j \<equiv> of_nat j \<in> set (nursery (hp_free h) (hp_free_top h) (hp_young_floor h) (hp_slots h))"

lemma young_visible_iff:
  assumes "length (hp_slots h) < 2 ^ 32" "j < length (hp_slots h)"
  shows "young_visible h j \<longleftrightarrow> hp_young_floor h \<le> j \<or> (\<exists>i \<in> set (drop (hp_free_top h) (hp_free h)). unat i = j)"
proof -
  have "(of_nat j :: u32) \<in> set (map of_nat [hp_young_floor h..<length (hp_slots h)]) \<longleftrightarrow> hp_young_floor h \<le> j"
    using assms by (auto simp: image_iff of_nat_u32_inject)
  moreover have "(of_nat j :: u32) \<in> A \<longleftrightarrow> (\<exists>i \<in> A. unat i = j)" for A
    using assms by (metis of_nat_unat_u32 less_trans unat_of_nat_u32)
  ultimately show ?thesis unfolding nursery_def set_append by blast
qed

lemma heap_inv_table:
  "heap_inv h \<longleftrightarrow> table_inv h \<and> (\<forall>j < length (hp_slots h). slot_young (hp_slots h ! j) \<longrightarrow> young_visible h j)"
proof -
  have "(of_nat j :: u32) \<in> A \<longleftrightarrow> (\<exists>i \<in> A. unat i = j)" if "length (hp_slots h) < 2 ^ 32" "j < length (hp_slots h)" for j A
    using that by (metis of_nat_unat_u32 less_trans unat_of_nat_u32)
  then show ?thesis
    unfolding heap_inv_def table_inv_def young_ok_def using young_visible_iff [of h] by auto
qed

lemma violation_None_iff:
  assumes inv: "table_inv h" and np: "hp_poison h = None"
  shows "\<exists>r. gc_remembered_violation ops h scan = Inr r \<and>
    (r = None \<longleftrightarrow> (\<forall>j < length (hp_slots h). slot_young (hp_slots h ! j) \<longrightarrow> young_visible h j) \<and> gen_inv ops scan h) \<and>
    (\<forall>a b. r = Some (a, b) \<longrightarrow> (\<exists>v. peek h a = Some v \<and> (a = b \<or> \<not> is_young h a \<and> is_young h b)))"
proof -
  let ?n = "length (hp_slots h)" and ?fr = "drop (hp_free_top h) (hp_free h)"
  have n: "?n < 2 ^ 32" using inv by (simp add: table_inv_def)
  have b: "\<forall>i \<in> set ?fr. unat i < length (replicate ?n False)"
    using inv by (auto simp: table_inv_def free_ok_def dest: in_set_dropD)
  obtain tr where tr: "mark_tracked ?fr (replicate ?n False) = Inr tr" "length tr = ?n"
    "\<forall>j < ?n. tr ! j \<longleftrightarrow> (\<exists>i \<in> set ?fr. unat i = j)"
    using mark_tracked_eq [OF b] by auto
  let ?tr = "take (hp_young_floor h) tr @ replicate (length tr - hp_young_floor h) True"
  let ?v = "slot_violation h ?tr (\<lambda>obj. trace ops obj @ scan obj) (trace_head ops) (interior_mutable ops)"
  have tracked: "?tr ! j \<longleftrightarrow> young_visible h j" if "j < ?n" for j
    using that tr(2,3) young_visible_iff [OF n that] inv
    by (cases "hp_young_floor h \<le> j") (auto simp: nth_append table_inv_def min_def)
  have "?v j (hp_slots h ! j) = None \<longleftrightarrow>
      (slot_young (hp_slots h ! j) \<longrightarrow> young_visible h j) \<and> old_slot_ok ops scan h (hp_slots h ! j)" if "j < ?n" for j
    unfolding slot_violation_def tracked [OF that] using np
    by (auto simp: old_slot_ok_def Let_def slot_young_def slot_is_live_def find_None_iff_list_all split: option.splits)
  then have none: "first_violation ?v 0 (hp_slots h) = None \<longleftrightarrow>
      (\<forall>j < ?n. slot_young (hp_slots h ! j) \<longrightarrow> young_visible h j) \<and> gen_inv ops scan h"
    by (auto simp: first_violation_None gen_inv_def list_all_length)
  have one: "\<exists>v. peek h a = Some v \<and> (a = b \<or> \<not> is_young h a \<and> is_young h b)"
    if j: "j < ?n" and s: "?v j (hp_slots h ! j) = Some (a, b)" for j a b
  proof -
    have a: "a = slot_handle j (hp_slots h ! j)" "s_value (hp_slots h ! j) \<noteq> None"
      using s by (auto simp: slot_violation_def slot_handle_def Let_def split: option.splits if_splits)
    moreover have "is_young h a \<longleftrightarrow> s_age (hp_slots h ! j) < OLD_AGE"
      using a j n by (simp add: is_young_def slot_handle_def slot_is_live_def)
    moreover have "a = b \<or> OLD_AGE \<le> s_age (hp_slots h ! j) \<and> is_young h b"
      using s by (auto simp: slot_violation_def Let_def find_Some_iff split: option.splits if_splits)
    ultimately show ?thesis using peek_slot_handle [OF j n] by auto
  qed
  have "\<exists>v. peek h a = Some v \<and> (a = b \<or> \<not> is_young h a \<and> is_young h b)"
    if s: "first_violation ?v 0 (hp_slots h) = Some (a, b)" for a b
  proof -
    obtain j where "j < ?n" "?v j (hp_slots h ! j) = Some (a, b)" using first_violation_Some [OF s] by auto
    then show ?thesis by (rule one)
  qed
  then show ?thesis
    using none by (simp add: gc_remembered_violation_def remembered_violation_def tr(1) Let_def)
qed

text \<open>The generational invariant over handles: an old object is remembered, or refers to no young one.\<close>

definition edges_remembered :: "('a, 'p) trace_ops \<Rightarrow> ('a \<Rightarrow> handle list) \<Rightarrow> ('a, 'p) heap \<Rightarrow> handle \<Rightarrow> 'a \<Rightarrow> bool" where
  "edges_remembered ops scan h k v =
     (if h_index k \<notin> set (hp_remembered h)
      then \<not> interior_mutable ops v \<and> (\<forall>c \<in> set (trace ops v @ scan v). \<not> is_young h c)
      else if s_dirty (hp_slots h ! unat (h_index k)) = APPENDED
      then (\<forall>c \<in> set (trace_head ops v (remembered_from h (h_index k))). \<not> is_young h c)
      else True)"

lemma gen_inv_handles:
  assumes "length (hp_slots h) < 2 ^ 32" "remembered_ok (hp_slots h) (hp_remembered h)"
  shows "gen_inv ops scan h \<longleftrightarrow>
    (\<forall>k v. peek h k = Some v \<longrightarrow> \<not> is_young h k \<longrightarrow> edges_remembered ops scan h k v)"
proof -
  have one: "old_slot_ok ops scan h (hp_slots h ! unat (h_index k)) \<longleftrightarrow>
      (\<not> is_young h k \<longrightarrow> edges_remembered ops scan h k v)" if "peek h k = Some v" for k v
  proof -
    have k: "unat (h_index k) < length (hp_slots h)" "s_generation (hp_slots h ! unat (h_index k)) = h_generation k"
      "s_value (hp_slots h ! unat (h_index k)) = Some v" using that by (auto simp: peek_Some)
    then have y: "is_young h k \<longleftrightarrow> s_age (hp_slots h ! unat (h_index k)) < OLD_AGE"
      by (simp add: is_young_def slot_is_live_def)
    have "h_index k \<in> set (hp_remembered h) \<longleftrightarrow> s_dirty (hp_slots h ! unat (h_index k)) \<noteq> CLEAN"
      using assms(2) k(1) by (auto simp: remembered_ok_def)
    then show ?thesis
      using k y by (auto simp: old_slot_ok_def edges_remembered_def list_all_iff remembered_from_def dirty_defs)
  qed
  show ?thesis
  proof
    assume g: "gen_inv ops scan h"
    show "\<forall>k v. peek h k = Some v \<longrightarrow> \<not> is_young h k \<longrightarrow> edges_remembered ops scan h k v"
      using one g by (auto simp: gen_inv_def list_all_length peek_Some)
  next
    assume r: "\<forall>k v. peek h k = Some v \<longrightarrow> \<not> is_young h k \<longrightarrow> edges_remembered ops scan h k v"
    have "old_slot_ok ops scan h (hp_slots h ! j)" if j: "j < length (hp_slots h)" for j
    proof (cases "s_value (hp_slots h ! j)")
      case (Some v)
      then have "peek h (slot_handle j (hp_slots h ! j)) = Some v" using peek_slot_handle [OF j assms(1)] by simp
      then show ?thesis using one r j assms(1) by (fastforce simp: slot_handle_def)
    qed (simp add: old_slot_ok_def)
    then show "gen_inv ops scan h" by (simp add: gen_inv_def list_all_length)
  qed
qed

lemma young_visible_handles:
  assumes "length (hp_slots h) < 2 ^ 32"
  shows "(\<forall>j < length (hp_slots h). slot_young (hp_slots h ! j) \<longrightarrow> young_visible h j) \<longleftrightarrow>
    (\<forall>k. is_young h k \<longrightarrow> h_index k \<in> set (nursery (hp_free h) (hp_free_top h) (hp_young_floor h) (hp_slots h)))"
    (is "?L \<longleftrightarrow> ?R")
proof
  assume ?L
  then show ?R by (fastforce simp: is_young_def get_opt_def slot_young_def split: if_splits)
next
  assume R: ?R
  show ?L
  proof (intro allI impI)
    fix j assume j: "j < length (hp_slots h)" "slot_young (hp_slots h ! j)"
    then have "is_young h (slot_handle j (hp_slots h ! j))"
      using assms by (simp add: is_young_def slot_handle_def slot_young_def)
    then show "young_visible h j" using R by (fastforce simp: slot_handle_def)
  qed
qed

text \<open>C9: the runtime check of the generational collector is exact, on any table whose lists are well formed:
  it always returns; it finds nothing exactly when the minor sweep visits every young object, and every old
  object is in the remembered set or is not interior-mutable and refers to no young one (one remembered for
  what was appended refers to none before its recorded position); what it reports is a live object, with
  itself or a young object an old one refers to. And a table that passes is collected exactly: the next minor
  collection frees the young objects nothing leads to, and no other.\<close>

theorem verifier_exact:
  assumes inv: "table_inv h" and np: "hp_poison h = None"
  shows "\<exists>r. gc_remembered_violation ops h scan = Inr r \<and>
    (r = None \<longleftrightarrow> (\<forall>k v. peek h k = Some v \<longrightarrow>
       (if is_young h k then h_index k \<in> set (nursery (hp_free h) (hp_free_top h) (hp_young_floor h) (hp_slots h))
        else edges_remembered ops scan h k v))) \<and>
    (\<forall>a b. r = Some (a, b) \<longrightarrow> (\<exists>v. peek h a = Some v \<and> (a = b \<or> \<not> is_young h a \<and> is_young h b))) \<and>
    (\<forall>roots expand E. r = None \<longrightarrow> trace_splits ops \<longrightarrow> expands expand E \<longrightarrow>
       (\<exists>st h'. collect_minor_with ops h roots scan expand = Inr (st, h') \<and>
          (\<forall>k. peek h' k = (if is_young h k \<and> k \<notin> reach_weak h (\<lambda>v. trace ops v @ scan v) E
                  (set roots \<union> {j. is_live h j \<and> \<not> is_young h j}) then None else peek h k))))"
proof -
  have n: "length (hp_slots h) < 2 ^ 32" "remembered_ok (hp_slots h) (hp_remembered h)"
    using inv by (simp_all add: table_inv_def)
  obtain r where r: "gc_remembered_violation ops h scan = Inr r"
    "r = None \<longleftrightarrow> (\<forall>j < length (hp_slots h). slot_young (hp_slots h ! j) \<longrightarrow> young_visible h j) \<and> gen_inv ops scan h"
    "\<forall>a b. r = Some (a, b) \<longrightarrow> (\<exists>v. peek h a = Some v \<and> (a = b \<or> \<not> is_young h a \<and> is_young h b))"
    using violation_None_iff [OF inv np, of ops scan] by blast
  have "is_young h k \<Longrightarrow> \<exists>v. peek h k = Some v" for k using is_young_live [of h k] by (auto simp: is_live_peek)
  then have none: "r = None \<longleftrightarrow> (\<forall>k v. peek h k = Some v \<longrightarrow>
       (if is_young h k then h_index k \<in> set (nursery (hp_free h) (hp_free_top h) (hp_young_floor h) (hp_slots h))
        else edges_remembered ops scan h k v))"
    unfolding r(2) young_visible_handles [OF n(1)] gen_inv_handles [OF n] by (auto split: if_splits)
  have "heap_inv h \<and> gen_inv ops scan h" if "r = None"
    using that r(2) inv unfolding heap_inv_table by simp
  then have exact: "\<exists>st h'. collect_minor_with ops h roots scan expand = Inr (st, h') \<and>
      (\<forall>k. peek h' k = (if is_young h k \<and> k \<notin> reach_weak h (\<lambda>v. trace ops v @ scan v) E
              (set roots \<union> {j. is_live h j \<and> \<not> is_young h j}) then None else peek h k))"
    if "r = None" "trace_splits ops" "expands expand E" for roots expand E
    using collect_minor_exact [OF _ np _ that(2,3), of scan roots] that(1) by blast
  show ?thesis
    by (rule exI [of _ r], intro conjI) (rule r(1), rule none, rule r(3), use exact in blast)
qed

subsection \<open>The write barrier keeps the generational invariant\<close>

lemma is_young_slots: "hp_slots h' = hp_slots h \<Longrightarrow> is_young h' = is_young h"
  by (simp add: fun_eq_iff is_young_def)

lemma old_slot_ok_mono:
  "old_slot_ok ops scan h s \<Longrightarrow> (\<And>e. is_young h' e \<Longrightarrow> is_young h e) \<Longrightarrow> old_slot_ok ops scan h' s"
  by (auto simp: old_slot_ok_def list_all_iff split: option.splits if_splits)

lemma gen_inv_slots: "hp_slots h' = hp_slots h \<Longrightarrow> gen_inv ops scan h' = gen_inv ops scan h"
  using is_young_slots [of h' h] old_slot_ok_mono [of ops scan h _ h'] old_slot_ok_mono [of ops scan h' _ h]
  by (auto simp: gen_inv_def list_all_iff)

lemma gen_inv_update:
  assumes "gen_inv ops scan h" "hp_slots h' = (hp_slots h)[i := s']" "old_slot_ok ops scan h s'"
    "\<And>e. is_young h' e \<Longrightarrow> is_young h e"
  shows "gen_inv ops scan h'"
  unfolding gen_inv_def list_all_iff
proof
  fix s assume "s \<in> set (hp_slots h')"
  then have "s = s' \<or> s \<in> set (hp_slots h)"
    using assms(2) set_update_subset_insert by fastforce
  then have "old_slot_ok ops scan h s" using assms(1,3) by (auto simp: gen_inv_def list_all_iff)
  then show "old_slot_ok ops scan h' s" using assms(4) by (rule old_slot_ok_mono)
qed

lemma is_young_touch:
  assumes "hp_slots h' = (hp_slots h)[i := s']" "s = hp_slots h ! i"
    "s_generation s' = s_generation s" "s_age s' = s_age s" "slot_is_live s' = slot_is_live s"
  shows "is_young h' = is_young h"
proof
  fix e
  show "is_young h' e = is_young h e"
    using assms by (cases "unat (h_index e) < length (hp_slots h)"; cases "unat (h_index e) = i")
      (simp_all add: is_young_def)
qed

lemma gen_inv_touch:
  assumes "gen_inv ops scan h" "hp_slots h' = (hp_slots h)[i := s']" "s = hp_slots h ! i"
    "s_generation s' = s_generation s" "s_age s' = s_age s" "slot_is_live s' = slot_is_live s"
    "old_slot_ok ops scan h s'"
  shows "gen_inv ops scan h'"
  using gen_inv_update [OF assms(1,2,7)] is_young_touch [OF assms(2-6)] by simp

lemma gen_inv_peek_mut:
  assumes "gen_inv ops scan h"
  shows "gen_inv ops scan (snd (peek_mut h k upd))"
proof (cases rule: peek_mut_cases [of h k upd])
  case stale
  then show ?thesis using assms by simp
next
  case (touch v s s')
  show ?thesis
  proof (rule gen_inv_touch [OF assms _ touch(2), of _ s'])
    show "hp_slots (snd (peek_mut h k upd)) = (hp_slots h)[unat (h_index k) := s']" by (simp add: touch(7))
    show "s_generation s' = s_generation s" "s_age s' = s_age s" by (simp_all add: touch(6))
    show "slot_is_live s' = slot_is_live s" using touch(4) by (simp add: touch(6) slot_is_live_def)
    show "old_slot_ok ops scan h s'"
      by (auto simp: touch(6) old_slot_ok_def barrier_due_iff old_iff_not_young dirty_defs)
  qed
qed

lemma gen_inv_get_mut:
  assumes "gen_inv ops scan h" "get_mut h k upd = Inr (r, h')"
  shows "gen_inv ops scan h'"
proof -
  obtain p where "h' = snd (peek_mut (h\<lparr>hp_poison := p\<rparr>) k upd)" using get_mutE [OF assms(2)] .
  then show ?thesis using gen_inv_peek_mut [of ops scan "h\<lparr>hp_poison := p\<rparr>"] assms(1) gen_inv_slots [of "h\<lparr>hp_poison := p\<rparr>" h] by simp
qed

lemma gen_inv_remember:
  assumes "gen_inv ops scan h"
  shows "gen_inv ops scan (remember h i)"
proof (cases "i < length (hp_slots h) \<and> slot_is_live (hp_slots h ! i) \<and> barrier_due (hp_slots h ! i)")
  case True
  then have "hp_slots (remember h i) = (hp_slots h)[i := (hp_slots h ! i)\<lparr>s_dirty := DIRTY\<rparr>]"
    by (simp add: remember_def)
  then show ?thesis
    by (rule gen_inv_touch [OF assms _ refl]) (auto simp: old_slot_ok_def slot_is_live_def dirty_defs split: option.splits)
next
  case False
  then have "remember h i = h" by (auto simp: remember_def get_opt_def)
  then show ?thesis using assms by simp
qed

lemma scan_from_encode:
  assumes "n \<le> SCAN_MAX"
  shows "scan_from (s\<lparr>s_dirty := d, s_scan_lo := of_nat n, s_scan_hi := of_nat (drop_bit 16 n)\<rparr>) = n"
proof -
  have "drop_bit 16 n < 2 ^ 8"
    using assms by (simp add: SCAN_MAX_def drop_bit_eq_div)
  then have "unat (of_nat (drop_bit 16 n) :: u8) = drop_bit 16 n" by (simp add: unat_of_nat)
  moreover have "unat (of_nat n :: u16) = take_bit 16 n" by (simp add: unat_of_nat take_bit_eq_mod)
  moreover have "take_bit 16 n OR push_bit 16 (drop_bit 16 n) = n"
  proof (rule bit_eqI)
    fix m show "bit (take_bit 16 n OR push_bit 16 (drop_bit 16 n)) m \<longleftrightarrow> bit n m"
      by (cases "m < 16") (auto simp: bit_simps)
  qed
  ultimately show ?thesis by (simp add: scan_from_def)
qed

text \<open>An update that only appends past the position its borrow reports.\<close>

definition appends :: "('a, 'p) trace_ops \<Rightarrow> ('a \<Rightarrow> nat) \<Rightarrow> ('a \<Rightarrow> 'a) \<Rightarrow> bool" where
  "appends ops from upd =
     (\<forall>v n. n \<le> from v \<longrightarrow> set (trace_head ops (upd v) n) \<subseteq> set (trace_head ops v n))"

lemma gen_inv_get_mut_append:
  assumes gi: "gen_inv ops scan h" and ts: "trace_splits ops" and ap: "appends ops fr upd"
    and g: "get_mut_append h k fr upd = Inr (r, h')"
  shows "gen_inv ops scan h'"
  using g
proof (cases rule: get_mut_append_cases)
  case (stale p)
  then show ?thesis using gi gen_inv_slots [of h' h] by simp
next
  case (touch p h1 v s s')
  have h1: "hp_slots h1 = hp_slots h" by (simp add: touch(1))
  have ok: "old_slot_ok ops scan h s" using gi touch(2,3) h1 by (simp add: gen_inv_def list_all_length)
  have head: "e \<in> set (trace_head ops v n)" if "e \<in> set (trace_head ops (upd v) n)" "n \<le> fr v" for e n
    using ap that unfolding appends_def by blast
  have no: "\<not> is_young h e" if "e \<in> set (trace_head ops (upd v) n)" "n \<le> fr v" "OLD_AGE \<le> s_age s"
    "s_dirty s = CLEAN \<or> (s_dirty s = APPENDED \<and> n \<le> scan_from s)" for e n
  proof -
    have e: "e \<in> set (trace_head ops v n)" using head that by blast
    show ?thesis
    proof (cases "s_dirty s = APPENDED")
      case True
      then show ?thesis
        using ok touch(5) that(3,4) trace_splitsD(4) [OF ts e, of "scan_from s"]
        by (auto simp: old_slot_ok_def list_all_iff old_iff_not_young dirty_defs)
    next
      case False
      then show ?thesis
        using ok touch(5) that(3,4) trace_splitsD(3) [OF ts e]
        by (auto simp: old_slot_ok_def list_all_iff old_iff_not_young dirty_defs)
    qed
  qed
  show ?thesis
  proof (rule gen_inv_touch [OF gi _ touch(3) [unfolded h1]])
    show "hp_slots h' = (hp_slots h)[unat (h_index k) := s']" by (simp add: touch(9) h1)
    show "s_generation s' = s_generation s" "s_age s' = s_age s" by (simp_all add: touch(8))
    show "slot_is_live s' = slot_is_live s" using touch(5) by (simp add: touch(8) slot_is_live_def)
    show "old_slot_ok ops scan h s'"
    proof (cases "barrier_due s \<and> \<not> (s_dirty s \<noteq> CLEAN \<and> scan_from s < fr v)")
      case True
      then have due: "OLD_AGE \<le> s_age s" "s_dirty s = CLEAN \<or> (s_dirty s = APPENDED \<and> fr v \<le> scan_from s)"
        by (auto simp: barrier_due_iff)
      show ?thesis
      proof (cases "fr v \<le> SCAN_MAX")
        case True
        have s': "s' = (s\<lparr>s_dirty := APPENDED, s_scan_lo := of_nat (fr v), s_scan_hi := of_nat (drop_bit 16 (fr v))\<rparr>)\<lparr>s_value := Some (upd v)\<rparr>"
          using \<open>barrier_due s \<and> \<not> (s_dirty s \<noteq> CLEAN \<and> scan_from s < fr v)\<close> True touch(8) by simp
        have "scan_from s' = fr v"
          using scan_from_encode [OF True, where s = s and d = APPENDED] by (simp add: s' scan_from_def)
        then show ?thesis
          using no [OF _ order_refl due] by (auto simp: s' old_slot_ok_def list_all_iff)
      next
        case False
        then show ?thesis
          using \<open>barrier_due s \<and> \<not> (s_dirty s \<noteq> CLEAN \<and> scan_from s < fr v)\<close>
          by (auto simp: touch(8) old_slot_ok_def dirty_defs)
      qed
    next
      case False
      then have s': "s' = s\<lparr>s_value := Some (upd v)\<rparr>" using touch(8) by (simp only: if_False)
      have sf: "scan_from s' = scan_from s" by (simp add: s' scan_from_def)
      consider "s_age s < OLD_AGE" | "OLD_AGE \<le> s_age s" "s_dirty s = APPENDED" "scan_from s < fr v"
        | "s_dirty s \<noteq> CLEAN" "s_dirty s \<noteq> APPENDED"
        using False by (auto simp: barrier_due_iff old_iff_not_young)
      then show ?thesis
      proof cases
        case 2
        then have "\<not> is_young h e" if "e \<in> set (trace_head ops (upd v) (scan_from s))" for e
          using no [OF that] by simp
        then show ?thesis using 2 sf by (auto simp: s' old_slot_ok_def list_all_iff)
      qed (auto simp: s' old_slot_ok_def)
    qed
  qed
qed

definition barrier :: "'a slot \<Rightarrow> 'a slot" where
  "barrier s = (if barrier_due s then s\<lparr>s_dirty := DIRTY\<rparr> else s)"

lemma barrier_ok: "old_slot_ok ops scan h (barrier s)"
  by (auto simp: barrier_def old_slot_ok_def barrier_due_iff old_iff_not_young dirty_defs split: option.splits)

lemma remember_slots:
  "i < length (hp_slots h) \<Longrightarrow> slot_is_live (hp_slots h ! i) \<Longrightarrow>
     hp_slots (remember h i) = (hp_slots h)[i := barrier (hp_slots h ! i)]"
  by (simp add: remember_def barrier_def)

lemma update_twice: "i \<noteq> j \<Longrightarrow> xs[i := a, j := b, i := c, j := d] = xs[i := c, j := d]"
  by (metis list_update_overwrite list_update_swap)

lemma get_opt_snoc: "get_opt (xs @ [x]) i = (if i = length xs then Some x else get_opt xs i)"
  by (auto simp: get_opt_def nth_append)

lemma swap_slots:
  assumes v: "peek h a = Some va" "peek h b = Some vb" and ne: "h_index a \<noteq> h_index b"
  shows "hp_slots (swap h a b) = (hp_slots h)
    [unat (h_index a) := barrier ((hp_slots h ! unat (h_index a))\<lparr>s_value := Some vb\<rparr>),
     unat (h_index b) := barrier ((hp_slots h ! unat (h_index b))\<lparr>s_value := Some va\<rparr>)]"
proof -
  let ?i = "unat (h_index a)" and ?j = "unat (h_index b)"
  let ?h2 = "h\<lparr>hp_slots := (hp_slots h)[?i := (hp_slots h ! ?i)\<lparr>s_value := Some vb\<rparr>,
                                       ?j := (hp_slots h ! ?j)\<lparr>s_value := Some va\<rparr>]\<rparr>"
  have sw: "swap h a b = remember (remember ?h2 ?i) ?j"
    using v ne by (simp add: swap_def peek_Some slot_get_def Let_def)
  have "?i < length (hp_slots h)" "?j < length (hp_slots h)" "?i \<noteq> ?j" using v ne by (auto simp: peek_Some)
  then show ?thesis unfolding sw by (simp add: remember_slots slot_is_live_def update_twice)
qed

lemma barrier_same [simp]:
  "s_generation (barrier s) = s_generation s" "s_age (barrier s) = s_age s" "s_value (barrier s) = s_value s"
  by (simp_all add: barrier_def)

lemma gen_inv_swap:
  assumes gi: "gen_inv ops scan h"
  shows "gen_inv ops scan (swap h a b)"
proof (cases "peek h a = None \<or> peek h b = None \<or> h_index a = h_index b")
  case True
  then show ?thesis using swap_noop [of h a b] gi by simp
next
  case False
  then obtain va vb where v: "peek h a = Some va" "peek h b = Some vb" and ne: "h_index a \<noteq> h_index b" by auto
  let ?i = "unat (h_index a)" and ?j = "unat (h_index b)"
  let ?si = "barrier ((hp_slots h ! ?i)\<lparr>s_value := Some vb\<rparr>)" and ?sj = "barrier ((hp_slots h ! ?j)\<lparr>s_value := Some va\<rparr>)"
  have fa: "?i < length (hp_slots h)" "?j < length (hp_slots h)" "?i \<noteq> ?j"
    "s_value (hp_slots h ! ?i) = Some va" "s_value (hp_slots h ! ?j) = Some vb"
    using v ne by (auto simp: peek_Some)
  note sl = swap_slots [OF v ne]
  let ?h1 = "h\<lparr>hp_slots := (hp_slots h)[?i := ?si]\<rparr>"
  have "gen_inv ops scan ?h1"
    by (rule gen_inv_touch [OF gi _ refl, where i = ?i and s' = ?si]) (use fa in \<open>auto simp: barrier_ok slot_is_live_def\<close>)
  then show ?thesis
    by (rule gen_inv_touch [OF _ _ refl, where i = ?j and s' = ?sj]) (use fa sl in \<open>auto simp: barrier_ok slot_is_live_def\<close>)
qed

lemma is_young_peek: "is_young h k \<Longrightarrow> peek h k \<noteq> None"
  using is_young_live [of h k] by (simp add: is_live_peek)

lemma gen_inv_free:
  assumes gi: "gen_inv ops scan h" and np: "hp_poison h = None" and f: "free h k = (r, h')"
  shows "gen_inv ops scan h'"
  using np f
proof (cases rule: freeE)
  case stale
  then show ?thesis using gi gen_inv_slots [of "fold_allocs h" h] by simp
next
  case (freed v s s')
  have "is_young h' e \<Longrightarrow> is_young h e" for e
    by (cases "unat (h_index e) = unat (h_index k)")
       (auto simp: freed(7,8) is_young_def get_opt_update slot_is_live_def split: option.splits if_splits)
  moreover have "old_slot_ok ops scan h s'" by (simp add: freed(7) old_slot_ok_def)
  ultimately show ?thesis
    using gen_inv_update [OF gi, of h' "unat (h_index k)" s'] freed(8) by simp
qed

lemma alloc_ready_slots: "\<exists>n. hp_slots (alloc_ready h) = hp_slots h @ replicate n vacant_slot"
  by (auto simp: alloc_ready_def top_up_free_def Let_def intro: exI [of _ 0])

lemma is_young_append_vacant:
  assumes "hp_slots h' = hp_slots h @ replicate n vacant_slot"
  shows "is_young h' = is_young h"
  using assms by (auto simp: fun_eq_iff is_young_def get_opt_def nth_append vacant_slot_def slot_is_live_def)

lemma alloc_young:
  assumes inv: "heap_inv h" and al: "alloc h v = Inr (k, h')"
  shows "is_young h' e \<longleftrightarrow> e = k \<or> is_young h e"
    "s \<in> set (hp_slots h') \<Longrightarrow> s \<in> set (hp_slots h) \<or> s_value s = None \<or> s_age s < OLD_AGE"
proof -
  obtain n where n: "hp_slots (alloc_ready h) = hp_slots h @ replicate n vacant_slot" using alloc_ready_slots by blast
  note y = is_young_append_vacant [OF n]
  have "(is_young h' e \<longleftrightarrow> e = k \<or> is_young h e) \<and>
      (\<forall>s \<in> set (hp_slots h'). s \<in> set (hp_slots h) \<or> s_value s = None \<or> s_age s < OLD_AGE)"
    using inv al
  proof (cases rule: alloc_cases)
    case (reuse h1 i s1)
    let ?s = "s1\<lparr>s_age := 0, s_occupied := SLOT_OCCUPIED, s_value := Some v\<rparr>"
    have sl: "hp_slots h' = (hp_slots h1)[unat i := ?s]" by (simp add: reuse(10))
    have "is_young h' e \<longleftrightarrow> e = k \<or> is_young h1 e"
      using reuse(4-6)
      by (cases "unat (h_index e) = unat i")
         (auto simp: is_young_def sl get_opt_update reuse(9) reusable_def slot_is_live_def OLD_AGE_def handle_eq_iff)
    moreover have "set (hp_slots h') \<subseteq> insert ?s (set (hp_slots h1))"
      unfolding sl by (rule set_update_subset_insert)
    ultimately show ?thesis
      using y n by (auto simp: reuse(1) vacant_slot_def OLD_AGE_def)
  next
    case (push h1)
    have fit: "length (hp_slots h1) < 2 ^ 32" using push(4) by simp
    have ix: "h_index e = of_nat (length (hp_slots h1)) \<longleftrightarrow> unat (h_index e) = length (hp_slots h1)"
      using fit by (metis of_nat_unat_u32 unat_of_nat_u32)
    have "is_young h' e \<longleftrightarrow> e = k \<or> is_young h1 e"
      by (simp add: is_young_def push(5,6) get_opt_snoc handle_eq_iff ix)
         (auto simp: slot_live_def slot_is_live_def OLD_AGE_def)
    then show ?thesis
      using y n by (auto simp: push(1,6) vacant_slot_def OLD_AGE_def slot_live_def)
  qed
  then show "is_young h' e \<longleftrightarrow> e = k \<or> is_young h e"
    "s \<in> set (hp_slots h') \<Longrightarrow> s \<in> set (hp_slots h) \<or> s_value s = None \<or> s_age s < OLD_AGE" by auto
qed

text \<open>No object holds a handle that is about to be issued.\<close>

definition unreferenced :: "('a, 'p) trace_ops \<Rightarrow> ('a \<Rightarrow> handle list) \<Rightarrow> ('a, 'p) heap \<Rightarrow> handle \<Rightarrow> bool" where
  "unreferenced ops scan h k = (\<forall>j u. peek h j = Some u \<longrightarrow> k \<notin> set (trace ops u @ scan u))"

lemma gen_inv_alloc:
  assumes inv: "heap_inv h" and gi: "gen_inv ops scan h" and al: "alloc h v = Inr (k, h')"
    and ts: "trace_splits ops" and fresh: "unreferenced ops scan h k"
  shows "gen_inv ops scan h'"
  unfolding gen_inv_def list_all_iff
proof
  fix s assume s: "s \<in> set (hp_slots h')"
  show "old_slot_ok ops scan h' s"
  proof (cases "s_value s = None \<or> s_age s < OLD_AGE")
    case True
    then show ?thesis by (auto simp: old_slot_ok_def split: option.splits)
  next
    case False
    then obtain u where u: "s_value s = Some u" by auto
    have "s \<in> set (hp_slots h)" using alloc_young(2) [OF inv al s] False by blast
    then obtain i where i: "i < length (hp_slots h)" "s = hp_slots h ! i" by (auto simp: in_set_conv_nth)
    then have "peek h (slot_handle i s) = Some u" using peek_slot_handle heap_invD(1) [OF inv] u by metis
    then have k: "k \<notin> set (trace ops u)" "k \<notin> set (scan u)"
      using fresh unfolding unreferenced_def by auto
    then have "k \<notin> set (trace_head ops u n)" for n using trace_splitsD(3) [OF ts] by blast
    moreover have "old_slot_ok ops scan h s" using gi i by (simp add: gen_inv_def list_all_length)
    ultimately show ?thesis
      using k u alloc_young(1) [OF inv al] by (auto simp: old_slot_ok_def list_all_iff split: if_splits)
  qed
qed

lemma gen_inv_sweep:
  assumes inv: "heap_inv h" and np: "hp_poison h = None" and sw: "sweep ops h keep (interior_mutable ops) = (n, h')"
  shows "gen_inv ops scan h'"
  unfolding gen_inv_def list_all_length
proof (intro allI impI)
  fix i assume i: "i < length (hp_slots h')"
  note p = sweep_parts [OF inv sw]
  have s: "hp_slots h' ! i = swept_slot False keep (interior_mutable ops) i (hp_slots h ! i)"
    using p(2) [of i] p(1) i np by simp
  show "old_slot_ok ops scan h' (hp_slots h' ! i)"
    using sweep_effect(5) [OF inv sw]
    by (auto simp: s old_slot_ok_def list_all_iff swept_slot_def vacated_def slot_is_live_def sticks_def doomed_def
        dirty_defs split: option.splits if_splits)
qed

end
