(* ===== verification/GcCompact.thy ===== *)
theory GcCompact
  imports GcBarrier
begin

text \<open>
  The moving collector: the forwarding function maps the reachable objects one to one onto the live
  objects of the compacted table, each rewritten by the relocation pass.
\<close>

lemma live_handles_spec:
  assumes "length (hp_slots h) < 2 ^ 32"
  shows "set (live_handles h) = live_set h" "distinct (live_handles h)"
proof -
  show "set (live_handles h) = live_set h"
  proof (intro set_eqI iffI)
    fix k assume "k \<in> set (live_handles h)"
    then show "k \<in> live_set h"
      using assms by (auto simp: live_handles_def live_set_def is_live_def in_set_enumerate_eq)
  next
    fix k assume "k \<in> live_set h"
    then have i: "unat (h_index k) < length (hp_slots h)" "slot_is_live (hp_slots h ! unat (h_index k))"
      "s_generation (hp_slots h ! unat (h_index k)) = h_generation k"
      by (auto simp: live_set_def is_live_def get_opt_def split: if_splits)
    then have "(unat (h_index k), hp_slots h ! unat (h_index k)) \<in> set (filter (\<lambda>(i, s). slot_is_live s) (enumerate 0 (hp_slots h)))"
      by (simp add: in_set_enumerate_eq)
    from imageI [OF this, of "\<lambda>(i, s). \<lparr>h_index = of_nat i, h_generation = s_generation s\<rparr>"]
    show "k \<in> set (live_handles h)" using i by (simp add: live_handles_def)
  qed
  let ?xs = "filter (\<lambda>(i, s). slot_is_live s) (enumerate 0 (hp_slots h))"
  have "map h_index (live_handles h) = map of_nat (map fst ?xs)"
    by (simp add: live_handles_def case_prod_unfold)
  moreover have "distinct (map (of_nat :: nat \<Rightarrow> u32) (map fst ?xs))"
  proof (rule distinct_of_nat_u32)
    show "distinct (map fst ?xs)" by (rule distinct_map_filter) simp
    show "\<forall>i \<in> set (map fst ?xs). i < 2 ^ 32" using assms by (auto simp: in_set_enumerate_eq)
  qed
  ultimately show "distinct (live_handles h)" by (metis distinct_map)
qed

lemma get_mut_total: "hp_poison h = None \<Longrightarrow> \<exists>r h'. get_mut h k upd = Inr (r, h')"
  by (cases "peek_mut h k upd") (simp add: get_mut_def)

lemma get_mut_poison: "hp_poison h = None \<Longrightarrow> get_mut h k upd = Inr (r, h') \<Longrightarrow> hp_poison h' = None"
  by (auto simp: get_mut_def peek_mut_def Let_def split: option.splits if_splits)

lemma get_mut_append_poison: "hp_poison h = None \<Longrightarrow> get_mut_append h k fr upd = Inr (r, h') \<Longrightarrow> hp_poison h' = None"
  by (auto simp: get_mut_append_def Let_def split: option.splits if_splits)

lemma remember_poison [simp]: "hp_poison (remember h i) = hp_poison h"
  by (auto simp: remember_def split: option.splits)

lemma swap_poison [simp]: "hp_poison (swap h a b) = hp_poison h"
  by (auto simp: swap_def Let_def split: option.splits)

text \<open>A compaction leaves a full table without a free list, under generations of the range reserved for it.\<close>

lemma relocate_all_effect:
  assumes "heap_inv h" "hp_poison h = None" "gen_inv ops scan h" "distinct hs"
  obtains h' where "relocate_all reloc f hs h = Inr h'" "heap_inv h'" "hp_poison h' = None" "gen_inv ops scan h'"
    "\<And>k. peek h' k = (if k \<in> set hs then map_option (reloc f) (peek h k) else peek h k)"
  using assms
proof (induction hs arbitrary: h thesis)
  case Nil
  then show ?case by simp
next
  case (Cons x hs)
  obtain r h1 where g: "get_mut h x (reloc f) = Inr (r, h1)" using get_mut_total Cons.prems(3) by blast
  note e = get_mut_effect [OF Cons.prems(2) g]
  show ?case
  proof (rule Cons.IH [OF _ e(1) get_mut_poison [OF Cons.prems(3) g] gen_inv_get_mut [OF Cons.prems(4) g]])
    show "distinct hs" using Cons.prems(5) by simp
    fix h'
    assume h': "relocate_all reloc f hs h1 = Inr h'" "heap_inv h'" "hp_poison h' = None" "gen_inv ops scan h'"
      "\<And>k. peek h' k = (if k \<in> set hs then map_option (reloc f) (peek h1 k) else peek h1 k)"
    have "peek h' k = (if k \<in> set (x # hs) then map_option (reloc f) (peek h k) else peek h k)" for k
      using Cons.prems(5) by (auto simp: h'(5) e(3))
    then show thesis using g h' by (intro Cons.prems(1) [of h']) auto
  qed
qed

lemma gen_inv_compact_to:
  assumes "compact_to h keep = (fwd, h')"
  shows "gen_inv ops scan h'"
  by (auto simp: gen_inv_def compact_to_eq(1) [OF assms] list_all_iff old_slot_ok_def moved_slot_def slot_live_def
      old_iff_not_young dirty_defs)

lemma map_of_rev_distinct: "distinct (map fst xs) \<Longrightarrow> map_of (rev xs) k = Some v \<longleftrightarrow> (k, v) \<in> set xs"
  by (simp add: rev_map [symmetric])

lemma compact_exact:
  assumes inv: "heap_inv h" and np: "hp_poison h = None" and R_def: "R = reach h (trace ops) (set roots)"
  obtains st h' fwd where "compact_with ops reloc h roots = Inr (st, h', map fwd roots, fwd)" "heap_inv h'"
    "hp_poison h' = None" "gen_inv ops scan h'" "inj_on fwd R" "live_set h' = fwd ` R" "\<And>k. k \<notin> R \<Longrightarrow> fwd k = k"
    "\<And>k. k \<in> R \<Longrightarrow> peek h' (fwd k) = map_option (reloc fwd) (peek h k)"
    "st_marked st = card R" "st_swept st = len h - card R"
proof -
  obtain m where m: "mark ops h roots = Inr (h, m)" "marked_in m = R" "MarkSet_len m = card R"
    using mark_exact [OF inv np, of ops roots] R_def by blast
  obtain moved h2 where c: "compact_to h (MarkSet_contains m) = (moved, h2)" by fastforce
  note e = compact_to_effect [OF inv c]
  define fwd where "fwd = (\<lambda>k. case map_of (rev moved) k of None \<Rightarrow> k | Some k' \<Rightarrow> k')"
  have R: "fst ` set moved = R"
    using e(5) m(2) reach_live [of _ h "trace ops" "set roots"] unfolding R_def marked_in_def is_live_peek by auto
  have fw: "(k, k') \<in> set moved \<Longrightarrow> fwd k = k'" for k k'
    using map_of_rev_distinct [OF e(3), of k k'] unfolding fwd_def by (metis option.simps(5))
  have mem: "(k, fwd k) \<in> set moved" if "k \<in> R" for k using that R fw by fastforce
  have out: "fwd k = k" if "k \<notin> R" for k
    using that R map_of_rev_distinct [OF e(3), of k] by (auto simp: fwd_def split: option.splits) (metis fst_conv image_eqI)
  have inj: "inj_on fwd R"
  proof (rule inj_onI)
    fix a b assume "a \<in> R" "b \<in> R" "fwd a = fwd b"
    then have "(a, fwd a) \<in> set moved" "(b, fwd a) \<in> set moved" using mem by metis+
    then show "a = b" using e(4) by (metis distinct_map inj_onD prod.inject snd_conv)
  qed
  have np2: "hp_poison h2 = None" using e(2) np by simp
  have fit: "length (hp_slots h2) < 2 ^ 32" using heap_invD(1) [OF e(1)] .
  obtain h3 where r: "relocate_all reloc fwd (live_handles h2) h2 = Inr h3" "heap_inv h3" "hp_poison h3 = None" "gen_inv ops scan h3"
    "\<And>k. peek h3 k = (if k \<in> set (live_handles h2) then map_option (reloc fwd) (peek h2 k) else peek h2 k)"
    using relocate_all_effect [OF e(1) np2 gen_inv_compact_to [OF c] live_handles_spec(2) [OF fit]] by blast
  have lv: "k \<in> set (live_handles h2) \<longleftrightarrow> peek h2 k \<noteq> None" for k
    using live_handles_spec(1) [OF fit] by (auto simp: live_set_def is_live_peek)
  have pk3: "peek h3 k = map_option (reloc fwd) (peek h2 k)" for k using r(5) [of k] lv [of k] by auto
  have "live_set h3 = snd ` set moved"
    unfolding e(6) by (auto simp: live_set_def is_live_peek pk3)
  also have "\<dots> = fwd ` R" using fw R mem by (force simp: image_iff)
  finally have live: "live_set h3 = fwd ` R" .
  have pk: "peek h3 (fwd k) = map_option (reloc fwd) (peek h k)" if "k \<in> R" for k
    using e(7) [OF mem [OF that]] by (simp add: pk3)
  show thesis
    by (rule that [of "\<lparr>st_marked = card R, st_swept = len h - card R, st_weight = card R\<rparr>" h3 fwd])
       (use m(1,3) c r(1-4) inj live out pk in \<open>simp_all add: compact_with_def relocate_def fwd_def Let_def\<close>)
qed

end
