(* ===== verification/GcIncremental.thy ===== *)
theory GcIncremental
  imports GcCompact
begin

text \<open>
  The incremental marker: its tri-colour invariant survives every interleaving with a mutator that
  observes the write barrier, so a completed marking frees nothing reachable.
\<close>

subsection \<open>Incremental marking\<close>

lemma mark_grey_simps [simp]:
  "im_marked (mark_grey m k) = insert k (im_marked m)"
  "im_grey (mark_grey m k) = (if k \<in> im_marked m then im_grey m else k # im_grey m)"
  by (auto simp: mark_grey_def)

lemma foldl_mark_grey:
  "im_marked (foldl mark_grey m es) = im_marked m \<union> set es"
  "\<exists>new. im_grey (foldl mark_grey m es) = new @ im_grey m \<and> distinct new \<and> set new = set es - im_marked m"
proof -
  show "im_marked (foldl mark_grey m es) = im_marked m \<union> set es"
    by (induction es arbitrary: m) auto
  show "\<exists>new. im_grey (foldl mark_grey m es) = new @ im_grey m \<and> distinct new \<and> set new = set es - im_marked m"
  proof (induction es arbitrary: m)
    case (Cons e es)
    obtain new where n: "im_grey (foldl mark_grey (mark_grey m e) es) = new @ im_grey (mark_grey m e)" "distinct new"
      "set new = set es - im_marked (mark_grey m e)" using Cons.IH by blast
    then show ?case
      by (intro exI [of _ "if e \<in> im_marked m then new else new @ [e]"]) auto
  qed simp
qed

text \<open>The tri-colour invariant: the grey objects are marked, and a marked object that is not grey has no
  live unmarked child.\<close>

definition tricolour :: "('a, 'p) trace_ops \<Rightarrow> incremental_marker \<Rightarrow> ('a, 'p) heap \<Rightarrow> bool" where
  "tricolour ops m h = (set (im_grey m) \<subseteq> im_marked m \<and> closed_but h (trace ops) (set (im_grey m)) (im_marked m))"

lemma tricolour_new: "tricolour ops (IncrementalMarker_new roots) h" "im_marked (IncrementalMarker_new roots) = set roots"
proof -
  let ?m0 = "\<lparr>im_marked = {}, im_grey = []\<rparr>"
  obtain new where "im_grey (foldl mark_grey ?m0 roots) = new" "set new = set roots"
    using foldl_mark_grey(2) [of ?m0 roots] by auto
  then show "tricolour ops (IncrementalMarker_new roots) h" "im_marked (IncrementalMarker_new roots) = set roots"
    using foldl_mark_grey(1) [of ?m0 roots]
    by (simp_all add: tricolour_def IncrementalMarker_new_def closed_but_def)
qed

lemma tricolour_shade:
  assumes "tricolour ops m h"
  shows "tricolour ops (foldl mark_grey m es) h"
proof -
  obtain new where n: "im_grey (foldl mark_grey m es) = new @ im_grey m" "set new = set es - im_marked m"
    using foldl_mark_grey(2) by blast
  then show ?thesis
    using assms unfolding tricolour_def closed_but_def foldl_mark_grey(1) by (auto simp: n)
qed

lemma scan_one:
  assumes t: "tricolour ops m h" and g: "im_grey m = hn # grey"
    and e: "edges = (case peek h hn of None \<Rightarrow> [] | Some v \<Rightarrow> trace ops v)"
  shows "tricolour ops (foldl mark_grey (m\<lparr>im_grey := grey\<rparr>) (filter (is_live h) edges)) h"
proof -
  let ?es = "filter (is_live h) edges" and ?m = "m\<lparr>im_grey := grey\<rparr>"
  obtain new where n: "im_grey (foldl mark_grey ?m ?es) = new @ grey" "set new = set ?es - im_marked m"
    using foldl_mark_grey(2) [of ?m ?es] by auto
  have M: "im_marked (foldl mark_grey ?m ?es) = im_marked m \<union> set ?es" using foldl_mark_grey(1) [of ?m ?es] by simp
  have "c \<in> im_marked m \<union> set ?es"
    if k: "k \<in> im_marked m \<union> set ?es" "k \<notin> set (new @ grey)" and c: "peek h k = Some v" "c \<in> set (trace ops v)" "is_live h c" for k v c
  proof (cases "k = hn")
    case True
    then show ?thesis using c by (simp add: e)
  next
    case False
    then have "k \<in> im_marked m - set (im_grey m)" using k n by (auto simp: g)
    then show ?thesis using t c unfolding tricolour_def closed_but_def by blast
  qed
  moreover have "set (new @ grey) \<subseteq> im_marked m \<union> set ?es"
    using t n(2) by (auto simp: tricolour_def g)
  ultimately show ?thesis
    unfolding tricolour_def closed_but_def M n(1) by blast
qed

lemma step_tricolour:
  assumes "hp_poison h = None" "tricolour ops m h" "step ops m h n = Inr (b, m', h')"
  shows "tricolour ops m' h \<and> h' = h \<and> im_marked m \<subseteq> im_marked m' \<and> (b \<longleftrightarrow> is_complete m')"
  using assms(2,3)
proof (induction n arbitrary: m)
  case 0
  then show ?case by (auto simp: is_complete_def)
next
  case (Suc n)
  show ?case
  proof (cases "im_grey m")
    case Nil
    then show ?thesis using Suc.prems by (auto simp: is_complete_def)
  next
    case (Cons hn grey)
    let ?m = "foldl mark_grey (m\<lparr>im_grey := grey\<rparr>)
      (filter (is_live h) (case peek h hn of None \<Rightarrow> [] | Some v \<Rightarrow> trace ops v))"
    have "step ops ?m h n = Inr (b, m', h')"
      using Suc.prems(2) Cons assms(1) by (simp add: get_def Let_def)
    then show ?thesis
      using Suc.IH [OF scan_one [OF Suc.prems(1) Cons refl]] foldl_mark_grey(1) [of "m\<lparr>im_grey := grey\<rparr>"] by auto
  qed
qed

lemma step_finishes:
  assumes "hp_poison h = None" "card (live_set h - im_marked m) + length (im_grey m) \<le> n"
  shows "\<exists>m'. step ops m h n = Inr (True, m', h) \<and> is_complete m'"
  using assms(2)
proof (induction n arbitrary: m)
  case (Suc n)
  show ?case
  proof (cases "im_grey m")
    case (Cons hn grey)
    let ?es = "filter (is_live h) (case peek h hn of None \<Rightarrow> [] | Some v \<Rightarrow> trace ops v)"
    let ?m = "foldl mark_grey (m\<lparr>im_grey := grey\<rparr>) ?es"
    obtain new where new: "im_grey ?m = new @ grey" "distinct new" "set new = set ?es - im_marked m"
      using foldl_mark_grey(2) [of "m\<lparr>im_grey := grey\<rparr>" ?es] by auto
    have M: "im_marked ?m = im_marked m \<union> set ?es" using foldl_mark_grey(1) [of "m\<lparr>im_grey := grey\<rparr>" ?es] by simp
    have "live_set h - im_marked m = (live_set h - im_marked ?m) \<union> set new"
      unfolding M new(3) by (auto simp: live_set_def)
    moreover have "(live_set h - im_marked ?m) \<inter> set new = {}" unfolding M new(3) by auto
    moreover have "finite (live_set h)" using finite_live [of h] by (simp add: live_set_def)
    ultimately have "card (live_set h - im_marked m) = card (live_set h - im_marked ?m) + length new"
      using distinct_card [OF new(2)] by (simp add: card_Un_disjoint)
    then have "card (live_set h - im_marked ?m) + length (im_grey ?m) \<le> n"
      using Suc.prems new(1) Cons by simp
    then show ?thesis using Suc.IH [of ?m] Cons assms(1) by (simp add: get_def Let_def)
  qed (simp add: is_complete_def)
qed (simp add: is_complete_def)

text \<open>Marking interleaved with the mutator: a bounded step of the marker, a borrow (whole or appending) or a
  swap whose barrier shades every reference it adds, a shading of its own, an allocation, or a release.\<close>

inductive marking_step ::
  "('a, 'p) trace_ops \<Rightarrow> incremental_marker \<times> ('a, 'p) heap \<Rightarrow> incremental_marker \<times> ('a, 'p) heap \<Rightarrow> bool" for ops where
  mk_step: "step ops m h n = Inr (b, m', h') \<Longrightarrow> marking_step ops (m, h) (m', h')"
| mk_store: "get_mut h k upd = Inr (r, h') \<Longrightarrow> (\<And>v. set (trace ops (upd v)) \<subseteq> set (trace ops v) \<union> set new) \<Longrightarrow>
    marking_step ops (m, h) (foldl mark_grey m new, h')"
| mk_append: "get_mut_append h k pos upd = Inr (r, h') \<Longrightarrow>
    (\<And>v. set (trace ops (upd v)) \<subseteq> set (trace ops v) \<union> set new) \<Longrightarrow>
    marking_step ops (m, h) (foldl mark_grey m new, h')"
| mk_swap: "(\<And>v. peek h a = Some v \<or> peek h b = Some v \<Longrightarrow> set (trace ops v) \<subseteq> set new) \<Longrightarrow>
    marking_step ops (m, h) (foldl mark_grey m new, swap h a b)"
| mk_grey: "marking_step ops (m, h) (mark_grey m k, h)"
| mk_alloc: "alloc h v = Inr (k, h') \<Longrightarrow> k \<notin> im_marked m \<Longrightarrow> unreferenced ops (\<lambda>_. []) h k \<Longrightarrow>
    marking_step ops (m, h) (m, h')"
| mk_free: "free h k = (r, h') \<Longrightarrow> marking_step ops (m, h) (m, h')"

text \<open>A cycle, with the roots the program holds at each moment: it starts from the roots the marker was given,
  and takes up a new root by shading it and drops roots freely.\<close>

inductive marking_run ::
  "('a, 'p) trace_ops \<Rightarrow> handle list \<Rightarrow> ('a, 'p) heap \<Rightarrow> handle set \<Rightarrow> incremental_marker \<Rightarrow> ('a, 'p) heap \<Rightarrow> bool"
  for ops roots h0 where
  mr_new: "marking_run ops roots h0 (set roots) (IncrementalMarker_new roots) h0"
| mr_step: "marking_run ops roots h0 R m h \<Longrightarrow> marking_step ops (m, h) (m', h') \<Longrightarrow> marking_run ops roots h0 R m' h'"
| mr_root: "marking_run ops roots h0 R m h \<Longrightarrow> marking_run ops roots h0 (insert k R) (mark_grey m k) h"
| mr_drop: "marking_run ops roots h0 R m h \<Longrightarrow> R' \<subseteq> R \<Longrightarrow> marking_run ops roots h0 R' m h"

definition marking_inv :: "('a, 'p) trace_ops \<Rightarrow> handle set \<Rightarrow> incremental_marker \<Rightarrow> ('a, 'p) heap \<Rightarrow> bool" where
  "marking_inv ops R m h = (heap_inv h \<and> hp_poison h = None \<and> tricolour ops m h \<and> R \<subseteq> im_marked m)"

lemma is_live_fun: "is_live h = (\<lambda>k. peek h k \<noteq> None)"
  by (simp add: fun_eq_iff is_live_peek)

text \<open>A mutation whose objects refer to nothing but what they, or the shaded handles, referred to.\<close>

lemma tricolour_mutate:
  assumes t: "tricolour ops m h" and m': "m' = foldl mark_grey m new"
    and live: "\<And>c. peek h' c \<noteq> None \<Longrightarrow> peek h c \<noteq> None"
    and edges: "\<And>j u. peek h' j = Some u \<Longrightarrow> set (trace ops u) \<subseteq> set new \<or>
      (\<exists>v. peek h j = Some v \<and> set (trace ops u) \<subseteq> set (trace ops v) \<union> set new)"
  shows "tricolour ops m' h'"
proof -
  obtain g where g: "im_grey m' = g @ im_grey m" "set g = set new - im_marked m"
    using foldl_mark_grey(2) m' by blast
  have M: "im_marked m' = im_marked m \<union> set new" unfolding m' by (rule foldl_mark_grey(1))
  have cl: "c \<in> im_marked m"
    if "k \<in> im_marked m" "k \<notin> set (im_grey m)" "peek h k = Some v" "c \<in> set (trace ops v)" "peek h c \<noteq> None" for k v c
    using t that unfolding tricolour_def closed_but_def is_live_peek by blast
  have "c \<in> im_marked m'"
    if j: "j \<in> im_marked m'" "j \<notin> set (im_grey m')" and u: "peek h' j = Some u" "c \<in> set (trace ops u)" "peek h' c \<noteq> None" for j u c
  proof -
    have "j \<in> im_marked m" "j \<notin> set (im_grey m)" using j unfolding M g(1) by (auto simp: g(2))
    then show ?thesis using edges [OF u(1)] cl [of j _ c] u(2) live [OF u(3)] unfolding M by blast
  qed
  moreover have "set (im_grey m') \<subseteq> im_marked m'" using t g M by (auto simp: tricolour_def)
  ultimately show ?thesis unfolding tricolour_def closed_but_def is_live_fun by blast
qed

lemma marking_step_inv:
  assumes st: "marking_step ops (m, h) (m', h')" and inv: "marking_inv ops R m h"
  shows "marking_inv ops R m' h'"
proof -
  have i: "heap_inv h" "hp_poison h = None" "tricolour ops m h" "R \<subseteq> im_marked m"
    using inv by (simp_all add: marking_inv_def)
  have shaded: "R \<subseteq> im_marked (foldl mark_grey m new)" for new using i(4) foldl_mark_grey(1) by blast
  note mutate = tricolour_mutate [OF i(3)]
  from st show ?thesis
  proof cases
    case (mk_step n b)
    then have "tricolour ops m' h \<and> h' = h \<and> im_marked m \<subseteq> im_marked m'" using step_tricolour [OF i(2,3)] by blast
    then show ?thesis using i by (simp add: marking_inv_def) blast
  next
    case (mk_store k upd r new)
    note e = get_mut_effect [OF i(1) mk_store(2)]
    have "tricolour ops m' h'"
      by (rule mutate [OF mk_store(1)]) (use mk_store(3) in \<open>auto simp: e(3) split: if_splits\<close>)
    then show ?thesis using e(1) get_mut_poison [OF i(2) mk_store(2)] shaded by (simp add: marking_inv_def mk_store(1))
  next
    case (mk_append k pos upd r new)
    note e = get_mut_append_effect [OF i(1) mk_append(2)]
    have "tricolour ops m' h'"
      by (rule mutate [OF mk_append(1)]) (use mk_append(3) in \<open>auto simp: e(3) split: if_splits\<close>)
    then show ?thesis using e(1) get_mut_append_poison [OF i(2) mk_append(2)] shaded by (simp add: marking_inv_def mk_append(1))
  next
    case (mk_swap a b new)
    note e = swap_effect [OF i(1), of a b]
    have "tricolour ops m' h'"
      by (rule mutate [OF mk_swap(1)]) (use mk_swap(3) in \<open>auto simp: mk_swap(2) e(2) split: if_splits\<close>)
    then show ?thesis using e(1) i(2) shaded by (simp add: marking_inv_def mk_swap(1,2))
  next
    case (mk_grey k)
    then show ?thesis using i tricolour_shade [OF i(3), of "[k]"] by (auto simp: marking_inv_def)
  next
    case (mk_alloc v k)
    note pk = alloc_peek [OF i(1) mk_alloc(2)]
    have "c \<in> im_marked m"
      if j: "j \<in> im_marked m" "j \<notin> set (im_grey m)" and u: "peek h' j = Some u" and c: "c \<in> set (trace ops u)" "peek h' c \<noteq> None" for j u c
    proof -
      have ju: "peek h j = Some u" using u j(1) mk_alloc(3) by (auto simp: pk(2) split: if_splits)
      moreover have "c \<noteq> k" using mk_alloc(4) c(1) ju by (auto simp: unreferenced_def)
      ultimately show ?thesis
        using i(3) j c unfolding tricolour_def closed_but_def is_live_peek by (auto simp: pk(2) split: if_splits)
    qed
    then have "tricolour ops m h'" using i(3) unfolding tricolour_def closed_but_def is_live_fun by blast
    then show ?thesis using heap_inv_alloc [OF i(1) mk_alloc(2)] alloc_poison [OF i(1) mk_alloc(2)] i
      by (simp add: marking_inv_def mk_alloc(1))
  next
    case (mk_free k r)
    note e = free_effect [OF i(1,2) mk_free(2)]
    have "tricolour ops m h'"
      by (rule mutate [of m "[]"]) (auto simp: e(3) split: if_splits)
    then show ?thesis using e i by (simp add: marking_inv_def mk_free(1))
  qed
qed

lemma marking_run_inv:
  "marking_run ops roots h0 R m h \<Longrightarrow> heap_inv h0 \<Longrightarrow> hp_poison h0 = None \<Longrightarrow> marking_inv ops R m h"
proof (induction rule: marking_run.induct)
  case mr_new
  then show ?case using tricolour_new by (simp add: marking_inv_def)
next
  case (mr_step R m h m' h')
  then show ?case using marking_step_inv by blast
next
  case (mr_root R m h k)
  then show ?case using tricolour_shade [of ops m h "[k]"] by (auto simp: marking_inv_def)
next
  case (mr_drop R m h R')
  then show ?case by (auto simp: marking_inv_def)
qed

lemma sweep_unmarked_effect:
  assumes "heap_inv h" "hp_poison h = None" "sweep_unmarked M hs h n = (n', h')"
  shows "heap_inv h' \<and> (\<forall>k. peek h' k = (if k \<in> set hs \<and> k \<notin> M then None else peek h k))"
  using assms
proof (induction hs arbitrary: h n)
  case (Cons x hs)
  show ?case
  proof (cases "x \<in> M")
    case False
    obtain r h1 where f: "free h x = (r, h1)" by fastforce
    note e = free_effect [OF Cons.prems(1,2) f]
    have "heap_inv h' \<and> (\<forall>k. peek h' k = (if k \<in> set hs \<and> k \<notin> M then None else peek h1 k))"
      using Cons.IH [OF e(1,4)] Cons.prems(3) False f by simp
    then show ?thesis using False by (auto simp: e(3))
  qed (use Cons in auto)
qed simp

lemma marking_run_sweep:
  assumes "heap_inv h0" "hp_poison h0 = None" "marking_run ops roots h0 R m h" "is_complete m"
    and "IncrementalMarker_sweep m h = (n, h')"
  shows "heap_inv h' \<and> (\<forall>k \<in> reach h (trace ops) R. peek h' k = peek h k) \<and>
    (\<forall>k. peek h' k = (if k \<in> im_marked m then peek h k else None))"
proof -
  have i: "heap_inv h" "hp_poison h = None" "tricolour ops m h" "R \<subseteq> im_marked m"
    using marking_run_inv [OF assms(3,1,2)] by (simp_all add: marking_inv_def)
  have "reach h (trace ops) R \<subseteq> im_marked m"
    using i(3,4) assms(4) by (intro reach_least) (auto simp: tricolour_def is_complete_def)
  moreover have "heap_inv h'" "\<And>k. peek h' k = (if k \<in> live_set h \<and> k \<notin> im_marked m then None else peek h k)"
    using sweep_unmarked_effect [OF i(1,2)] assms(5) live_handles_spec(1) [OF heap_invD(1) [OF i(1)]]
    by (auto simp: IncrementalMarker_sweep_def)
  ultimately show ?thesis by (auto simp: live_set_def is_live_peek)
qed

text \<open>C8: incremental marking is sound under interleaving. However bounded marking steps, borrows through
  the write barrier, swaps, allocations, releases and changes of the root set are interleaved, the
  tri-colour invariant holds at every moment: the current roots and the grey objects are marked, and every
  live child of a marked object that is not grey is marked. So once the marker reports completion its sweep
  keeps every object reachable from the roots held then, and exactly the marked ones.\<close>

theorem incremental_marking_sound:
  assumes "heap_inv h0" "hp_poison h0 = None" "marking_run ops roots h0 R m h"
  shows "R \<union> set (im_grey m) \<subseteq> im_marked m \<and>
    (\<forall>k \<in> im_marked m - set (im_grey m). \<forall>v. peek h k = Some v \<longrightarrow>
       (\<forall>c \<in> set (trace ops v). is_live h c \<longrightarrow> c \<in> im_marked m)) \<and>
    (is_complete m \<longrightarrow> (\<forall>n h'. IncrementalMarker_sweep m h = (n, h') \<longrightarrow>
       heap_inv h' \<and> (\<forall>k \<in> reach h (trace ops) R. peek h' k = peek h k) \<and>
       (\<forall>k. peek h' k = (if k \<in> im_marked m then peek h k else None))))"
proof -
  have "tricolour ops m h \<and> R \<subseteq> im_marked m"
    using marking_run_inv [OF assms(3,1,2)] by (simp add: marking_inv_def)
  then show ?thesis
    using marking_run_sweep [OF assms] unfolding tricolour_def closed_but_def by blast
qed

text \<open>C10: incremental marking completes: a step whose budget covers the live objects still unmarked and
  those waiting on the grey worklist drains it and reports completion, and never changes the table.\<close>

theorem incremental_step_completes:
  assumes "hp_poison h = None" "card (live_set h - im_marked m) + length (im_grey m) \<le> n"
  shows "\<exists>m'. step ops m h n = Inr (True, m', h) \<and> is_complete m'"
  by (rule step_finishes [OF assms])

end
