(* ===== verification/GcRun.thy ===== *)
theory GcRun
  imports GcIncremental
begin

text \<open>
  Runs: every state a program reaches by allocating, borrowing, releasing, collecting and compacting
  satisfies the table's invariant and the generational one, and no handle is issued twice between two
  compactions.
\<close>

subsection \<open>Slots only move forward\<close>

text \<open>Every operation but an allocation leaves a slot's generation and occupancy alone, or vacates a live
  slot under the next generation.\<close>

definition keeps_slot :: "'a slot \<Rightarrow> 'a slot \<Rightarrow> bool" where
  "keeps_slot s s' =
     ((s_generation s' = s_generation s \<and> slot_is_live s' = slot_is_live s) \<or>
      (slot_is_live s \<and> \<not> slot_is_live s' \<and> s_generation s' = s_generation s + 1))"

abbreviation keeps_slots :: "'a slot list \<Rightarrow> 'a slot list \<Rightarrow> bool" where
  "keeps_slots \<equiv> list_all2 keeps_slot"

lemma keeps_slot_refl [simp]: "keeps_slot s s"
  by (simp add: keeps_slot_def)

lemma keeps_slots_refl [simp]: "keeps_slots sl sl"
  by (simp add: list_all2_refl)

lemma keeps_slots_update: "i < length sl \<Longrightarrow> keeps_slot (sl ! i) s \<Longrightarrow> keeps_slots sl (sl[i := s])"
  by (auto simp: list_all2_conv_all_nth nth_list_update)

text \<open>Whether a slot may still hand out the generation \<open>g\<close>: its next object gets its own generation, or the
  one after when it is occupied, and every later one counts up until the slot is retired.\<close>

definition next_generation :: "'a slot \<Rightarrow> u16" where
  "next_generation s = (if slot_is_live s then s_generation s + 1 else s_generation s)"

definition reissuable :: "'a slot \<Rightarrow> u16 \<Rightarrow> bool" where
  "reissuable s g = (next_generation s \<le> g \<and> g < COMPACT_GEN_BASE)"

definition issued_ok :: "handle set \<Rightarrow> 'a slot list \<Rightarrow> bool" where
  "issued_ok I sl = (\<forall>k \<in> I. unat (h_index k) < length sl \<and>
     \<not> reissuable (sl ! unat (h_index k)) (h_generation k))"

lemma keeps_slot_reissuable: "keeps_slot s s' \<Longrightarrow> reissuable s' g = reissuable s g"
  by (auto simp: keeps_slot_def reissuable_def next_generation_def)

lemma keeps_slots_nth: "keeps_slots sl sl' \<Longrightarrow> i < length sl \<Longrightarrow> keeps_slot (sl ! i) (sl' ! i)"
  by (simp add: list_all2_conv_all_nth)

lemma issued_ok_keeps:
  assumes "issued_ok I sl" "keeps_slots sl sl'"
  shows "issued_ok I sl'"
  using assms(1) keeps_slots_nth [OF assms(2)] list_all2_lengthD [OF assms(2)] keeps_slot_reissuable
  unfolding issued_ok_def by metis

lemma issued_ok_append_vacant: "issued_ok I sl \<Longrightarrow> issued_ok I (sl @ replicate n vacant_slot)"
  by (auto simp: issued_ok_def nth_append)

lemma inc_below_base: "(g :: u16) < COMPACT_GEN_BASE \<Longrightarrow> \<not> g + 1 \<le> g"
  by (simp add: COMPACT_GEN_BASE_def word_less_nat_alt word_le_nat_alt unat_word_ariths)

lemma issued_next: "g < COMPACT_GEN_BASE \<Longrightarrow> slot_is_live s \<Longrightarrow> s_generation s = g \<Longrightarrow> \<not> reissuable s g"
  by (simp add: reissuable_def next_generation_def inc_below_base)

lemma taken_reissuable:
  assumes "\<not> slot_is_live s" "s_generation s < COMPACT_GEN_BASE" "slot_is_live s'" "s_generation s' = s_generation s"
    "reissuable s' g"
  shows "reissuable s g"
proof -
  have "s_generation s < s_generation s + 1"
    using assms(2) by (simp add: COMPACT_GEN_BASE_def word_less_nat_alt unat_word_ariths)
  then show ?thesis using assms by (auto simp: reissuable_def next_generation_def)
qed

lemma alloc_issued:
  assumes inv: "heap_inv h" and ok: "issued_ok I (hp_slots h)" and al: "alloc h v = Inr (k, h')"
  shows "k \<notin> I" "issued_ok (insert k I) (hp_slots h')"
proof -
  obtain n where n: "hp_slots (alloc_ready h) = hp_slots h @ replicate n vacant_slot" using alloc_ready_slots by blast
  have ok1: "issued_ok I (hp_slots (alloc_ready h))" using issued_ok_append_vacant [OF ok] n by simp
  have "k \<notin> I \<and> issued_ok (insert k I) (hp_slots h')"
    using inv al
  proof (cases rule: alloc_cases)
    case (reuse h1 i s)
    let ?s = "s\<lparr>s_age := 0, s_occupied := SLOT_OCCUPIED, s_value := Some v\<rparr>"
    have s: "\<not> slot_is_live s" "s_generation s < COMPACT_GEN_BASE" using reuse(6) by (auto simp: reusable_def)
    have "k \<notin> I" using ok1 s reuse(1,5,9) by (auto simp: issued_ok_def reissuable_def next_generation_def)
    moreover have "\<not> reissuable ?s g" if "\<not> reissuable s g" for g
      using taken_reissuable [of s ?s g] s that by (auto simp: slot_is_live_def)
    then have "issued_ok (insert k I) (hp_slots h')"
      using ok1 issued_next [OF s(2), of ?s] reuse(1,4,5)
      unfolding issued_ok_def reuse(9,10) by (auto simp: nth_list_update slot_is_live_def)
    ultimately show ?thesis ..
  next
    case (push h1)
    have u: "unat (h_index k) = length (hp_slots h1)" using push(4,5) by simp
    have "k \<notin> I" using ok1 u push(1) by (auto simp: issued_ok_def)
    moreover have "\<not> reissuable (slot_live 0 0 v) 0"
      by (rule issued_next) (simp_all add: COMPACT_GEN_BASE_def slot_live_def slot_is_live_def)
    then have "issued_ok (insert k I) (hp_slots h')"
      using ok1 u push(1,5) unfolding push(6) by (auto simp: issued_ok_def nth_append)
    ultimately show ?thesis ..
  qed
  then show "k \<notin> I" "issued_ok (insert k I) (hp_slots h')" by auto
qed

lemma peek_mut_keeps: "keeps_slots (hp_slots h) (hp_slots (snd (peek_mut h k upd)))"
proof (cases rule: peek_mut_cases [of h k upd])
  case (touch v s s')
  have "keeps_slot s s'" using touch(4,6) by (simp add: keeps_slot_def slot_is_live_def)
  then show ?thesis using keeps_slots_update [OF touch(1)] touch(2) by (simp add: touch(7))
qed simp

lemma get_mut_keeps:
  assumes "get_mut h k upd = Inr (r, h')"
  shows "keeps_slots (hp_slots h) (hp_slots h')"
proof -
  obtain p where "h' = snd (peek_mut (h\<lparr>hp_poison := p\<rparr>) k upd)" using get_mutE [OF assms] .
  then show ?thesis using peek_mut_keeps [of "h\<lparr>hp_poison := p\<rparr>" k upd] by simp
qed

lemma get_mut_append_keeps:
  assumes "get_mut_append h k fr upd = Inr (r, h')"
  shows "keeps_slots (hp_slots h) (hp_slots h')"
  using assms
proof (cases rule: get_mut_append_cases)
  case (touch p h1 v s s')
  have "keeps_slot s s'" using touch(5,8) by (simp add: keeps_slot_def slot_is_live_def)
  then show ?thesis using keeps_slots_update [OF touch(2)] touch(3) by (simp add: touch(9)) (simp add: touch(1))
qed simp

lemma remember_keeps: "keeps_slots (hp_slots h) (hp_slots (remember h i))"
proof (cases "i < length (hp_slots h) \<and> slot_is_live (hp_slots h ! i) \<and> barrier_due (hp_slots h ! i)")
  case True
  then show ?thesis
    using keeps_slots_update [of i "hp_slots h" "(hp_slots h ! i)\<lparr>s_dirty := DIRTY\<rparr>"]
    by (simp add: remember_def keeps_slot_def slot_is_live_def)
next
  case False
  then have "remember h i = h" by (auto simp: remember_def get_opt_def)
  then show ?thesis by simp
qed

lemma keeps_live_only:
  assumes "length sl' = length sl" "\<And>i. i < length sl \<Longrightarrow> s_generation (sl' ! i) = s_generation (sl ! i) \<and>
      slot_is_live (sl' ! i) = slot_is_live (sl ! i)"
  shows "keeps_slots sl sl'"
  using assms by (auto simp: list_all2_conv_all_nth keeps_slot_def)

lemma same_peek_keeps:
  assumes "keeps_slots sl sl1" "keeps_slots sl1 sl2"
    "\<And>i. i < length sl \<Longrightarrow> s_generation (sl1 ! i) = s_generation (sl ! i) \<and> slot_is_live (sl1 ! i) = slot_is_live (sl ! i)"
  shows "keeps_slots sl sl2"
  using assms by (auto simp: list_all2_conv_all_nth keeps_slot_def)

lemma swap_keeps: "keeps_slots (hp_slots h) (hp_slots (swap h a b))"
proof (cases "peek h a = None \<or> peek h b = None \<or> h_index a = h_index b")
  case True
  then show ?thesis using swap_noop [of h a b] by simp
next
  case False
  then obtain va vb where v: "peek h a = Some va" "peek h b = Some vb" and ne: "h_index a \<noteq> h_index b" by auto
  have "hp_slots (swap h a b) = (hp_slots h)
      [unat (h_index a) := barrier ((hp_slots h ! unat (h_index a))\<lparr>s_value := Some vb\<rparr>),
       unat (h_index b) := barrier ((hp_slots h ! unat (h_index b))\<lparr>s_value := Some va\<rparr>)]"
    using swap_slots [OF v ne] .
  then show ?thesis
    using v ne by (intro keeps_live_only) (auto simp: nth_list_update barrier_def slot_is_live_def peek_Some)
qed

lemma free_keeps:
  assumes "hp_poison h = None" "free h k = (r, h')"
  shows "keeps_slots (hp_slots h) (hp_slots h')"
  using assms
proof (cases rule: freeE)
  case (freed v s s')
  have "keeps_slot s s'" using freed(3) by (simp add: freed(7) keeps_slot_def slot_is_live_def)
  then show ?thesis using keeps_slots_update [OF freed(1)] freed(2) by (simp add: freed(8))
qed simp

lemma sweep_keeps:
  assumes "heap_inv h" "sweep ops h keep sticky = (n, h')"
  shows "keeps_slots (hp_slots h) (hp_slots h')"
  using sweep_parts(1,2) [OF assms]
  by (auto simp: list_all2_conv_all_nth swept_slot_def keeps_slot_def vacated_def slot_is_live_def)

lemma minor_slot_keeps: "keeps_slot s (minor_slot sticky b s)"
  by (auto simp: minor_slot_def keeps_slot_def vacated_def slot_is_live_def slot_young_def)

lemma minor_keeps:
  assumes inv: "heap_inv h" and np: "hp_poison h = None" and gi: "gen_inv ops scan h" and ts: "trace_splits ops"
    and ex: "expands expand E" and c: "collect_minor_with ops h roots scan expand = Inr (st, h')"
  shows "keeps_slots (hp_slots h) (hp_slots h')"
proof -
  let ?r = "hp_remembered h" and ?h0 = "h\<lparr>hp_remembered := []\<rparr>"
  obtain mm h4 where m: "mark_minor ops h roots scan expand = Inr (mm, h4)" "mm_rescanned mm = ?r" "promoted ?r ?h0 h4"
    using mark_minor_spec [OF inv np gi ts ex] by metis
  have sb: "same_but_age ?h0 h4" and inv4: "heap_inv (h4\<lparr>hp_remembered := ?r\<rparr>)"
    using m(3) inv by (simp_all add: promoted_def)
  note sbD = same_but_ageD [OF sb, simplified]
  obtain n h1 where s: "sweep_young ops h4 ?r (interior_mutable ops) = Inr (n, h1)"
    "length (hp_slots h1) = length (hp_slots h4)"
    "\<And>j. j < length (hp_slots h4) \<Longrightarrow> hp_slots h1 ! j = minor_slot (interior_mutable ops)
       (of_nat j \<in> set (nursery (hp_free h4) (hp_free_top h4) (hp_young_floor h4) (hp_slots h4))) (hp_slots h4 ! j)"
    using sweep_young_parts [OF inv4 sbD(6) sbD(5) [unfolded np], of ops "interior_mutable ops"] by metis
  have "h1 = h'" using c m(1,2) s(1) by (simp add: collect_minor_with_def sweep_minor_def)
  moreover have "keeps_slots (hp_slots h4) (hp_slots h1)"
    using s(2) by (simp add: list_all2_conv_all_nth s(3) minor_slot_keeps)
  moreover have same: "s_generation (hp_slots h4 ! i) = s_generation (hp_slots h ! i) \<and>
      slot_is_live (hp_slots h4 ! i) = slot_is_live (hp_slots h ! i)" if "i < length (hp_slots h)" for i
    using sbD(2) [OF that] by (simp add: slot_is_live_def)
  ultimately show ?thesis
    using same_peek_keeps [OF keeps_live_only [OF sbD(1) same] _ same] by simp
qed

subsection \<open>Runs of the mutator and the collectors\<close>

definition refs :: "('a, 'p) trace_ops \<Rightarrow> ('a \<Rightarrow> handle list) \<Rightarrow> 'a \<Rightarrow> handle set" where
  "refs ops scan v = set (trace ops v @ scan v)"

text \<open>The states a program reaches: the table, with the set of the handles it has issued since the last
  compaction. An object only ever holds such handles; a borrow that appends keeps the part before the
  position it reports; a compaction issues the survivors' new handles, and the objects it moves keep no
  handle of before.\<close>

inductive gc_run :: "('a, 'p) trace_ops \<Rightarrow> ('a \<Rightarrow> handle list) \<Rightarrow> ('a, 'p) heap \<Rightarrow> handle set \<Rightarrow> bool"
  for ops scan where
  run_new: "gc_run ops scan (new_heap pool) {}"
| run_alloc: "gc_run ops scan h I \<Longrightarrow> alloc h v = Inr (k, h') \<Longrightarrow> refs ops scan v \<subseteq> I \<Longrightarrow>
    gc_run ops scan h' (insert k I)"
| run_get_mut: "gc_run ops scan h I \<Longrightarrow> get_mut h k upd = Inr (r, h') \<Longrightarrow>
    (\<And>v. peek h k = Some v \<Longrightarrow> refs ops scan (upd v) \<subseteq> I) \<Longrightarrow> gc_run ops scan h' I"
| run_append: "gc_run ops scan h I \<Longrightarrow> get_mut_append h k from upd = Inr (r, h') \<Longrightarrow> appends ops from upd \<Longrightarrow>
    (\<And>v. peek h k = Some v \<Longrightarrow> refs ops scan (upd v) \<subseteq> I) \<Longrightarrow> gc_run ops scan h' I"
| run_swap: "gc_run ops scan h I \<Longrightarrow> gc_run ops scan (swap h a b) I"
| run_free: "gc_run ops scan h I \<Longrightarrow> free h k = (r, h') \<Longrightarrow> gc_run ops scan h' I"
| run_edge: "gc_run ops scan h I \<Longrightarrow> gc_run ops scan (record_edge h a b old_age) I"
| run_reserve: "gc_run ops scan h I \<Longrightarrow> gc_run ops scan (reserve_free h n) I"
| run_pressure: "gc_run ops scan h I \<Longrightarrow> gc_run ops scan (reset_alloc_pressure h) I"
| run_major: "gc_run ops scan h I \<Longrightarrow> collect ops h roots = Inr (st, h') \<Longrightarrow> gc_run ops scan h' I"
| run_full: "gc_run ops scan h I \<Longrightarrow> sweep_full ops h m = (st, h') \<Longrightarrow> gc_run ops scan h' I"
| run_minor: "gc_run ops scan h I \<Longrightarrow> collect_minor_with ops h roots scan expand = Inr (st, h') \<Longrightarrow>
    expands expand E \<Longrightarrow> gc_run ops scan h' I"
| run_compact: "gc_run ops scan h I \<Longrightarrow> compact_with ops reloc h roots = Inr (st, h', roots', fwd) \<Longrightarrow>
    (\<And>k v. peek h' k = Some v \<Longrightarrow> refs ops scan v \<subseteq> live_set h') \<Longrightarrow> gc_run ops scan h' (live_set h')"

definition run_inv :: "('a, 'p) trace_ops \<Rightarrow> ('a \<Rightarrow> handle list) \<Rightarrow> ('a, 'p) heap \<Rightarrow> handle set \<Rightarrow> bool" where
  "run_inv ops scan h I =
     (heap_inv h \<and> gen_inv ops scan h \<and> hp_poison h = None \<and> issued_ok I (hp_slots h) \<and>
      (\<forall>k v. peek h k = Some v \<longrightarrow> refs ops scan v \<subseteq> I))"

lemma run_invI:
  assumes "run_inv ops scan h I" "heap_inv h'" "gen_inv ops scan h'" "hp_poison h' = None"
    "keeps_slots (hp_slots h) (hp_slots h')"
    "\<And>k v. peek h' k = Some v \<Longrightarrow> refs ops scan v \<subseteq> I"
  shows "run_inv ops scan h' I"
  using assms issued_ok_keeps by (auto simp: run_inv_def)

lemma run_inv_smaller:
  assumes "run_inv ops scan h I" "heap_inv h'" "gen_inv ops scan h'" "hp_poison h' = None"
    "keeps_slots (hp_slots h) (hp_slots h')"
    "\<And>k. peek h' k = None \<or> peek h' k = peek h k"
  shows "run_inv ops scan h' I"
proof (rule run_invI [OF assms(1-5)])
  fix k v assume "peek h' k = Some v"
  then have "peek h k = Some v" using assms(6) [of k] by auto
  then show "refs ops scan v \<subseteq> I" using assms(1) unfolding run_inv_def by blast
qed

lemma run_inv_unreferenced:
  "run_inv ops scan h I \<Longrightarrow> k \<notin> I \<Longrightarrow> unreferenced ops scan h k"
  unfolding run_inv_def unreferenced_def refs_def by blast

lemma peek_mut_table:
  "length (hp_slots (snd (peek_mut h k upd))) = length (hp_slots h)"
  "hp_free_top (snd (peek_mut h k upd)) = hp_free_top h" "hp_young_floor (snd (peek_mut h k upd)) = hp_young_floor h"
  "map s_generation (hp_slots (snd (peek_mut h k upd))) = map s_generation (hp_slots h)"
  "map slot_is_live (hp_slots (snd (peek_mut h k upd))) = map slot_is_live (hp_slots h)"
  by (cases rule: peek_mut_cases [of h k upd]; auto simp: map_update list_update_same_conv slot_is_live_def)+

lemma relocate_all_table:
  assumes "relocate_all reloc f hs h = Inr h'"
  shows "length (hp_slots h') = length (hp_slots h) \<and> hp_free_top h' = hp_free_top h \<and>
    hp_young_floor h' = hp_young_floor h \<and> map s_generation (hp_slots h') = map s_generation (hp_slots h) \<and>
    map slot_is_live (hp_slots h') = map slot_is_live (hp_slots h)"
  using assms
proof (induction hs arbitrary: h)
  case (Cons x hs)
  obtain r h1 where g: "get_mut h x (reloc f) = Inr (r, h1)" "relocate_all reloc f hs h1 = Inr h'"
    using Cons.prems by (auto split: sum.splits)
  obtain p where "h1 = snd (peek_mut (h\<lparr>hp_poison := p\<rparr>) x (reloc f))" using get_mutE [OF g(1)] .
  then show ?case using Cons.IH [OF g(2)] peek_mut_table [of "h\<lparr>hp_poison := p\<rparr>" x "reloc f"] by simp
qed simp

lemma compact_table:
  assumes inv: "heap_inv h" "hp_poison h = None" and c: "compact_with ops reloc h roots = Inr (st, h', roots', fwd)"
  shows "hp_free_top h' = 0 \<and> hp_young_floor h' = 0 \<and>
    (\<forall>s \<in> set (hp_slots h'). COMPACT_GEN_BASE \<le> s_generation s \<and> slot_is_live s) \<and>
    length (hp_slots h') = card (reach h (trace ops) (set roots))"
proof -
  obtain m where m: "mark ops h roots = Inr (h, m)" "MarkSet_len m = card (reach h (trace ops) (set roots))"
    using mark_exact [OF inv, of ops roots] by blast
  obtain moved h2 where c2: "compact_to h (MarkSet_contains m) = (moved, h2)" by fastforce
  note eq = compact_to_eq [OF c2]
  obtain f where r: "relocate_all reloc f (live_handles h2) h2 = Inr h'"
    using c m(1) c2 by (auto simp: compact_with_def relocate_def Let_def split: sum.splits)
  have h2: "hp_free_top h2 = 0" "hp_young_floor h2 = 0" by (subst eq(3), simp)+
  have g: "COMPACT_GEN_BASE \<le> hp_compact_gen h" using inv(1) by (simp add: heap_inv_def)
  note tab = relocate_all_table [OF r]
  have "g' = hp_compact_gen h" if "g' \<in> set (map s_generation (hp_slots h2))" for g'
    using that by (auto simp: eq(1) moved_slot_def slot_live_def)
  then have gb: "\<forall>s \<in> set (hp_slots h'). COMPACT_GEN_BASE \<le> s_generation s" using g tab by (metis image_eqI list.set_map)
  have "\<forall>b \<in> set (map slot_is_live (hp_slots h2)). b"
    by (auto simp: eq(1) moved_slot_def slot_live_def slot_is_live_def)
  then have lv: "\<forall>s \<in> set (hp_slots h'). slot_is_live s" using tab by (metis image_eqI list.set_map)
  have f: "heap_inv h' \<and> live_set h' = fwd ` reach h (trace ops) (set roots) \<and> inj_on fwd (reach h (trace ops) (set roots))"
    by (rule compact_exact [OF inv refl, of ops reloc roots "\<lambda>_. []"]) (use c in simp)
  then have inv': "heap_inv h'" by simp
  have "length (hp_slots h') = live_count (hp_slots h')" using lv by (simp add: live_count_def)
  also have "\<dots> = card (live_set h')"
    using inv' len_card [OF inv'] by (simp add: heap_inv_def)
  finally show ?thesis using h2 gb lv tab f by (simp add: card_image)
qed

lemma compact_issued:
  assumes "heap_inv h" "hp_poison h = None" "compact_with ops reloc h roots = Inr (st, h', roots', fwd)"
  shows "issued_ok (live_set h') (hp_slots h')"
  unfolding issued_ok_def
proof (intro ballI conjI)
  fix k assume "k \<in> live_set h'"
  then have k: "unat (h_index k) < length (hp_slots h')" "s_generation (hp_slots h' ! unat (h_index k)) = h_generation k"
    by (auto simp: live_set_def is_live_def get_opt_def split: if_splits)
  have "\<forall>s \<in> set (hp_slots h'). COMPACT_GEN_BASE \<le> s_generation s" using compact_table [OF assms] by blast
  then have "COMPACT_GEN_BASE \<le> h_generation k" using k nth_mem by metis
  then show "\<not> reissuable (hp_slots h' ! unat (h_index k)) (h_generation k)" by (simp add: reissuable_def not_less)
  show "unat (h_index k) < length (hp_slots h')" by (rule k(1))
qed

lemma alloc_after_compact:
  assumes "heap_inv h" "hp_poison h = None" "compact_with ops reloc h roots = Inr (st, h', roots', fwd)"
    and "alloc h' v = Inr (k, h2)"
  shows "k = \<lparr>h_index = of_nat (card (reach h (trace ops) (set roots))), h_generation = 0\<rparr>"
  using compact_table [OF assms(1-3)] assms(4) by (auto simp: alloc_def Let_def split: if_splits)

lemma run_inv_reserve:
  assumes "run_inv ops scan h I"
  shows "run_inv ops scan (reserve_free h n) I"
proof -
  have "\<exists>m. hp_slots (reserve_free h n) = hp_slots h @ replicate m vacant_slot"
    by (auto simp: reserve_free_def top_up_free_def Let_def intro: exI [of _ 0])
  then obtain m where m: "hp_slots (reserve_free h n) = hp_slots h @ replicate m vacant_slot" by blast
  have "gen_inv ops scan (reserve_free h n)"
    using assms is_young_append_vacant [OF m] old_slot_ok_mono [of ops scan h _ "reserve_free h n"]
    by (auto simp: run_inv_def gen_inv_def m list_all_iff vacant_slot_def) (simp add: old_slot_ok_def)
  moreover have "heap_inv (reserve_free h n)" "peek (reserve_free h n) = peek h"
    using assms heap_inv_top_up by (auto simp: run_inv_def reserve_free_def fun_eq_iff)
  moreover have "hp_poison (reserve_free h n) = None"
    using assms by (auto simp: run_inv_def reserve_free_def top_up_free_def Let_def)
  moreover have "issued_ok I (hp_slots (reserve_free h n))"
    using assms unfolding m by (auto simp: run_inv_def intro: issued_ok_append_vacant)
  ultimately show ?thesis using assms by (simp add: run_inv_def)
qed

lemma run_inv_sweep:
  assumes r: "run_inv ops scan h I" and sw: "sweep ops h keep (interior_mutable ops) = (n, h')"
  shows "run_inv ops scan h' I"
proof -
  have i: "heap_inv h" "hp_poison h = None" using r by (simp_all add: run_inv_def)
  show ?thesis
    using run_inv_smaller [OF r sweep_parts(3) [OF i(1) sw] gen_inv_sweep [OF i sw] _ sweep_keeps [OF i(1) sw]]
      sweep_parts(5) [OF i(1) sw i(2)] sweep_effect(2) [OF i(1) sw] by (auto split: option.splits)
qed

lemma gc_run_inv:
  assumes "gc_run ops scan h I" "trace_splits ops"
  shows "run_inv ops scan h I"
  using assms(1)
proof induction
  case (run_new pool)
  show ?case
    unfolding run_inv_def
    by (intro conjI heap_inv_new) (simp_all add: gen_inv_def new_heap_def issued_ok_def peek_def)
next
  case (run_alloc h I v k h')
  have i: "heap_inv h" "gen_inv ops scan h" "hp_poison h = None" "issued_ok I (hp_slots h)"
    "\<And>k v. peek h k = Some v \<Longrightarrow> refs ops scan v \<subseteq> I"
    using run_alloc.IH by (auto simp: run_inv_def)
  note a = alloc_issued [OF i(1,4) run_alloc.hyps(2)]
  have "gen_inv ops scan h'"
    using gen_inv_alloc [OF i(1,2) run_alloc.hyps(2) assms(2)] run_inv_unreferenced [OF run_alloc.IH a(1)] by blast
  moreover have "refs ops scan u \<subseteq> insert k I" if "peek h' j = Some u" for j u
    using that i(5) [of j u] run_alloc.hyps(3) alloc_peek(2) [OF i(1) run_alloc.hyps(2)] by (auto split: if_splits)
  ultimately show ?case
    using heap_inv_alloc [OF i(1) run_alloc.hyps(2)] alloc_poison [OF i(1) run_alloc.hyps(2)] i(3) a(2)
    by (simp add: run_inv_def)
next
  case (run_get_mut h I k upd r h')
  have i: "heap_inv h" "gen_inv ops scan h" "hp_poison h = None"
    "\<And>k v. peek h k = Some v \<Longrightarrow> refs ops scan v \<subseteq> I"
    using run_get_mut.IH by (auto simp: run_inv_def)
  note e = get_mut_effect [OF i(1) run_get_mut.hyps(2)]
  have "refs ops scan u \<subseteq> I" if "peek h' j = Some u" for j u
    using that i(4) [of j u] run_get_mut.hyps(3) e(3) by (auto split: if_splits)
  then show ?case
    using run_invI [OF run_get_mut.IH e(1) gen_inv_get_mut [OF i(2) run_get_mut.hyps(2)]
        get_mut_poison [OF i(3) run_get_mut.hyps(2)] get_mut_keeps [OF run_get_mut.hyps(2)]] by blast
next
  case (run_append h I k fr upd r h')
  have i: "heap_inv h" "gen_inv ops scan h" "hp_poison h = None"
    "\<And>k v. peek h k = Some v \<Longrightarrow> refs ops scan v \<subseteq> I"
    using run_append.IH by (auto simp: run_inv_def)
  note e = get_mut_append_effect [OF i(1) run_append.hyps(2)]
  have "refs ops scan u \<subseteq> I" if "peek h' j = Some u" for j u
    using that i(4) [of j u] run_append.hyps(4) e(3) by (auto split: if_splits)
  then show ?case
    using run_invI [OF run_append.IH e(1) gen_inv_get_mut_append [OF i(2) assms(2) run_append.hyps(3,2)]
        get_mut_append_poison [OF i(3) run_append.hyps(2)] get_mut_append_keeps [OF run_append.hyps(2)]] by blast
next
  case (run_swap h I a b)
  have i: "heap_inv h" "gen_inv ops scan h" "hp_poison h = None"
    "\<And>k v. peek h k = Some v \<Longrightarrow> refs ops scan v \<subseteq> I"
    using run_swap.IH by (auto simp: run_inv_def)
  have "refs ops scan u \<subseteq> I" if "peek (swap h a b) j = Some u" for j u
    using that i(4) swap_effect(2) [OF i(1), of a b] by (auto split: if_splits)
  then show ?case
    using run_invI [OF run_swap.IH swap_effect(1) [OF i(1)] gen_inv_swap [OF i(2)] _ swap_keeps] i(3) by simp
next
  case (run_free h I k r h')
  have i: "heap_inv h" "gen_inv ops scan h" "hp_poison h = None" using run_free.IH by (auto simp: run_inv_def)
  note e = free_effect [OF i(1,3) run_free.hyps(2)]
  show ?case
    using run_inv_smaller [OF run_free.IH e(1) gen_inv_free [OF i(2,3) run_free.hyps(2)] e(4)
        free_keeps [OF i(3) run_free.hyps(2)]] e(3) by auto
next
  case (run_edge h I a b old_age)
  have i: "heap_inv h" "gen_inv ops scan h" "hp_poison h = None" using run_edge.IH by (auto simp: run_inv_def)
  show ?case
    using run_inv_smaller [OF run_edge.IH heap_inv_remember [OF i(1)] gen_inv_remember [OF i(2)] _ remember_keeps] i(3)
      run_edge.IH by (auto simp: record_edge_def)
next
  case (run_reserve h I n)
  then show ?case using run_inv_reserve by blast
next
  case (run_pressure h I)
  have i: "heap_inv h" "gen_inv ops scan h" "hp_poison h = None" using run_pressure.IH by (auto simp: run_inv_def)
  have p: "hp_slots (reset_alloc_pressure h) = hp_slots h" by (simp add: reset_alloc_pressure_def)
  show ?case
  proof (rule run_inv_smaller [OF run_pressure.IH])
    show "heap_inv (reset_alloc_pressure h)" using i(1) by (simp add: reset_alloc_pressure_def heap_inv_def len_def)
    show "gen_inv ops scan (reset_alloc_pressure h)" using gen_inv_slots [OF p] i(2) by simp
  qed (simp_all add: p peek_eq, simp add: reset_alloc_pressure_def i(3))
next
  case (run_major h I roots st h')
  have i: "heap_inv h" "hp_poison h = None" using run_major.IH by (auto simp: run_inv_def)
  obtain m n where "mark ops h roots = Inr (h, m)"
    "sweep ops h (\<lambda>k _. MarkSet_contains m k) (interior_mutable ops) = (n, h')"
    using mark_exact [OF i, of ops roots] run_major.hyps(2) by (auto simp: collect_def split: prod.splits)
  then show ?case using run_inv_sweep run_major.IH by blast
next
  case (run_full h I m st h')
  then show ?case using run_inv_sweep by (auto simp: sweep_full_def split: prod.splits)
next
  case (run_minor h I roots expand st h' E)
  have i: "heap_inv h" "hp_poison h = None" "gen_inv ops scan h" using run_minor.IH by (auto simp: run_inv_def)
  note k = minor_keeps [OF i assms(2) run_minor.hyps(3,2)]
  have "heap_inv h'" "gen_inv ops scan h'" "hp_poison h' = None" "\<And>k. peek h' k = None \<or> peek h' k = peek h k"
    using collect_minor_exact [OF i assms(2) run_minor.hyps(3), of roots] run_minor.hyps(2) by auto
  then show ?case using run_inv_smaller [OF run_minor.IH _ _ _ k] by blast
next
  case (run_compact h I reloc roots st h' roots' fwd)
  have i: "heap_inv h" "hp_poison h = None" using run_compact.IH by (auto simp: run_inv_def)
  have c: "heap_inv h' \<and> hp_poison h' = None \<and> gen_inv ops scan h'"
    by (rule compact_exact [OF i refl, of ops reloc roots scan]) (use run_compact.hyps(2) in simp)
  then show ?case
    using run_compact.hyps(3) compact_issued [OF i run_compact.hyps(2)] by (simp add: run_inv_def)
qed

text \<open>C4: between two compactions a handle is never issued twice: in every state a run reaches, the
  handle an allocation returns is none of those issued since the last compaction, live or stale, and no live
  object refers to it, so a stale reference of that time can never come to resolve to a new object. A
  compaction ends that time: the table is cut down to the survivors, and the first allocation after it takes
  the index past them under generation 0, whatever handle was issued there before.\<close>

theorem alloc_never_reissues:
  assumes "gc_run ops scan h I" "trace_splits ops"
  shows "(\<forall>v k h'. alloc h v = Inr (k, h') \<longrightarrow> k \<notin> I \<and> unreferenced ops scan h k) \<and>
    (\<forall>reloc roots st h1 roots' fwd v k h2. compact_with ops reloc h roots = Inr (st, h1, roots', fwd) \<longrightarrow>
       alloc h1 v = Inr (k, h2) \<longrightarrow>
       k = \<lparr>h_index = of_nat (card (reach h (trace ops) (set roots))), h_generation = 0\<rparr>)"
proof -
  have r: "run_inv ops scan h I" using gc_run_inv [OF assms(1,2)] .
  have "k \<notin> I \<and> unreferenced ops scan h k" if "alloc h v = Inr (k, h')" for v k h'
    using alloc_issued(1) [OF _ _ that] run_inv_unreferenced [OF r] r by (simp add: run_inv_def)
  moreover have "heap_inv h" "hp_poison h = None" using r by (simp_all add: run_inv_def)
  note alloc_after_compact [OF this]
  ultimately show ?thesis by (intro conjI allI impI) simp_all
qed

lemma gc_run_minor_exact:
  assumes "gc_run ops scan h I" "trace_splits ops" "expands expand E"
  shows "\<exists>st h'. collect_minor_with ops h roots scan expand = Inr (st, h') \<and>
    (\<forall>k \<in> reach_weak h (\<lambda>v. trace ops v @ scan v) E (set roots). peek h' k = peek h k) \<and>
    (\<forall>k. peek h' k = (if is_young h k \<and> k \<notin> reach_weak h (\<lambda>v. trace ops v @ scan v) E
            (set roots \<union> {j. is_live h j \<and> \<not> is_young h j}) then None else peek h k)) \<and>
    heap_inv h' \<and> gen_inv ops scan h' \<and> (\<forall>k. \<not> is_young h' k)"
proof -
  have r: "heap_inv h" "gen_inv ops scan h" "hp_poison h = None"
    using gc_run_inv [OF assms(1,2)] by (simp_all add: run_inv_def)
  let ?succ = "\<lambda>v. trace ops v @ scan v" and ?old = "{k. is_live h k \<and> \<not> is_young h k}"
  have "reach_weak h ?succ E (set roots) \<subseteq> reach_weak h ?succ E (set roots \<union> ?old)"
    by (rule reach_weak_least) (auto simp: closed_but_def intro: reach_weak.intros)
  moreover obtain st h' where h': "collect_minor_with ops h roots scan expand = Inr (st, h')" "heap_inv h'" "gen_inv ops scan h'"
    "\<And>k. peek h' k = (if is_young h k \<and> k \<notin> reach_weak h ?succ E (set roots \<union> ?old) then None else peek h k)"
    "\<And>k. \<not> is_young h' k"
    using collect_minor_exact [OF r(1,3,2) assms(2,3), of roots] by blast
  ultimately show ?thesis
    by (intro exI [of _ st] exI [of _ h']) auto
qed

lemma gc_run_minor:
  assumes "gc_run ops scan h I" "trace_splits ops" "expands expand E"
    "collect_minor_with ops h roots scan expand = Inr (st, h')"
  shows "(\<forall>k. peek h' k = None \<or> peek h' k = peek h k) \<and>
    (\<forall>k \<in> reach_weak h (\<lambda>v. trace ops v @ scan v) E (set roots). peek h' k = peek h k)"
  using gc_run_minor_exact [OF assms(1-3), of roots] assms(4) by auto


end
