(* ===== verification/GcTransparent.thy ===== *)
theory GcTransparent
  imports GcRun
begin

text \<open>
  What a program can see of a collection: following any path of edges from a root gives the same object
  before and after. The contract every non-moving collector meets is the locale \<open>collector\<close>; the major,
  the minor and the incremental collector are interpretations of it. The moving collector renames the
  handles, and the paths commute with the renaming.
\<close>

text \<open>Following a path: each number selects an edge of the object reached so far.\<close>

fun walk :: "('h \<Rightarrow> handle \<Rightarrow> 'v option) \<Rightarrow> ('v \<Rightarrow> handle list) \<Rightarrow> 'h \<Rightarrow> handle \<Rightarrow> nat list \<Rightarrow> 'v option" where
  "walk lookup edges h k [] = lookup h k"
| "walk lookup edges h k (i # is) = (case lookup h k of
       None \<Rightarrow> None
     | Some v \<Rightarrow> (case get_opt (edges v) i of None \<Rightarrow> None | Some c \<Rightarrow> walk lookup edges h c is))"

locale collector =
  fixes lookup :: "'h \<Rightarrow> handle \<Rightarrow> 'v option"
    and edges :: "'v \<Rightarrow> handle list"
    and gc :: "handle list \<Rightarrow> 'h \<Rightarrow> 'h \<Rightarrow> bool"
  assumes no_new: "gc roots h h' \<Longrightarrow> lookup h' k = None \<or> lookup h' k = lookup h k"
    and keeps: "gc roots h h' \<Longrightarrow> \<exists>K. set roots \<inter> dom (lookup h) \<subseteq> K \<and> (\<forall>k \<in> K. lookup h' k = lookup h k) \<and>
      (\<forall>k \<in> K. \<forall>v. lookup h k = Some v \<longrightarrow> set (edges v) \<inter> dom (lookup h) \<subseteq> K)"
begin

lemma walk_in:
  assumes "\<And>k. lookup h' k = None \<or> lookup h' k = lookup h k" "\<forall>k \<in> K. lookup h' k = lookup h k"
    and "\<forall>k \<in> K. \<forall>v. lookup h k = Some v \<longrightarrow> set (edges v) \<inter> dom (lookup h) \<subseteq> K"
    and "k \<in> dom (lookup h) \<Longrightarrow> k \<in> K"
  shows "walk lookup edges h' k p = walk lookup edges h k p"
  using assms(4)
proof (induction p arbitrary: k)
  case Nil
  then show ?case using assms(1) [of k] assms(2) by (cases "lookup h k") (auto simp: domIff)
next
  case (Cons i p)
  show ?case
  proof (cases "lookup h k")
    case None
    then show ?thesis using assms(1) [of k] by simp
  next
    case (Some v)
    then have k: "k \<in> K" using Cons.prems by blast
    have "walk lookup edges h' c p = walk lookup edges h c p" if "get_opt (edges v) i = Some c" for c
    proof (rule Cons.IH)
      have "c \<in> set (edges v)" using that by (auto simp: get_opt_def split: if_splits)
      then show "c \<in> K" if "c \<in> dom (lookup h)" using assms(3) k Some that by blast
    qed
    then show ?thesis using Some k assms(2) by (auto split: option.splits)
  qed
qed

lemma walk_preserved:
  assumes "gc roots h h'" "r \<in> set roots"
  shows "walk lookup edges h' r p = walk lookup edges h r p"
proof -
  obtain K where K: "set roots \<inter> dom (lookup h) \<subseteq> K" "\<forall>k \<in> K. lookup h' k = lookup h k"
    "\<forall>k \<in> K. \<forall>v. lookup h k = Some v \<longrightarrow> set (edges v) \<inter> dom (lookup h) \<subseteq> K"
    using keeps [OF assms(1)] by blast
  show ?thesis using K(1) assms(2) by (intro walk_in [OF no_new [OF assms(1)] K(2,3)]) auto
qed

end

lemma reach_edges:
  "\<forall>k \<in> reach h succ R. \<forall>v. peek h k = Some v \<longrightarrow> set (succ v) \<inter> dom (peek h) \<subseteq> reach h succ R"
  "R \<inter> dom (peek h) \<subseteq> reach h succ R"
  by (auto simp: is_live_peek intro: reach.intros)

lemma reach_weak_edges:
  "\<forall>k \<in> reach_weak h succ E R. \<forall>v. peek h k = Some v \<longrightarrow> set (succ v) \<inter> dom (peek h) \<subseteq> reach_weak h succ E R"
  "R \<inter> dom (peek h) \<subseteq> reach_weak h succ E R"
  by (auto simp: is_live_peek intro: reach_weak.intros)

text \<open>The three collections that leave objects in place, as relations between the table before and after.\<close>

definition major_gc :: "('a, 'p) trace_ops \<Rightarrow> handle list \<Rightarrow> ('a, 'p) heap \<Rightarrow> ('a, 'p) heap \<Rightarrow> bool" where
  "major_gc ops roots h h' = (heap_inv h \<and> hp_poison h = None \<and> (\<exists>st. collect ops h roots = Inr (st, h')))"

definition minor_gc ::
  "('a, 'p) trace_ops \<Rightarrow> ('a \<Rightarrow> handle list) \<Rightarrow> handle list \<Rightarrow> ('a, 'p) heap \<Rightarrow> ('a, 'p) heap \<Rightarrow> bool" where
  "minor_gc ops scan roots h h' = (trace_splits ops \<and> (\<exists>I expand E st. gc_run ops scan h I \<and> expands expand E \<and>
     collect_minor_with ops h roots scan expand = Inr (st, h')))"

definition incremental_gc :: "('a, 'p) trace_ops \<Rightarrow> handle list \<Rightarrow> ('a, 'p) heap \<Rightarrow> ('a, 'p) heap \<Rightarrow> bool" where
  "incremental_gc ops roots h h' = (\<exists>h0 rs R m n. heap_inv h0 \<and> hp_poison h0 = None \<and> marking_run ops rs h0 R m h \<and> set roots \<subseteq> R \<and>
     is_complete m \<and> IncrementalMarker_sweep m h = (n, h'))"

interpretation major: collector peek "trace ops" "major_gc ops" for ops :: "('a, 'p) trace_ops"
proof
  fix roots h h' k
  assume "major_gc ops roots h h'"
  then have pk: "\<And>k. peek h' k = (if k \<in> reach h (trace ops) (set roots) then peek h k else None)"
    using collect_exact [of h ops roots] by (auto simp: major_gc_def)
  then show "peek h' k = None \<or> peek h' k = peek h k" by simp
  show "\<exists>K. set roots \<inter> dom (peek h) \<subseteq> K \<and> (\<forall>k \<in> K. peek h' k = peek h k) \<and>
      (\<forall>k \<in> K. \<forall>v. peek h k = Some v \<longrightarrow> set (trace ops v) \<inter> dom (peek h) \<subseteq> K)"
    using pk reach_edges [where h = h and succ = "trace ops" and R = "set roots"]
    by (intro exI [of _ "reach h (trace ops) (set roots)"]) simp
qed

interpretation minor: collector peek "\<lambda>v. trace ops v @ scan v" "minor_gc ops scan"
  for ops :: "('a, 'p) trace_ops" and scan
proof
  fix roots h h' k
  let ?s = "\<lambda>v. trace ops v @ scan v"
  assume "minor_gc ops scan roots h h'"
  then obtain E where pk: "\<And>k. peek h' k = None \<or> peek h' k = peek h k"
      "\<forall>k \<in> reach_weak h ?s E (set roots). peek h' k = peek h k"
    using gc_run_minor [of ops scan h] unfolding minor_gc_def by blast
  then show "peek h' k = None \<or> peek h' k = peek h k" by simp
  show "\<exists>K. set roots \<inter> dom (peek h) \<subseteq> K \<and> (\<forall>k \<in> K. peek h' k = peek h k) \<and>
      (\<forall>k \<in> K. \<forall>v. peek h k = Some v \<longrightarrow> set (?s v) \<inter> dom (peek h) \<subseteq> K)"
    using pk(2) reach_weak_edges [where h = h and succ = ?s and R = "set roots" and E = E]
    by (intro exI [of _ "reach_weak h ?s E (set roots)"]) simp
qed

interpretation incremental: collector peek "trace ops" "incremental_gc ops" for ops :: "('a, 'p) trace_ops"
proof
  fix roots h h' k
  assume "incremental_gc ops roots h h'"
  then obtain h0 rs R m n where run: "heap_inv h0" "hp_poison h0 = None" "marking_run ops rs h0 R m h"
      "is_complete m" "IncrementalMarker_sweep m h = (n, h')" and R: "set roots \<subseteq> R"
    unfolding incremental_gc_def by blast
  have "reach h (trace ops) (set roots) \<subseteq> reach h (trace ops) R"
    by (rule reach_mono) (use R in \<open>auto intro: reach.root\<close>)
  then have pk: "\<And>k. peek h' k = None \<or> peek h' k = peek h k"
      "\<forall>k \<in> reach h (trace ops) (set roots). peek h' k = peek h k"
    using marking_run_sweep [OF run] by (simp, blast)
  then show "peek h' k = None \<or> peek h' k = peek h k" by simp
  show "\<exists>K. set roots \<inter> dom (peek h) \<subseteq> K \<and> (\<forall>k \<in> K. peek h' k = peek h k) \<and>
      (\<forall>k \<in> K. \<forall>v. peek h k = Some v \<longrightarrow> set (trace ops v) \<inter> dom (peek h) \<subseteq> K)"
    using pk(2) reach_edges [where h = h and succ = "trace ops" and R = "set roots"]
    by (intro exI [of _ "reach h (trace ops) (set roots)"]) simp
qed

text \<open>C3: no collection that leaves objects in place can be observed from its roots: whatever path of
  edges a program follows from a root, it finds the same object, or nothing, as it did before, after a major
  collection, after a minor collection in any state a run reaches, and after the sweep of an incremental
  collection whose marking was interleaved with the mutator, from the roots held at that moment.\<close>

theorem collections_unobservable:
  assumes "r \<in> set roots"
  shows "(major_gc ops roots h h' \<longrightarrow> walk peek (trace ops) h' r p = walk peek (trace ops) h r p) \<and>
    (minor_gc ops scan roots h h' \<longrightarrow>
       walk peek (\<lambda>v. trace ops v @ scan v) h' r p = walk peek (\<lambda>v. trace ops v @ scan v) h r p) \<and>
    (incremental_gc ops roots h h' \<longrightarrow> walk peek (trace ops) h' r p = walk peek (trace ops) h r p)"
  using assms major.walk_preserved minor.walk_preserved incremental.walk_preserved by blast

lemma walk_reach:
  assumes "\<And>k. k \<in> R \<Longrightarrow> peek h' (fwd k) = map_option rl (peek h k)"
    and law: "\<And>v. trace ops (rl v) = map fwd (trace ops v)"
    and R: "R = reach h (trace ops) (set roots)"
  shows "k \<in> R \<Longrightarrow> walk peek (trace ops) h k p = Some v \<Longrightarrow>
    walk peek (trace ops) h' (fwd k) p = Some (rl v)"
proof (induction p arbitrary: k)
  case (Cons i p)
  obtain u c where u: "peek h k = Some u" "get_opt (trace ops u) i = Some c" "walk peek (trace ops) h c p = Some v"
    using Cons.prems(2) by (auto split: option.splits)
  then have "is_live h c" by (cases p) (auto simp: is_live_peek split: option.splits)
  then have "c \<in> R"
    using u Cons.prems(1) unfolding R by (auto simp: get_opt_def split: if_splits intro: reach.edge)
  then have "walk peek (trace ops) h' (fwd c) p = Some (rl v)" using Cons.IH u(3) by blast
  moreover have "get_opt (trace ops (rl u)) i = Some (fwd c)"
    using u(2) by (auto simp: law get_opt_def split: if_splits)
  ultimately show ?case using assms(1) [OF Cons.prems(1)] u(1) by simp
next
  case Nil
  then show ?case using assms(1) [of k] by simp
qed

text \<open>C2: moving collection is an isomorphism. \<open>compact_with\<close> returns the roots renamed by the forwarding
  function; it renames the reachable objects one to one onto the live objects of the new table, so that it
  holds nothing else, and every path that led from a root to an object leads from the renamed root to that
  object, rewritten by its own \<open>relocate\<close>, provided \<open>relocate\<close> rewrites every traced handle.\<close>

theorem compaction_isomorphism:
  assumes "heap_inv h" "hp_poison h = None" "\<And>f v. trace ops (reloc f v) = map f (trace ops v)"
  shows "\<exists>st h' fwd. compact_with ops reloc h roots = Inr (st, h', map fwd roots, fwd) \<and> heap_inv h' \<and>
    bij_betw fwd (reach h (trace ops) (set roots)) (live_set h') \<and>
    (\<forall>r p v. r \<in> set roots \<longrightarrow> walk peek (trace ops) h r p = Some v \<longrightarrow>
       walk peek (trace ops) h' (fwd r) p = Some (reloc fwd v)) \<and>
    st_marked st = len h' \<and> st_swept st = len h - len h'"
proof -
  define R where "R = reach h (trace ops) (set roots)"
  show ?thesis
  proof (rule compact_exact [OF assms(1,2) R_def, of reloc "\<lambda>_. []"])
    fix st h' fwd
    assume c: "compact_with ops reloc h roots = Inr (st, h', map fwd roots, fwd)" "heap_inv h'"
      "inj_on fwd R" "live_set h' = fwd ` R" "\<And>k. k \<in> R \<Longrightarrow> peek h' (fwd k) = map_option (reloc fwd) (peek h k)"
      "st_marked st = card R" "st_swept st = len h - card R"
    have "len h' = card R" using len_card [OF c(2)] c(3,4) by (simp add: card_image)
    moreover have "walk peek (trace ops) h' (fwd r) p = Some (reloc fwd v)"
      if "r \<in> set roots" "walk peek (trace ops) h r p = Some v" for r p v
    proof (rule walk_reach [where fwd = fwd and rl = "reloc fwd", OF c(5) assms(3) R_def _ that(2)])
      have "is_live h r" using that(2) by (cases p) (auto simp: is_live_peek split: option.splits)
      then show "r \<in> R" unfolding R_def using that(1) by (rule reach.root [rotated])
    qed
    ultimately show ?thesis
      using c R_def by (intro exI [of _ st] exI [of _ h'] exI [of _ fwd]) (simp add: bij_betw_def)
  qed
qed

end
