(* ===== verification/GcWitness.thy ===== *)
theory GcWitness
  imports GcTransparent
begin

text \<open>
  The collectors on a concrete table of three young objects, the second of which refers to the first:
  every hypothesis of the heap and collector properties holds there.
\<close>

definition demo_ops :: "(handle list, unit) trace_ops" where
  "demo_ops = default_trace_ops (\<lambda>v. v)"

definition demo_handle :: "nat \<Rightarrow> handle" where
  "demo_handle i = \<lparr>h_index = of_nat i, h_generation = 0\<rparr>"

definition demo_values :: "handle list list" where
  "demo_values = [[], [demo_handle 0], []]"

definition demo_heap :: "(handle list, unit) heap" where
  "demo_heap = (new_heap ())\<lparr>hp_slots := map (slot_live 0 0) demo_values, hp_allocs_since_gc := 3\<rparr>"

lemma alloc_push:
  assumes "hp_free_top h = 0" "hp_young_floor h = 0" "length (hp_slots h) < 2 ^ 32 - 1"
  shows "alloc h v = Inr (\<lparr>h_index = of_nat (length (hp_slots h)), h_generation = 0\<rparr>,
    h\<lparr>hp_slots := hp_slots h @ [slot_live 0 0 v], hp_allocs_since_gc := hp_allocs_since_gc h + 1\<rparr>)"
  using assms by (simp add: alloc_def Let_def)

lemma demo_alloc:
  "alloc_all alloc (new_heap ()) demo_values = Inr (map demo_handle [0, 1, 2], demo_heap)"
  by (simp add: demo_heap_def demo_values_def new_heap_def alloc_push demo_handle_def)

lemma demo_all:
  "heap_inv demo_heap \<and> hp_poison demo_heap = None"
  "peek demo_heap = (peek (new_heap ()))(map demo_handle [0, 1, 2] [\<mapsto>] demo_values)"
proof -
  have "heap_inv (new_heap () :: (handle list, unit) heap) \<and> hp_poison (new_heap () :: (handle list, unit) heap) = None"
    by (simp add: heap_inv_new) (simp add: new_heap_def)
  from heap_store.new_all [OF this demo_alloc]
  show "heap_inv demo_heap \<and> hp_poison demo_heap = None"
    "peek demo_heap = (peek (new_heap ()))(map demo_handle [0, 1, 2] [\<mapsto>] demo_values)" by blast+
qed

lemmas demo_inv = conjunct1 [OF demo_all(1)] conjunct2 [OF demo_all(1)]

lemma demo_handle_eq [simp]: "i < 2 ^ 32 \<Longrightarrow> j < 2 ^ 32 \<Longrightarrow> demo_handle i = demo_handle j \<longleftrightarrow> i = j"
  by (simp add: demo_handle_def of_nat_u32_inject)

lemma demo_peek:
  "peek demo_heap (demo_handle 0) = Some []" "peek demo_heap (demo_handle 1) = Some [demo_handle 0]"
  "peek demo_heap (demo_handle 2) = Some []"
  by (simp_all add: demo_all(2) demo_values_def)

lemmas demo_peeks = demo_peek demo_peek [simplified]

lemma demo_live_set: "live_set demo_heap = {demo_handle 0, demo_handle 1, demo_handle 2}"
proof -
  have "peek (new_heap () :: (handle list, unit) heap) k = None" for k by (simp add: peek_def new_heap_def)
  then show ?thesis
    by (auto simp: live_set_def is_live_peek demo_all(2) demo_values_def split: if_splits)
qed

lemma demo_splits: "trace_splits demo_ops" 
  by (simp add: trace_splits_def demo_ops_def default_trace_ops_def)

lemma demo_expands: "expands (\<lambda>_ _. []) {}"
  by (simp add: expands_def)

lemma demo_run: "gc_run demo_ops (\<lambda>_. []) demo_heap {demo_handle 0, demo_handle 1, demo_handle 2}"
proof -
  obtain h1 where 1: "alloc (new_heap ()) [] = Inr (demo_handle 0, h1)" 
    and "\<exists>h2. alloc h1 [demo_handle 0] = Inr (demo_handle 1, h2) \<and> alloc h2 [] = Inr (demo_handle 2, demo_heap)"
    using demo_alloc by (auto simp: demo_values_def split: sum.splits)
  then obtain h2 where 2: "alloc h1 [demo_handle 0] = Inr (demo_handle 1, h2)" and 3: "alloc h2 [] = Inr (demo_handle 2, demo_heap)"
    by blast
  have g1: "gc_run demo_ops (\<lambda>_. []) h1 {demo_handle 0}"
    by (rule gc_run.run_alloc [OF gc_run.run_new 1]) (simp add: refs_def demo_ops_def default_trace_ops_def)
  have g2: "gc_run demo_ops (\<lambda>_. []) h2 {demo_handle 1, demo_handle 0}"
    by (rule gc_run.run_alloc [OF g1 2]) (simp add: refs_def demo_ops_def default_trace_ops_def)
  have "gc_run demo_ops (\<lambda>_. []) demo_heap {demo_handle 2, demo_handle 1, demo_handle 0}"
    by (rule gc_run.run_alloc [OF g2 3]) (simp add: refs_def demo_ops_def default_trace_ops_def)
  then show ?thesis by (simp add: insert_commute)
qed


theorem alloc_total_witness: "\<exists>k h'. alloc demo_heap [] = Inr (k, h')"
proof -
  have "length (hp_slots demo_heap) \<noteq> 2 ^ 32 - 1" by (simp add: demo_heap_def demo_values_def)
  then show ?thesis using alloc_total [OF demo_inv(1), of "[]"] by blast
qed

theorem allocations_independent_witness:
  "peek demo_heap = (peek (new_heap ()))(map demo_handle [0, 1, 2] [\<mapsto>] demo_values) \<and>
   distinct (map demo_handle [0, 1, 2])"
  using allocations_independent [OF heap_inv_new _ demo_alloc] by (simp add: new_heap_def)

theorem free_makes_stale_witness:
  "fst (free demo_heap (demo_handle 1)) = Some [demo_handle 0] \<and>
   peek (snd (free demo_heap (demo_handle 1))) (demo_handle 1) = None"
  using free_makes_stale [OF demo_inv, of "demo_handle 1" "fst (free demo_heap (demo_handle 1))"
      "snd (free demo_heap (demo_handle 1))" "fst (free (snd (free demo_heap (demo_handle 1))) (demo_handle 1))"
      "snd (free (snd (free demo_heap (demo_handle 1))) (demo_handle 1))"]
  by (simp add: demo_peeks)

definition demo_acc :: "unit sweep_acc" where
  "demo_acc = \<lparr>a_free = [], a_remembered = [], a_live = 3, a_poison = None, a_pool = (), a_swept = 0\<rparr>"

theorem sweep_young_fast_correct_witness:
  "\<exists>swept sl' fr' rem' pool'. sweep_young_fast demo_ops (\<lambda>_. False) (hp_slots demo_heap) (hp_free demo_heap)
     (hp_free_top demo_heap) (hp_young_floor demo_heap) [] () = Inr (swept, sl', fr', rem', pool')"
  using sweep_young_fast_correct [OF demo_inv(1), of "hp_slots demo_heap" demo_acc demo_ops "\<lambda>_. False"]
  by (simp add: demo_acc_def) blast

theorem ephemerons_correct_witness:
  "\<exists>m. mark_with_ephemerons_scan demo_ops demo_heap [demo_handle 1] (\<lambda>_. []) (\<lambda>_ _. []) = Inr (demo_heap, m)"
  using ephemerons_correct [OF demo_inv demo_expands, of demo_ops "[demo_handle 1]" "\<lambda>_. []"] by blast

theorem collect_correct_witness:
  "\<exists>st h'. collect demo_ops demo_heap [demo_handle 1] = Inr (st, h') \<and>
     peek h' (demo_handle 1) = Some [demo_handle 0] \<and> peek h' (demo_handle 0) = Some []"
proof -
  have 1: "demo_handle 1 \<in> reach demo_heap (trace demo_ops) (set [demo_handle 1])"
    by (rule reach.root) (simp_all add: is_live_peek demo_peeks)
  have 0: "demo_handle 0 \<in> reach demo_heap (trace demo_ops) (set [demo_handle 1])"
    by (rule reach.edge [OF 1 demo_peek(2)])
       (simp_all add: demo_ops_def default_trace_ops_def is_live_peek demo_peeks)
  show ?thesis
    using collect_correct [OF demo_inv, of demo_ops "[demo_handle 1]"] 0 1 demo_peek by metis
qed

text \<open>The check passes there; with the young floor moved past the objects, none of them is visible to the
  minor sweep, and it reports the first.\<close>

definition demo_hidden :: "(handle list, unit) heap" where
  "demo_hidden = demo_heap\<lparr>hp_young_floor := 3\<rparr>"

lemma demo_table: "table_inv demo_heap" "table_inv demo_hidden" "hp_poison demo_hidden = None"
proof -
  show t: "table_inv demo_heap" "hp_poison demo_hidden = None"
    using demo_inv by (simp_all add: heap_inv_table demo_hidden_def)
  have "length (hp_slots demo_heap) = 3" by (simp add: demo_heap_def demo_values_def)
  then show "table_inv demo_hidden"
    using t(1) by (simp add: demo_hidden_def table_inv_def len_def)
qed

lemma demo_young: "is_young demo_heap k \<longleftrightarrow> is_live demo_heap k" "is_young demo_hidden k \<longleftrightarrow> is_live demo_heap k"
proof -
  have age: "s_age s = 0" if "s \<in> set (hp_slots demo_heap)" for s using that by (auto simp: demo_heap_def slot_live_def)
  show "is_young demo_heap k \<longleftrightarrow> is_live demo_heap k" "is_young demo_hidden k \<longleftrightarrow> is_live demo_heap k"
    using age by (auto simp: is_young_def is_live_def get_opt_def demo_hidden_def OLD_AGE_def split: if_splits)
qed

theorem verifier_exact_witness:
  "gc_remembered_violation demo_ops demo_heap (\<lambda>_. []) = Inr None \<and>
   (\<exists>a. gc_remembered_violation demo_ops demo_hidden (\<lambda>_. []) = Inr (Some (a, a)))"
proof -
  have pk: "peek demo_hidden = peek demo_heap" by (simp add: fun_eq_iff peek_def demo_hidden_def)
  have sl: "hp_free demo_heap = []" "hp_young_floor demo_heap = 0" "length (hp_slots demo_heap) = 3"
    by (simp_all add: demo_heap_def demo_values_def new_heap_def)
  have nur: "set (nursery (hp_free demo_heap) (hp_free_top demo_heap) (hp_young_floor demo_heap) (hp_slots demo_heap)) = {0, 1, 2}"
    unfolding nursery_def sl by (simp add: upt_rec [of _ "3::nat"] insert_commute)
  have nur': "nursery (hp_free demo_hidden) (hp_free_top demo_hidden) (hp_young_floor demo_hidden) (hp_slots demo_hidden) = []"
    by (simp add: nursery_def demo_hidden_def sl)
  have h: "is_young demo_heap k \<and> h_index k \<in> {0, 1, 2}" if "peek demo_heap k = Some v" for k v
  proof -
    have k: "is_live demo_heap k" using that by (simp add: is_live_peek)
    then have "k \<in> {demo_handle 0, demo_handle 1, demo_handle 2}" using demo_live_set by (auto simp: live_set_def)
    then show ?thesis using k by (auto simp: demo_young demo_handle_def)
  qed
  have all: "\<forall>k v. peek demo_heap k = Some v \<longrightarrow>
      (if is_young demo_heap k
       then h_index k \<in> set (nursery (hp_free demo_heap) (hp_free_top demo_heap) (hp_young_floor demo_heap) (hp_slots demo_heap))
       else edges_remembered demo_ops (\<lambda>_. []) demo_heap k v)"
    unfolding nur using h by simp
  have pass: "gc_remembered_violation demo_ops demo_heap (\<lambda>_. []) = Inr None"
    using verifier_exact [OF demo_table(1) demo_inv(2), of demo_ops "\<lambda>_. []"] all by (elim exE conjE) simp
  obtain r where r: "gc_remembered_violation demo_ops demo_hidden (\<lambda>_. []) = Inr r"
      "r = None \<longleftrightarrow> (\<forall>k v. peek demo_heap k = Some v \<longrightarrow>
         (if is_young demo_hidden k then h_index k \<in> set [] else edges_remembered demo_ops (\<lambda>_. []) demo_hidden k v))"
      "\<forall>a b. r = Some (a, b) \<longrightarrow> (\<exists>v. peek demo_heap a = Some v \<and> (a = b \<or> \<not> is_young demo_hidden a \<and> is_young demo_hidden b))"
    using verifier_exact [OF demo_table(2,3), of demo_ops "\<lambda>_. []"] unfolding nur' pk by (elim exE conjE) (rule that)
  have "is_young demo_hidden (demo_handle 0)" unfolding demo_young using demo_peek(1) by (simp add: is_live_peek)
  then have "r \<noteq> None" unfolding r(2) using demo_peek(1) by (intro notI) (drule spec [of _ "demo_handle 0"], simp)
  then obtain a b where ab: "r = Some (a, b)" by auto
  then have "r = Some (a, a)" using r(3) demo_young(2) [of a] by (auto simp: is_live_peek)
  then show ?thesis using r(1) pass by blast
qed

lemma demo_reach_one: "reach demo_heap (trace demo_ops) {demo_handle 0} = {demo_handle 0}"
proof
  show "reach demo_heap (trace demo_ops) {demo_handle 0} \<subseteq> {demo_handle 0}"
    by (rule reach_least) (auto simp: closed_but_def demo_peeks demo_ops_def default_trace_ops_def)
  show "{demo_handle 0} \<subseteq> reach demo_heap (trace demo_ops) {demo_handle 0}"
    by (auto intro: reach.root simp: is_live_peek demo_peeks)
qed

text \<open>A compaction that keeps only the first object: the next allocation is given the handle of the second
  one again.\<close>

theorem alloc_never_reissues_witness:
  "(\<exists>k h'. alloc demo_heap [] = Inr (k, h') \<and> k \<notin> {demo_handle 0, demo_handle 1, demo_handle 2}) \<and>
   (\<exists>st h1 fwd h2. compact_with demo_ops map demo_heap [demo_handle 0] = Inr (st, h1, [fwd (demo_handle 0)], fwd) \<and>
      alloc h1 [] = Inr (demo_handle 1, h2))"
proof -
  have "hp_free_top demo_heap = 0" "hp_young_floor demo_heap = 0" "length (hp_slots demo_heap) < 2 ^ 32 - 1"
    by (simp_all add: demo_heap_def demo_values_def new_heap_def)
  note a = alloc_push [OF this, of "[]"]
  note never = alloc_never_reissues [OF demo_run demo_splits]
  have fresh: "\<exists>k h'. alloc demo_heap [] = Inr (k, h') \<and> k \<notin> {demo_handle 0, demo_handle 1, demo_handle 2}"
    using never a by blast
  obtain st h1 fwd where c: "compact_with demo_ops map demo_heap [demo_handle 0] = Inr (st, h1, [fwd (demo_handle 0)], fwd)"
      "heap_inv h1"
    by (rule compact_exact [OF demo_inv refl, of demo_ops map "[demo_handle 0]" "\<lambda>_. []"]) simp
  have "length (hp_slots h1) = 1"
    using compact_table [OF demo_inv c(1)] by (simp add: demo_reach_one)
  then obtain k h2 where k: "alloc h1 [] = Inr (k, h2)" using alloc_total [OF c(2), of "[]"] by auto
  have "k = \<lparr>h_index = of_nat (card (reach demo_heap (trace demo_ops) (set [demo_handle 0]))), h_generation = 0\<rparr>"
    using conjunct2 [OF never] c(1) k by blast
  moreover have "card (reach demo_heap (trace demo_ops) (set [demo_handle 0])) = 1" by (simp add: demo_reach_one)
  ultimately have kk: "k = demo_handle 1" by (simp add: demo_handle_def)
  show ?thesis using fresh c(1) k kk by blast
qed


lemma demo_budget:
  "card (live_set demo_heap - im_marked (IncrementalMarker_new [demo_handle 1])) +
     length (im_grey (IncrementalMarker_new [demo_handle 1])) \<le> 10"
proof -
  have "card (live_set demo_heap - im_marked (IncrementalMarker_new [demo_handle 1])) \<le> card (live_set demo_heap)"
    by (rule card_mono) (auto simp: demo_live_set)
  then show ?thesis by (simp add: demo_live_set IncrementalMarker_new_def mark_grey_def)
qed

theorem incremental_step_completes_witness:
  "\<exists>m'. step demo_ops (IncrementalMarker_new [demo_handle 1]) demo_heap 10 = Inr (True, m', demo_heap) \<and> is_complete m'"
  by (rule incremental_step_completes [OF demo_inv(2) demo_budget])

lemma demo_marking:
  obtains m where "marking_run demo_ops [demo_handle 1] demo_heap {demo_handle 1} m demo_heap" "is_complete m"
proof -
  obtain m where m: "step demo_ops (IncrementalMarker_new [demo_handle 1]) demo_heap 10 = Inr (True, m, demo_heap)" "is_complete m"
    using step_finishes [OF demo_inv(2) demo_budget] by blast
  have "marking_run demo_ops [demo_handle 1] demo_heap (set [demo_handle 1]) m demo_heap"
    by (rule marking_run.mr_step [OF marking_run.mr_new marking_step.mk_step [OF m(1)]])
  then show thesis using that [OF _ m(2)] by simp
qed

theorem incremental_marking_sound_witness:
  "\<exists>m n h'. marking_run demo_ops [demo_handle 1] demo_heap {demo_handle 1} m demo_heap \<and>
     IncrementalMarker_sweep m demo_heap = (n, h') \<and> peek h' (demo_handle 1) = Some [demo_handle 0]"
proof -
  obtain m where m: "marking_run demo_ops [demo_handle 1] demo_heap {demo_handle 1} m demo_heap" "is_complete m"
    by (rule demo_marking)
  obtain n h' where s: "IncrementalMarker_sweep m demo_heap = (n, h')" by fastforce
  have "demo_handle 1 \<in> reach demo_heap (trace demo_ops) {demo_handle 1}"
    by (rule reach.root) (simp_all add: is_live_peek demo_peeks)
  then have "peek h' (demo_handle 1) = peek demo_heap (demo_handle 1)"
    using incremental_marking_sound [OF demo_inv m(1)] m(2) s by blast
  then show ?thesis using m s demo_peek(2) by auto
qed

theorem collections_unobservable_witness:
  "\<exists>h'. major_gc demo_ops [demo_handle 1] demo_heap h' \<and>
     walk peek (trace demo_ops) h' (demo_handle 1) [0] = walk peek (trace demo_ops) demo_heap (demo_handle 1) [0] \<and>
     walk peek (trace demo_ops) demo_heap (demo_handle 1) [0] = Some []"
proof -
  obtain h' where g: "major_gc demo_ops [demo_handle 1] demo_heap h'"
    using collect_exact [OF demo_inv, of demo_ops "[demo_handle 1]"] demo_inv by (auto simp: major_gc_def)
  have "walk peek (trace demo_ops) demo_heap (demo_handle 1) [0] = Some []"
    by (simp add: demo_peeks get_opt_def demo_ops_def default_trace_ops_def)
  then show ?thesis
    using g collections_unobservable [of "demo_handle 1" "[demo_handle 1]" demo_ops demo_heap h' "[0]" "\<lambda>_. []"] by auto
qed

theorem compaction_isomorphism_witness:
  "\<exists>st h' fwd. compact_with demo_ops map demo_heap [demo_handle 1] = Inr (st, h', map fwd [demo_handle 1], fwd) \<and>
     walk peek (trace demo_ops) h' (fwd (demo_handle 1)) [0] = Some []"
proof -
  have l: "trace demo_ops (map f v) = map f (trace demo_ops v)" for f v
    by (simp add: demo_ops_def default_trace_ops_def)
  have "walk peek (trace demo_ops) demo_heap (demo_handle 1) [0] = Some []"
    by (simp add: demo_peeks get_opt_def demo_ops_def default_trace_ops_def)
  moreover obtain st h' fwd where
    "compact_with demo_ops map demo_heap [demo_handle 1] = Inr (st, h', map fwd [demo_handle 1], fwd)"
    "\<forall>r p v. r \<in> set [demo_handle 1] \<longrightarrow> walk peek (trace demo_ops) demo_heap r p = Some v \<longrightarrow>
       walk peek (trace demo_ops) h' (fwd r) p = Some (map fwd v)"
    using compaction_isomorphism [OF demo_inv l, of "[demo_handle 1]"] by blast
  ultimately show ?thesis by (metis list.set_intros(1) list.simps(8))
qed

end
