(* ===== verification/Wtf8.thy ===== *)
theory Wtf8
  imports Prelude
begin

text \<open>
  The string-storage codec of \<open>wtf8.rs\<close>: UTF-8 generalised to surrogate code points. Bytes are
  lists of 8-bit words, code points 32-bit words and UTF-16 units 16-bit words; every loop keeps
  the byte and unit positions of the source. An index past the end of a slice is \<open>None\<close>.
\<close>

subsection \<open>Constants and surrogates\<close>

definition TWO_BYTE_MIN :: u32 where "TWO_BYTE_MIN = 0x80"
definition THREE_BYTE_MIN :: u32 where "THREE_BYTE_MIN = 0x800"
definition FOUR_BYTE_MIN :: u32 where "FOUR_BYTE_MIN = 0x10000"
definition CODE_POINT_MAX :: u32 where "CODE_POINT_MAX = 0x10FFFF"
definition SURROGATE_MIN :: u32 where "SURROGATE_MIN = 0xD800"
definition SURROGATE_MAX :: u32 where "SURROGATE_MAX = 0xDFFF"
definition HIGH_SURROGATE_MAX :: u32 where "HIGH_SURROGATE_MAX = 0xDBFF"
definition LOW_SURROGATE_MIN :: u32 where "LOW_SURROGATE_MIN = 0xDC00"

lemmas wtf8_consts = TWO_BYTE_MIN_def THREE_BYTE_MIN_def FOUR_BYTE_MIN_def CODE_POINT_MAX_def
  SURROGATE_MIN_def SURROGATE_MAX_def HIGH_SURROGATE_MAX_def LOW_SURROGATE_MIN_def

definition is_surrogate :: "u32 \<Rightarrow> bool" where
  "is_surrogate cp = (SURROGATE_MIN \<le> cp \<and> cp \<le> SURROGATE_MAX)"

definition is_high :: "u32 \<Rightarrow> bool" where
  "is_high cp = (SURROGATE_MIN \<le> cp \<and> cp \<le> HIGH_SURROGATE_MAX)"

definition is_low :: "u32 \<Rightarrow> bool" where
  "is_low cp = (LOW_SURROGATE_MIN \<le> cp \<and> cp \<le> SURROGATE_MAX)"

text \<open>The three bytes of a surrogate; the caller passes a slice of any length.\<close>

fun decode_surrogate3 :: "u8 list \<Rightarrow> u32 option" where
  "decode_surrogate3 [b0, b1, b2] =
     (if b0 \<noteq> 0xED \<or> b1 AND 0xC0 \<noteq> 0x80 \<or> b2 AND 0xC0 \<noteq> 0x80 then None
      else let cp = push_bit 12 (ucast (b0 AND 0x0F)) OR push_bit 6 (ucast (b1 AND 0x3F)) OR ucast (b2 AND 0x3F)
           in if is_surrogate cp then Some cp else None)"
| "decode_surrogate3 _ = None"

definition trailing_high_surrogate :: "u8 list \<Rightarrow> u16 option" where
  "trailing_high_surrogate bytes =
     (let n = length bytes in
      if n < 3 then None
      else case decode_surrogate3 (drop (n - 3) bytes) of
             None \<Rightarrow> None
           | Some cp \<Rightarrow> if is_high cp then Some (ucast cp) else None)"

definition leading_low_surrogate :: "u8 list \<Rightarrow> u16 option" where
  "leading_low_surrogate bytes =
     (if length bytes < 3 then None
      else case decode_surrogate3 (take 3 bytes) of
             None \<Rightarrow> None
           | Some cp \<Rightarrow> if is_low cp then Some (ucast cp) else None)"

subsection \<open>Encoding\<close>

text \<open>The bytes \<open>encode_code_point\<close> appends to \<open>out\<close>.\<close>

definition encode_code_point :: "u32 \<Rightarrow> u8 list \<Rightarrow> u8 list" where
  "encode_code_point cp0 out =
     (let cp = (if CODE_POINT_MAX < cp0 then 0xFFFD else cp0) in
      if cp < TWO_BYTE_MIN then out @ [ucast cp]
      else if cp < THREE_BYTE_MIN then
        out @ [ucast (0xC0 OR drop_bit 6 cp), ucast (0x80 OR (cp AND 0x3F))]
      else if cp < FOUR_BYTE_MIN then
        out @ [ucast (0xE0 OR drop_bit 12 cp), ucast (0x80 OR (drop_bit 6 cp AND 0x3F)),
               ucast (0x80 OR (cp AND 0x3F))]
      else
        out @ [ucast (0xF0 OR drop_bit 18 cp), ucast (0x80 OR (drop_bit 12 cp AND 0x3F)),
               ucast (0x80 OR (drop_bit 6 cp AND 0x3F)), ucast (0x80 OR (cp AND 0x3F))])"

definition encode_utf16_unit :: "u16 \<Rightarrow> u8 list \<Rightarrow> u8 list" where
  "encode_utf16_unit u out = encode_code_point (ucast u) out"

text \<open>The scalar a surrogate pair denotes.\<close>

definition astral :: "u32 \<Rightarrow> u32 \<Rightarrow> u32" where
  "astral hi lo = 0x10000 + push_bit 10 (hi - 0xD800) + (lo - 0xDC00)"

text \<open>The loop of \<open>push_utf16\<close> from position \<open>i\<close>: a list of the units still to be read.\<close>

fun push_utf16_loop :: "u16 list \<Rightarrow> u8 list \<Rightarrow> u8 list" where
  "push_utf16_loop [] out = out"
| "push_utf16_loop [u] out = encode_code_point (ucast u) out"
| "push_utf16_loop (u # lo # us) out =
     (if is_high (ucast u) \<and> is_low (ucast lo)
      then push_utf16_loop us (encode_code_point (astral (ucast u) (ucast lo)) out)
      else push_utf16_loop (lo # us) (encode_code_point (ucast u) out))"

definition push_utf16 :: "u8 list \<Rightarrow> u16 list \<Rightarrow> u8 list" where
  "push_utf16 out units =
     (let ascii = takeWhile (\<lambda>u. u < 0x80) units
      in push_utf16_loop (drop (length ascii) units) (out @ map ucast ascii))"

definition from_utf16 :: "u16 list \<Rightarrow> u8 list" where
  "from_utf16 units = push_utf16 [] units"

definition append_wtf8 :: "u8 list \<Rightarrow> u8 list \<Rightarrow> u8 list" where
  "append_wtf8 out add =
     (case (trailing_high_surrogate out, leading_low_surrogate add) of
        (Some hi, Some lo) \<Rightarrow>
          encode_code_point (astral (ucast hi) (ucast lo)) (take (length out - 3) out) @ drop 3 add
      | _ \<Rightarrow> out @ add)"

definition append_utf16 :: "u8 list \<Rightarrow> u16 list \<Rightarrow> u8 list" where
  "append_utf16 out units =
     (if (case units of [] \<Rightarrow> False | u # _ \<Rightarrow> is_low (ucast u)) \<and> trailing_high_surrogate out \<noteq> None
      then append_wtf8 out (from_utf16 units)
      else push_utf16 out units)"

subsection \<open>Decoding\<close>

definition cont :: "u8 list \<Rightarrow> nat \<Rightarrow> u32" where
  "cont bytes k = ucast (bytes ! k AND 0x3F)"

definition decode_code_point :: "u8 list \<Rightarrow> nat \<Rightarrow> (u32 \<times> nat) option" where
  "decode_code_point bytes i = (case get_opt bytes i of
       None \<Rightarrow> None
     | Some b0 \<Rightarrow> Some (
         if b0 < 0x80 then (ucast b0, 1)
         else if b0 < 0xE0 \<and> i + 1 < length bytes
         then (push_bit 6 (ucast (b0 AND 0x1F)) OR cont bytes (i + 1), 2)
         else if \<not> b0 < 0xE0 \<and> b0 < 0xF0 \<and> i + 2 < length bytes
         then (push_bit 12 (ucast (b0 AND 0x0F)) OR push_bit 6 (cont bytes (i + 1)) OR cont bytes (i + 2), 3)
         else if \<not> b0 < 0xF0 \<and> i + 3 < length bytes
         then (push_bit 18 (ucast (b0 AND 0x07)) OR push_bit 12 (cont bytes (i + 1)) OR
               push_bit 6 (cont bytes (i + 2)) OR cont bytes (i + 3), 4)
         else (0xFFFD, 1)))"

lemma decode_None: "decode_code_point bytes i = None \<longleftrightarrow> length bytes \<le> i"
  by (simp add: decode_code_point_def get_opt_eq_None split: option.splits) (auto simp: get_opt_def)

text \<open>Decoding always makes progress and stays inside the slice.\<close>

lemma decode_progress:
  "decode_code_point bytes i = Some (cp, n) \<Longrightarrow> 0 < n \<and> i + n \<le> length bytes"
  by (auto simp: decode_code_point_def get_opt_eq_Some split: option.splits if_splits)

record code_points_iter =
  cp_bytes :: "u8 list"
  cp_i :: nat

definition code_points :: "u8 list \<Rightarrow> code_points_iter" where
  "code_points bytes = \<lparr>cp_bytes = bytes, cp_i = 0\<rparr>"

definition CodePoints_next :: "code_points_iter \<Rightarrow> u32 option \<times> code_points_iter" where
  "CodePoints_next it =
     (if length (cp_bytes it) \<le> cp_i it then (None, it)
      else case decode_code_point (cp_bytes it) (cp_i it) of
             None \<Rightarrow> (None, it)
           | Some (cp, n) \<Rightarrow> (Some cp, it\<lparr>cp_i := cp_i it + n\<rparr>))"

record utf16_units_iter =
  u_inner :: code_points_iter
  u_pending_low :: "u16 option"

definition utf16_units :: "u8 list \<Rightarrow> utf16_units_iter" where
  "utf16_units bytes = \<lparr>u_inner = code_points bytes, u_pending_low = None\<rparr>"

definition high_half :: "u32 \<Rightarrow> u16" where
  "high_half cp = ucast (SURROGATE_MIN + drop_bit 10 (cp - FOUR_BYTE_MIN))"

definition low_half :: "u32 \<Rightarrow> u16" where
  "low_half cp = ucast (LOW_SURROGATE_MIN + ((cp - FOUR_BYTE_MIN) AND 0x3FF))"

definition Utf16Units_next :: "utf16_units_iter \<Rightarrow> u16 option \<times> utf16_units_iter" where
  "Utf16Units_next it = (case u_pending_low it of
       Some lo \<Rightarrow> (Some lo, it\<lparr>u_pending_low := None\<rparr>)
     | None \<Rightarrow> (case CodePoints_next (u_inner it) of
         (None, inner) \<Rightarrow> (None, it\<lparr>u_inner := inner\<rparr>)
       | (Some cp, inner) \<Rightarrow>
           if FOUR_BYTE_MIN \<le> cp
           then (Some (high_half cp), it\<lparr>u_inner := inner, u_pending_low := Some (low_half cp)\<rparr>)
           else (Some (ucast cp), it\<lparr>u_inner := inner\<rparr>)))"

text \<open>Draining an iterator, as a \<open>for\<close> loop does.\<close>

lemma CodePoints_next_less:
  assumes "CodePoints_next it = (Some cp, it')"
  shows "cp_bytes it' = cp_bytes it" "length (cp_bytes it') - cp_i it' < length (cp_bytes it) - cp_i it"
  using assms by (auto simp: CodePoints_next_def split: if_splits option.splits dest: decode_progress)

function code_points_collect :: "code_points_iter \<Rightarrow> u32 list" where
  "code_points_collect it = (case CodePoints_next it of
       (None, _) \<Rightarrow> []
     | (Some cp, it') \<Rightarrow> cp # code_points_collect it')"
  by pat_completeness auto
termination
  by (relation "measure (\<lambda>it. length (cp_bytes it) - cp_i it)")
     (auto dest!: sym [of "(Some _, _)"] dest: CodePoints_next_less(2))

definition utf16_left :: "utf16_units_iter \<Rightarrow> nat" where
  "utf16_left it = 2 * (length (cp_bytes (u_inner it)) - cp_i (u_inner it)) +
     (if u_pending_low it = None then 0 else 1)"

lemma Utf16Units_next_less:
  assumes "Utf16Units_next it = (Some u, it')"
  shows "utf16_left it' < utf16_left it"
proof (cases "u_pending_low it")
  case None
  then obtain cp inner where n: "CodePoints_next (u_inner it) = (Some cp, inner)" "u_inner it' = inner"
    using assms by (auto simp: Utf16Units_next_def split: prod.splits option.splits if_splits)
  then show ?thesis using CodePoints_next_less [OF n(1)] None by (auto simp: utf16_left_def)
qed (use assms in \<open>auto simp: Utf16Units_next_def utf16_left_def\<close>)

function utf16_collect :: "utf16_units_iter \<Rightarrow> u16 list" where
  "utf16_collect it = (case Utf16Units_next it of
       (None, _) \<Rightarrow> []
     | (Some u, it') \<Rightarrow> u # utf16_collect it')"
  by pat_completeness auto
termination
  by (relation "measure utf16_left") (auto dest!: sym [of "(Some _, _)"] dest: Utf16Units_next_less)

declare code_points_collect.simps [simp del] utf16_collect.simps [simp del]

text \<open>\<open>Iterator::nth\<close>: skips \<open>n\<close> items and returns the next.\<close>

fun Utf16Units_nth :: "utf16_units_iter \<Rightarrow> nat \<Rightarrow> u16 option" where
  "Utf16Units_nth it 0 = fst (Utf16Units_next it)"
| "Utf16Units_nth it (Suc n) = (case Utf16Units_next it of
       (None, _) \<Rightarrow> None
     | (Some _, it') \<Rightarrow> Utf16Units_nth it' n)"

definition utf16_index :: "u8 list \<Rightarrow> nat \<Rightarrow> u16 option" where
  "utf16_index bytes i = Utf16Units_nth (utf16_units bytes) i"

subsection \<open>Length, indexing and slicing by UTF-16 units\<close>

fun from_le_bytes :: "u8 list \<Rightarrow> u64" where
  "from_le_bytes [] = 0"
| "from_le_bytes (b # bs) = ucast b OR push_bit 8 (from_le_bytes bs)"

definition count_ones :: "u64 \<Rightarrow> nat" where
  "count_ones w = length (filter (bit w) [0..<64])"

definition HI :: u64 where "HI = 0x8080808080808080"

definition word_units :: "u64 \<Rightarrow> nat" where
  "word_units x =
     (if x AND HI = 0 then 8
      else let cn = x AND NOT (push_bit 1 x) AND HI;
               four = x AND push_bit 1 x AND push_bit 2 x AND push_bit 3 x AND HI
           in 8 - count_ones cn + count_ones four)"

definition byte_units :: "u8 \<Rightarrow> nat" where
  "byte_units b = (if b AND 0xC0 \<noteq> 0x80 then 1 else 0) + (if 0xF0 \<le> b then 1 else 0)"

function utf16_len_from :: "nat \<Rightarrow> u8 list \<Rightarrow> nat" where
  "utf16_len_from n bytes =
     (if 8 \<le> length bytes
      then utf16_len_from (n + word_units (from_le_bytes (take 8 bytes))) (drop 8 bytes)
      else n + sum_list (map byte_units bytes))"
  by pat_completeness auto
termination by (relation "measure (\<lambda>(n, bytes). length bytes)") auto

declare utf16_len_from.simps [simp del]

definition utf16_len :: "u8 list \<Rightarrow> nat" where
  "utf16_len bytes = utf16_len_from 0 bytes"

function utf16_index_from :: "u8 list \<Rightarrow> nat \<Rightarrow> nat \<Rightarrow> nat \<Rightarrow> (u16 \<times> nat \<times> nat) option" where
  "utf16_index_from bytes byte unit i = (case decode_code_point bytes byte of
       None \<Rightarrow> None
     | Some (cp, n) \<Rightarrow>
         if FOUR_BYTE_MIN \<le> cp then
           if i < unit + 2 then
             let v = cp - FOUR_BYTE_MIN;
                 u = (if i = unit then 0xD800 OR drop_bit 10 v else 0xDC00 OR (v AND 0x3FF))
             in Some (ucast u, byte, unit)
           else utf16_index_from bytes (byte + n) (unit + 2) i
         else if i = unit then Some (ucast cp, byte, unit)
         else utf16_index_from bytes (byte + n) (unit + 1) i)"
  by pat_completeness auto
termination
  by (relation "measure (\<lambda>(bytes, byte, unit, i). length bytes - byte)")
     (auto dest!: sym [of "Some _"] dest: decode_progress)

definition cp_width :: "u32 \<Rightarrow> nat" where
  "cp_width cp = (if FOUR_BYTE_MIN \<le> cp then 2 else 1)"

function byte_offset_loop :: "u8 list \<Rightarrow> nat \<Rightarrow> bool \<Rightarrow> nat \<Rightarrow> nat \<Rightarrow> nat" where
  "byte_offset_loop bytes unit round_up units_seen i = (case decode_code_point bytes i of
       None \<Rightarrow> length bytes
     | Some (cp, n) \<Rightarrow>
         if unit \<le> units_seen then i
         else if unit < units_seen + cp_width cp then (if round_up then i + n else i)
         else byte_offset_loop bytes unit round_up (units_seen + cp_width cp) (i + n))"
  by pat_completeness auto
termination
  by (relation "measure (\<lambda>(bytes, unit, round_up, units_seen, i). length bytes - i)")
     (auto dest!: sym [of "Some _"] dest: decode_progress)

definition byte_offset_of_unit :: "u8 list \<Rightarrow> nat \<Rightarrow> bool \<Rightarrow> nat" where
  "byte_offset_of_unit bytes unit round_up =
     (if unit = 0 then 0 else byte_offset_loop bytes unit round_up 0 0)"

function char_boundary_loop :: "u8 list \<Rightarrow> nat \<Rightarrow> nat \<Rightarrow> nat \<Rightarrow> bool" where
  "char_boundary_loop bytes unit units_seen i = (case decode_code_point bytes i of
       None \<Rightarrow> True
     | Some (cp, n) \<Rightarrow>
         if units_seen = unit then True
         else if units_seen < unit \<and> unit < units_seen + cp_width cp then False
         else char_boundary_loop bytes unit (units_seen + cp_width cp) (i + n))"
  by pat_completeness auto
termination
  by (relation "measure (\<lambda>(bytes, unit, units_seen, i). length bytes - i)")
     (auto dest!: sym [of "Some _"] dest: decode_progress)

definition unit_at_char_boundary :: "u8 list \<Rightarrow> nat \<Rightarrow> bool" where
  "unit_at_char_boundary bytes unit = (unit = 0 \<or> char_boundary_loop bytes unit 0 0)"

function slice_slow :: "u8 list \<Rightarrow> nat \<Rightarrow> nat \<Rightarrow> nat \<Rightarrow> nat \<Rightarrow> u8 list \<Rightarrow> u8 list" where
  "slice_slow bytes s e units_seen i out =
     (if \<not> units_seen < e then out
      else case decode_code_point bytes i of
        None \<Rightarrow> out
      | Some (cp, n) \<Rightarrow>
          if FOUR_BYTE_MIN \<le> cp then
            let out1 = (if s \<le> units_seen \<and> units_seen < e then encode_utf16_unit (high_half cp) out else out);
                out2 = (if s \<le> units_seen + 1 \<and> units_seen + 1 < e
                        then encode_utf16_unit (low_half cp) out1 else out1)
            in slice_slow bytes s e (units_seen + 2) (i + n) out2
          else
            slice_slow bytes s e (units_seen + 1) (i + n)
              (if s \<le> units_seen \<and> units_seen < e then out @ take n (drop i bytes) else out))"
  by pat_completeness auto
termination
  by (relation "measure (\<lambda>(bytes, s, e, units_seen, i, out). length bytes - i)")
     (auto dest!: sym [of "Some _"] dest: decode_progress)

text \<open>\<open>bytes[a..b]\<close> panics on a reversed or overlong range.\<close>

definition slice_range :: "u8 list \<Rightarrow> nat \<Rightarrow> nat \<Rightarrow> u8 list option" where
  "slice_range bytes a b = (if a \<le> b \<and> b \<le> length bytes then Some (take (b - a) (drop a bytes)) else None)"

definition slice_utf16 :: "u8 list \<Rightarrow> nat \<Rightarrow> nat \<Rightarrow> u8 list option" where
  "slice_utf16 bytes start_unit end_unit =
     (let n = utf16_len bytes; s = min start_unit n; e = min end_unit n in
      if e \<le> s then Some []
      else
        let start_byte = byte_offset_of_unit bytes s False; end_byte = byte_offset_of_unit bytes e True in
        if unit_at_char_boundary bytes s \<and> unit_at_char_boundary bytes e
        then slice_range bytes start_byte end_byte
        else Some (slice_slow bytes s e 0 0 []))"

definition slice_utf16_ascii :: "u8 list \<Rightarrow> nat \<Rightarrow> nat \<Rightarrow> bool \<Rightarrow> u8 list option" where
  "slice_utf16_ascii bytes start_unit end_unit ascii =
     (if \<not> ascii then slice_utf16 bytes start_unit end_unit
      else let s = min start_unit (length bytes); e = min end_unit (length bytes) in
           if e \<le> s then Some [] else slice_range bytes s e)"

record unit_range =
  r_start :: nat
  r_end :: nat
  r_lead :: "u16 option"
  r_trail :: "u16 option"

function range_start_loop :: "u8 list \<Rightarrow> nat \<Rightarrow> nat \<Rightarrow> nat \<Rightarrow> u16 option \<Rightarrow> nat \<times> nat \<times> u16 option" where
  "range_start_loop bytes start_unit i u lead =
     (if \<not> u < start_unit then (i, u, lead)
      else case decode_code_point bytes i of
        None \<Rightarrow> (i, u, lead)
      | Some (cp, n) \<Rightarrow>
          if FOUR_BYTE_MIN \<le> cp
          then range_start_loop bytes start_unit (i + n) (u + 2)
                 (if u + 1 = start_unit then Some (low_half cp) else lead)
          else range_start_loop bytes start_unit (i + n) (u + 1) lead)"
  by pat_completeness auto
termination
  by (relation "measure (\<lambda>(bytes, start_unit, i, u, lead). length bytes - i)")
     (auto dest!: sym [of "Some _"] dest: decode_progress)

function range_end_loop :: "u8 list \<Rightarrow> nat \<Rightarrow> nat \<Rightarrow> nat \<Rightarrow> nat \<times> u16 option" where
  "range_end_loop bytes end_unit i u =
     (if \<not> u < end_unit then (i, None)
      else case decode_code_point bytes i of
        None \<Rightarrow> (i, None)
      | Some (cp, n) \<Rightarrow>
          if FOUR_BYTE_MIN \<le> cp
          then if u + 1 = end_unit then (i, Some (high_half cp))
               else range_end_loop bytes end_unit (i + n) (u + 2)
          else range_end_loop bytes end_unit (i + n) (u + 1))"
  by pat_completeness auto
termination
  by (relation "measure (\<lambda>(bytes, end_unit, i, u). length bytes - i)")
     (auto dest!: sym [of "Some _"] dest: decode_progress)

definition utf16_range :: "u8 list \<Rightarrow> nat \<times> nat \<Rightarrow> nat \<Rightarrow> nat \<Rightarrow> nat \<Rightarrow> unit_range" where
  "utf16_range bytes hint start_unit end_unit total_units =
     (let (i0, u0) = (if snd hint \<le> start_unit \<and> fst hint \<le> length bytes then hint else (0, 0));
          (start, u, lead) = range_start_loop bytes start_unit i0 u0 None
      in if total_units \<le> end_unit
         then \<lparr>r_start = start, r_end = length bytes, r_lead = lead, r_trail = None\<rparr>
         else case range_end_loop bytes end_unit start u of
                (i, trail) \<Rightarrow> \<lparr>r_start = start, r_end = i, r_lead = lead, r_trail = trail\<rparr>)"

declare utf16_index_from.simps [simp del] byte_offset_loop.simps [simp del] char_boundary_loop.simps [simp del]
  slice_slow.simps [simp del] range_start_loop.simps [simp del] range_end_loop.simps [simp del]

subsection \<open>Order and well-formedness\<close>

text \<open>\<open>Iterator::cmp\<close>: lexicographic.\<close>

fun lex_cmp :: "'a :: linorder list \<Rightarrow> 'a list \<Rightarrow> ordering" where
  "lex_cmp [] [] = Equal"
| "lex_cmp [] (y # ys) = Less"
| "lex_cmp (x # xs) [] = Greater"
| "lex_cmp (x # xs) (y # ys) = (case cmp x y of Equal \<Rightarrow> lex_cmp xs ys | c \<Rightarrow> c)"

text \<open>The position of the first difference of the zipped slices.\<close>

fun first_diff :: "'a list \<Rightarrow> 'a list \<Rightarrow> nat option" where
  "first_diff (x # xs) (y # ys) = (if x \<noteq> y then Some 0 else map_option Suc (first_diff xs ys))"
| "first_diff _ _ = None"

definition cmp_utf16 :: "u8 list \<Rightarrow> u8 list \<Rightarrow> ordering" where
  "cmp_utf16 a b = (case first_diff a b of
       Some i \<Rightarrow> if 0xED \<le> a ! i \<or> 0xED \<le> b ! i
                 then lex_cmp (utf16_collect (utf16_units a)) (utf16_collect (utf16_units b))
                 else cmp (a ! i) (b ! i)
     | None \<Rightarrow> cmp (length a) (length b))"

fun well_formed_loop :: "bool \<Rightarrow> u16 list \<Rightarrow> bool" where
  "well_formed_loop expect_low [] = (\<not> expect_low)"
| "well_formed_loop expect_low (u # us) =
     (let is_high = (0xD800 \<le> u \<and> u \<le> 0xDBFF); is_low = (0xDC00 \<le> u \<and> u \<le> 0xDFFF) in
      if expect_low then (if \<not> is_low then False else well_formed_loop False us)
      else if is_low then False
      else if is_high then well_formed_loop True us
      else well_formed_loop expect_low us)"

definition is_well_formed_utf16 :: "u8 list \<Rightarrow> bool" where
  "is_well_formed_utf16 bytes = well_formed_loop False (utf16_collect (utf16_units bytes))"

text \<open>\<open>core::str::from_utf8\<close>: the bytes are the shortest-form encodings of scalar values.\<close>

definition encode_all :: "u32 list \<Rightarrow> u8 list" where
  "encode_all cps = concat (map (\<lambda>cp. encode_code_point cp []) cps)"

definition is_scalar :: "u32 \<Rightarrow> bool" where
  "is_scalar cp = (cp \<le> CODE_POINT_MAX \<and> \<not> is_surrogate cp)"

definition is_utf8 :: "u8 list \<Rightarrow> bool" where
  "is_utf8 bytes = (let cps = code_points_collect (code_points bytes) in
     list_all is_scalar cps \<and> encode_all cps = bytes)"

definition as_str :: "u8 list \<Rightarrow> u8 list option" where
  "as_str bytes = (if is_utf8 bytes then Some bytes else None)"

text \<open>A Rust string is its UTF-8 bytes; \<open>char::from_u32\<close> refuses surrogates and overlarge values.\<close>

definition to_string_lossy :: "u8 list \<Rightarrow> u8 list" where
  "to_string_lossy bytes = (case as_str bytes of
       Some s \<Rightarrow> s
     | None \<Rightarrow> encode_all (map (\<lambda>cp. if is_scalar cp then cp else 0xFFFD)
                 (code_points_collect (code_points bytes))))"

end
