(* ===== verification/Wtf8Bits.thy ===== *)
theory Wtf8Bits
  imports Wtf8
begin

text \<open>
  The bit fields of the WTF-8 encoding as arithmetic: what \<open>encode_code_point\<close> writes and what
  \<open>decode_code_point\<close> reads back, at every code point up to U+10FFFF.
\<close>

lemma nat_or_add: "2 ^ k dvd (a :: nat) \<Longrightarrow> b < 2 ^ k \<Longrightarrow> a OR b = a + b"
proof -
  assume a: "2 ^ k dvd a" and b: "b < 2 ^ k"
  have "a AND b = 0"
  proof (rule bit_eqI)
    fix n
    have "\<not> bit b n" if "k \<le> n"
      using b that by (metis bit_take_bit_iff not_less take_bit_nat_eq_self)
    moreover have "\<not> bit a n" if "n < k"
      using a that by (metis bit_take_bit_iff bit_0_eq bot_apply dvd_eq_mod_eq_0 take_bit_eq_mod bot_bool_def)
    ultimately show "bit (a AND b) n = bit 0 n" by (simp add: bit_and_iff) (meson not_less)
  qed
  then show ?thesis by (simp add: disjunctive_add_eq_or)
qed

lemma unat_or_add [word_vals]:
  "2 ^ k dvd unat a \<Longrightarrow> unat b < 2 ^ k \<Longrightarrow> unat (a OR b) = unat a + unat (b :: 'a :: len word)"
  by (simp add: unsigned_or_eq nat_or_add)

lemma unat_and_low:
  "unat (a AND mask k) = unat (a :: 'a :: len word) mod 2 ^ k"
  by (simp add: take_bit_eq_mask [symmetric] unsigned_take_bit_eq) (simp add: take_bit_eq_mod)

lemma unat_push: "unat a * 2 ^ k < 2 ^ LENGTH('a) \<Longrightarrow> unat (push_bit k (a :: 'a :: len word)) = unat a * 2 ^ k"
  by (simp add: unsigned_push_bit_eq) (simp add: push_bit_eq_mult take_bit_eq_mod)

lemma unat_drop: "unat (drop_bit k (a :: 'a :: len word)) = unat a div 2 ^ k"
  by (simp add: unsigned_drop_bit_eq) (simp add: drop_bit_eq_div take_bit_nat_eq_self)

lemma unat_ucast: "unat (ucast (a :: 'a :: len word) :: 'b :: len word) = unat a mod 2 ^ LENGTH('b)"
  by (simp add: unsigned_ucast_eq take_bit_eq_mod)

lemma masks:
  "(a AND 0x3F :: 'a :: len word) = a AND mask 6" "(a AND 0x1F :: 'a :: len word) = a AND mask 5"
  "(a AND 0x0F :: 'a :: len word) = a AND mask 4" "(a AND 0x07 :: 'a :: len word) = a AND mask 3"
  "(a AND 0x3FF :: 'a :: len word) = a AND mask 10"
  by (simp_all add: mask_eq_exp_minus_1)

lemmas unat_bits = unat_and_low unat_push unat_drop unat_ucast

lemma encode_append: "encode_code_point cp out = out @ encode_code_point cp []"
  by (simp add: encode_code_point_def Let_def)

text \<open>The encoding, and the value of a decoded sequence, as arithmetic on the code point.\<close>

fun utf8_bytes :: "nat \<Rightarrow> nat list" where
  "utf8_bytes c =
     (if c < 0x80 then [c]
      else if c < 0x800 then [0xC0 + c div 64, 0x80 + c mod 64]
      else if c < 0x10000 then [0xE0 + c div 4096, 0x80 + c div 64 mod 64, 0x80 + c mod 64]
      else [0xF0 + c div 262144, 0x80 + c div 4096 mod 64, 0x80 + c div 64 mod 64, 0x80 + c mod 64])"

declare utf8_bytes.simps [simp del]

lemma encode_bytes:
  assumes "cp \<le> CODE_POINT_MAX"
  shows "map unat (encode_code_point cp []) = utf8_bytes (unat cp)"
proof -
  have m: "unat cp \<le> 0x10FFFF" using assms by (simp add: wtf8_consts word_le_nat_alt)
  have c: "unat (ucast (0x80 OR (x AND 0x3F) :: u32) :: u8) = 0x80 + unat x mod 64" for x :: u32
    by (simp add: unat_ucast unat_or_add [where k = 6] masks unat_and_low)
  have c1: "unat (ucast cp :: u8) = unat cp" if "unat cp < 0x80" using that by (simp add: unat_ucast)
  have c2: "unat (ucast (0xC0 OR drop_bit 6 cp) :: u8) = 0xC0 + unat cp div 64" if "unat cp < 0x800"
    using that by (simp add: unat_ucast unat_drop unat_or_add [where k = 5])
  have c3: "unat (ucast (0xE0 OR drop_bit 12 cp) :: u8) = 0xE0 + unat cp div 4096" if "unat cp < 0x10000"
    using that by (simp add: unat_ucast unat_drop unat_or_add [where k = 4])
  have c4: "unat (ucast (0xF0 OR drop_bit 18 cp) :: u8) = 0xF0 + unat cp div 262144"
    using m by (simp add: unat_ucast unat_drop unat_or_add [where k = 3])
  show ?thesis
    using m unfolding encode_code_point_def Let_def wtf8_consts word_less_nat_alt
    by (auto simp: utf8_bytes.simps c1 c c2 c3 c4 unat_drop)
qed

lemma encode_nonempty [simp]: "encode_code_point cp [] \<noteq> []"
  by (simp add: encode_code_point_def Let_def)

lemma join2:
  fixes x y :: u32
  assumes "unat x < 2 ^ 26" "unat y < 64"
  shows "unat (push_bit 6 x OR y) = unat x * 64 + unat y"
  using assms by (subst unat_or_add [where k = 6]) (simp_all add: unat_push)

lemma join3:
  fixes x y z :: u32
  assumes "unat x < 2 ^ 20" "unat y < 64" "unat z < 64"
  shows "unat (push_bit 12 x OR push_bit 6 y OR z) = unat x * 4096 + (unat y * 64 + unat z)"
proof -
  have y: "unat (push_bit 6 y OR z) = unat y * 64 + unat z" using assms by (intro join2) simp_all
  have x: "unat (push_bit 12 x) = unat x * 4096" using assms by (subst unat_push) simp_all
  have "unat (push_bit 12 x OR (push_bit 6 y OR z)) = unat (push_bit 12 x) + unat (push_bit 6 y OR z)"
    by (rule unat_or_add [where k = 12]) (use x y assms in auto)
  then show ?thesis using x y by (simp add: or.assoc)
qed

lemma join4:
  fixes x y z w :: u32
  assumes "unat x < 2 ^ 14" "unat y < 64" "unat z < 64" "unat w < 64"
  shows "unat (push_bit 18 x OR push_bit 12 y OR push_bit 6 z OR w) = unat x * 262144 + (unat y * 4096 + (unat z * 64 + unat w))"
proof -
  have y: "unat (push_bit 12 y OR push_bit 6 z OR w) = unat y * 4096 + (unat z * 64 + unat w)"
    using assms by (intro join3) simp_all
  have x: "unat (push_bit 18 x) = unat x * 262144" using assms by (subst unat_push) simp_all
  have "unat (push_bit 18 x OR (push_bit 12 y OR push_bit 6 z OR w)) = unat (push_bit 18 x) + unat (push_bit 12 y OR push_bit 6 z OR w)"
    by (rule unat_or_add [where k = 18]) (use x y assms in auto)
  then show ?thesis using x y by (simp add: or.assoc)
qed

lemma unat_u8 [simp]: "x < 256 \<Longrightarrow> unat (of_nat x :: u8) = x"
  by (simp add: unat_of_nat)

lemma unat_field [simp]:
  fixes b :: u8
  shows "unat (ucast (b AND 0x3F) :: u32) = unat b mod 64" "unat (ucast (b AND 0x1F) :: u32) = unat b mod 32"
    "unat (ucast (b AND 0x0F) :: u32) = unat b mod 16" "unat (ucast (b AND 0x07) :: u32) = unat b mod 8"
  by (simp_all add: masks unat_ucast unat_and_low mod_less_eq_dividend order.strict_trans1 [OF mod_less_eq_dividend])

lemma mod_shift: "(k * n + x) mod n = (x mod n :: nat)"
  by simp

lemma tail_mod: "(128 + m mod 64) mod 64 = (m mod 64 :: nat)"
  using mod_shift [of 2 64 "m mod 64"] by simp

lemma lead_mod:
  "(192 + x) mod 32 = (x mod 32 :: nat)" "(224 + x) mod 16 = (x mod 16 :: nat)" "(240 + x) mod 8 = (x mod 8 :: nat)"
  using mod_shift [of 6 32 x] mod_shift [of 14 16 x] mod_shift [of 30 8 x] by simp_all

lemma split3: "c div 4096 * 4096 + (c div 64 mod 64 * 64 + c mod 64) = (c :: nat)"
proof -
  have "c div 4096 = c div 64 div 64" by (simp add: div_mult2_eq [symmetric])
  then show ?thesis using div_mult_mod_eq [of "c div 64" 64] div_mult_mod_eq [of c 64] by linarith
qed

lemma split4: "c div 262144 * 262144 + (c div 4096 mod 64 * 4096 + (c div 64 mod 64 * 64 + c mod 64)) = (c :: nat)"
proof -
  have "c div 262144 = c div 4096 div 64" by (simp add: div_mult2_eq [symmetric])
  then show ?thesis using div_mult_mod_eq [of "c div 4096" 64] split3 [of c] by linarith
qed

lemma word_eqI: "unat (x :: 'a :: len word) = c \<Longrightarrow> x = of_nat c"
  by auto

lemma decode_value:
  assumes "bytes = pre @ map of_nat (utf8_bytes c) @ post" "c \<le> 0x10FFFF"
  shows "decode_code_point bytes (length pre) = Some (of_nat c, length (utf8_bytes c))"
proof -
  have k: "unat (of_nat c :: u32) = c" using assms(2) by (simp add: unat_of_nat)
  have t: "128 + m mod 64 < 256" for m :: nat by (rule order.strict_trans2 [of _ "128 + 64"]) simp_all
  consider "c < 0x80" | "0x80 \<le> c" "c < 0x800" | "0x800 \<le> c" "c < 0x10000" | "0x10000 \<le> c" by linarith
  then show ?thesis
  proof cases
    case 1
    then show ?thesis
      by (simp add: assms(1) utf8_bytes.simps decode_code_point_def get_opt_append word_less_nat_alt
          word_eqI [where c = c] unat_ucast k)
  next
    case 2
    have d: "c div 64 < 32" "192 + c div 64 < 224" "192 + c div 64 < 256" using 2 by auto
    have v: "unat (push_bit 6 (ucast (of_nat (192 + c div 64) AND 0x1F :: u8)) OR ucast (of_nat (128 + c mod 64) AND 0x3F :: u8) :: u32) = c"
      using d by (subst join2) (simp_all add: lead_mod t tail_mod del: of_nat_add)
    show ?thesis using word_eqI [OF v] 2 d t [of c]
      by (simp add: assms(1) utf8_bytes.simps decode_code_point_def get_opt_append word_less_nat_alt
          cont_def nth_append del: of_nat_add)
  next
    case 3
    have d: "c div 4096 < 16" "224 + c div 4096 < 240" "224 + c div 4096 < 256" using 3 by auto
    have v: "unat (push_bit 12 (ucast (of_nat (224 + c div 4096) AND 0x0F :: u8)) OR push_bit 6 (ucast (of_nat (128 + c div 64 mod 64) AND 0x3F :: u8))
       OR ucast (of_nat (128 + c mod 64) AND 0x3F :: u8) :: u32) = c"
      using d by (subst join3) (simp_all add: lead_mod t tail_mod split3 del: of_nat_add)
    show ?thesis using word_eqI [OF v] 3 d t [of c] t [of "c div 64"]
      by (simp add: assms(1) utf8_bytes.simps decode_code_point_def get_opt_append word_less_nat_alt
          cont_def nth_append del: of_nat_add)
  next
    case 4
    have d: "c div 262144 < 8" "240 + c div 262144 < 256" using assms(2) by auto
    have v: "unat (push_bit 18 (ucast (of_nat (240 + c div 262144) AND 0x07 :: u8)) OR push_bit 12 (ucast (of_nat (128 + c div 4096 mod 64) AND 0x3F :: u8)) 
       OR push_bit 6 (ucast (of_nat (128 + c div 64 mod 64) AND 0x3F :: u8))
       OR ucast (of_nat (128 + c mod 64) AND 0x3F :: u8) :: u32) = c"
      using d by (subst join4) (simp_all add: lead_mod t tail_mod split4 del: of_nat_add)
    show ?thesis using word_eqI [OF v] 4 d t [of c] t [of "c div 64"] t [of "c div 4096"]
      by (simp add: assms(1) utf8_bytes.simps decode_code_point_def get_opt_append word_less_nat_alt
          cont_def nth_append del: of_nat_add)
  qed
qed

end
