(* ===== verification/Wtf8Pairs.thy ===== *)
theory Wtf8Pairs
  imports Wtf8Bits
begin

text \<open>
  WTF-8 strings as code points and as UTF-16 units: the iterators read back what was encoded, and
  pairing surrogates inverts splitting astral code points on canonical sequences.
\<close>

abbreviation enc :: "u32 \<Rightarrow> u8 list" where "enc cp \<equiv> encode_code_point cp []"

lemma enc_bytes:
  assumes "cp \<le> CODE_POINT_MAX"
  shows "enc cp = map of_nat (utf8_bytes (unat cp))"
proof -
  have "map (of_nat :: nat \<Rightarrow> u8) (map unat (enc cp)) = map of_nat (utf8_bytes (unat cp))" by (simp only: encode_bytes [OF assms])
  then show ?thesis by (simp add: comp_def)
qed

lemma decode_enc:
  assumes "cp \<le> CODE_POINT_MAX"
  shows "decode_code_point (pre @ enc cp @ post) (length pre) = Some (cp, length (enc cp))"
proof -
  have "unat cp \<le> 0x10FFFF" using assms by (simp add: wtf8_consts word_le_nat_alt)
  from decode_value [OF _ this, of _ pre post]
  show ?thesis by (simp add: enc_bytes [OF assms])
qed

lemma encode_all_simps [simp]:
  "encode_all [] = []" "encode_all (cp # cps) = enc cp @ encode_all cps"
  "encode_all (xs @ ys) = encode_all xs @ encode_all ys"
  by (simp_all add: encode_all_def)

definition valid_cps :: "u32 list \<Rightarrow> bool" where
  "valid_cps cps = list_all (\<lambda>cp. cp \<le> CODE_POINT_MAX) cps"

lemma valid_cps_simps [simp]:
  "valid_cps []" "valid_cps (cp # cps) \<longleftrightarrow> cp \<le> CODE_POINT_MAX \<and> valid_cps cps"
  "valid_cps (xs @ ys) \<longleftrightarrow> valid_cps xs \<and> valid_cps ys"
  by (simp_all add: valid_cps_def)

lemma decode_end: "decode_code_point bytes (length bytes) = None"
  by (simp add: decode_None)

lemma collect_enc:
  assumes "valid_cps cps"
  shows "code_points_collect \<lparr>cp_bytes = pre @ encode_all cps, cp_i = length pre\<rparr> = cps"
  using assms
proof (induction cps arbitrary: pre)
  case Nil
  show ?case by (subst code_points_collect.simps) (simp add: CodePoints_next_def)
next
  case (Cons cp cps)
  have "CodePoints_next \<lparr>cp_bytes = pre @ enc cp @ encode_all cps, cp_i = length pre\<rparr> =
      (Some cp, \<lparr>cp_bytes = (pre @ enc cp) @ encode_all cps, cp_i = length (pre @ enc cp)\<rparr>)"
    using decode_enc [of cp pre "encode_all cps"] Cons.prems by (simp add: CodePoints_next_def)
  then show ?case
    using Cons.IH [of "pre @ enc cp"] Cons.prems by (subst code_points_collect.simps) simp
qed

lemma code_points_encode [simp]: "valid_cps cps \<Longrightarrow> code_points_collect (code_points (encode_all cps)) = cps"
  using collect_enc [of cps "[]"] by (simp add: code_points_def)

subsection \<open>Code points as UTF-16 units\<close>

definition units_of :: "u32 \<Rightarrow> u16 list" where
  "units_of cp = (if FOUR_BYTE_MIN \<le> cp then [high_half cp, low_half cp] else [ucast cp])"

definition to_units :: "u32 list \<Rightarrow> u16 list" where
  "to_units cps = concat (map units_of cps)"

lemma to_units_simps [simp]:
  "to_units [] = []" "to_units (cp # cps) = units_of cp @ to_units cps" "to_units (xs @ ys) = to_units xs @ to_units ys"
  by (simp_all add: to_units_def)

lemma utf16_collect_enc:
  assumes "valid_cps cps"
  shows "utf16_collect \<lparr>u_inner = \<lparr>cp_bytes = pre @ encode_all cps, cp_i = length pre\<rparr>, u_pending_low = None\<rparr> = to_units cps"
  using assms
proof (induction cps arbitrary: pre)
  case Nil
  show ?case by (subst utf16_collect.simps) (simp add: CodePoints_next_def Utf16Units_next_def)
next
  case (Cons cp cps)
  let ?it = "\<lambda>p. \<lparr>u_inner = \<lparr>cp_bytes = (pre @ enc cp) @ encode_all cps, cp_i = length (pre @ enc cp)\<rparr>, u_pending_low = p\<rparr>"
  have n: "CodePoints_next \<lparr>cp_bytes = pre @ enc cp @ encode_all cps, cp_i = length pre\<rparr> =
      (Some cp, \<lparr>cp_bytes = (pre @ enc cp) @ encode_all cps, cp_i = length (pre @ enc cp)\<rparr>)"
    using decode_enc [of cp pre "encode_all cps"] Cons.prems by (simp add: CodePoints_next_def)
  have p: "utf16_collect (?it (Some lo)) = lo # utf16_collect (?it None)" for lo
    by (subst utf16_collect.simps) (simp add: Utf16Units_next_def)
  have i: "utf16_collect (?it None) = to_units cps"
    using Cons.IH [of "pre @ enc cp"] Cons.prems by simp
  show ?case
  proof (cases "FOUR_BYTE_MIN \<le> cp")
    case True
    then show ?thesis
      using n p [of "low_half cp"] i by (subst utf16_collect.simps) (simp add: Utf16Units_next_def units_of_def)
  next
    case False
    then show ?thesis
      using n i by (subst utf16_collect.simps) (simp add: Utf16Units_next_def units_of_def)
  qed
qed

lemma utf16_units_encode [simp]: "valid_cps cps \<Longrightarrow> utf16_collect (utf16_units (encode_all cps)) = to_units cps"
  using utf16_collect_enc [of cps "[]"] by (simp add: utf16_units_def code_points_def)

subsection \<open>Surrogate pairs\<close>

lemma unat_halves:
  assumes "FOUR_BYTE_MIN \<le> cp" "cp \<le> CODE_POINT_MAX"
  shows "unat (high_half cp) = 0xD800 + (unat cp - 0x10000) div 1024"
    "unat (low_half cp) = 0xDC00 + (unat cp - 0x10000) mod 1024"
proof -
  have m: "0x10000 \<le> unat cp" "unat cp \<le> 0x10FFFF" using assms by (simp_all add: wtf8_consts word_le_nat_alt)
  have v: "unat (cp - FOUR_BYTE_MIN) = unat cp - 0x10000" using assms(1) by (simp add: unat_sub wtf8_consts)
  have d: "(unat cp - 0x10000) div 1024 < 1024" "(unat cp - 0x10000) mod 1024 < 1024" using m by auto
  show "unat (high_half cp) = 0xD800 + (unat cp - 0x10000) div 1024"
    using d by (simp add: high_half_def unat_ucast unat_word_ariths(1) unat_drop v SURROGATE_MIN_def)
  show "unat (low_half cp) = 0xDC00 + (unat cp - 0x10000) mod 1024"
    using d by (simp add: low_half_def unat_ucast unat_word_ariths(1) masks unat_and_low v LOW_SURROGATE_MIN_def)
qed

lemma unat_ucast16 [simp]: "unat (ucast (u :: u16) :: u32) = unat u"
  using unsigned_less [of u, where 'a = nat] by (simp add: unat_ucast)

lemma surrogate_unat:
  "is_high cp \<longleftrightarrow> 0xD800 \<le> unat cp \<and> unat cp \<le> 0xDBFF"
  "is_low cp \<longleftrightarrow> 0xDC00 \<le> unat cp \<and> unat cp \<le> 0xDFFF"
  "is_surrogate cp \<longleftrightarrow> 0xD800 \<le> unat cp \<and> unat cp \<le> 0xDFFF"
  by (simp_all add: is_high_def is_low_def is_surrogate_def wtf8_consts word_le_nat_alt)

lemma unat_astral:
  assumes "is_high h" "is_low l"
  shows "unat (astral h l) = 0x10000 + (unat h - 0xD800) * 1024 + (unat l - 0xDC00)"
proof -
  have m: "0xD800 \<le> unat h" "unat h \<le> 0xDBFF" "0xDC00 \<le> unat l" "unat l \<le> 0xDFFF"
    using assms by (simp_all add: surrogate_unat)
  have "unat (h - 0xD800) = unat h - 0xD800" "unat (l - 0xDC00) = unat l - 0xDC00"
    using m by (simp_all add: unat_sub word_le_nat_alt)
  then show ?thesis using m by (simp add: astral_def unat_word_ariths(1) unat_push)
qed

lemma cp_bounds: "cp \<le> CODE_POINT_MAX \<longleftrightarrow> unat cp \<le> 0x10FFFF" "FOUR_BYTE_MIN \<le> cp \<longleftrightarrow> 0x10000 \<le> unat cp"
  by (simp_all add: wtf8_consts word_le_nat_alt)

lemma halves_surrogates:
  assumes "FOUR_BYTE_MIN \<le> cp" "cp \<le> CODE_POINT_MAX"
  shows "is_high (ucast (high_half cp))" "is_low (ucast (low_half cp))"
    "astral (ucast (high_half cp)) (ucast (low_half cp)) = cp"
proof -
  have m: "0x10000 \<le> unat cp" "unat cp \<le> 0x10FFFF" using assms by (simp_all add: cp_bounds)
  have d: "(unat cp - 0x10000) div 1024 < 1024" "(unat cp - 0x10000) mod 1024 < 1024" using m by auto
  show h: "is_high (ucast (high_half cp))" "is_low (ucast (low_half cp))"
    using d by (simp_all add: surrogate_unat unat_halves [OF assms])
  define q r where "q = (unat cp - 0x10000) div 1024" and "r = (unat cp - 0x10000) mod 1024"
  have "q * 1024 + r = unat cp - 0x10000" unfolding q_def r_def by (rule div_mult_mod_eq)
  then have "unat (astral (ucast (high_half cp)) (ucast (low_half cp))) = unat cp"
    using m unfolding unat_astral [OF h] unat_ucast16 unat_halves [OF assms] q_def [symmetric] r_def [symmetric]
    by simp
  then show "astral (ucast (high_half cp)) (ucast (low_half cp)) = cp" by simp
qed

lemma divmod_1024: "(x :: nat) < 1024 \<Longrightarrow> (x + y * 1024) div 1024 = y" "x < 1024 \<Longrightarrow> (x + y * 1024) mod 1024 = x"
  by simp_all

lemma astral_halves:
  assumes "is_high (ucast h)" "is_low (ucast l)"
  shows "FOUR_BYTE_MIN \<le> astral (ucast h) (ucast l)" "astral (ucast h) (ucast l) \<le> CODE_POINT_MAX"
    "high_half (astral (ucast h) (ucast l)) = h" "low_half (astral (ucast h) (ucast l)) = l"
proof -
  note a = unat_astral [OF assms]
  have m: "0xD800 \<le> unat h" "unat h \<le> 0xDBFF" "0xDC00 \<le> unat l" "unat l \<le> 0xDFFF"
    using assms by (simp_all add: surrogate_unat)
  show b: "FOUR_BYTE_MIN \<le> astral (ucast h) (ucast l)" "astral (ucast h) (ucast l) \<le> CODE_POINT_MAX"
    using m by (simp_all add: cp_bounds a)
  have e: "unat (astral (ucast h) (ucast l)) - 0x10000 = (unat l - 0xDC00) + (unat h - 0xD800) * 1024" by (simp add: a)
  have "unat (high_half (astral (ucast h) (ucast l))) = unat h" "unat (low_half (astral (ucast h) (ucast l))) = unat l"
    using m unfolding unat_halves [OF b] e by (subst divmod_1024, simp, simp)+
  then show "high_half (astral (ucast h) (ucast l)) = h" "low_half (astral (ucast h) (ucast l)) = l" by simp_all
qed

text \<open>The code points of a sequence of units: adjacent surrogates pair up.\<close>

fun pair_units :: "u16 list \<Rightarrow> u32 list" where
  "pair_units [] = []"
| "pair_units [u] = [ucast u]"
| "pair_units (u # lo # us) =
     (if is_high (ucast u) \<and> is_low (ucast lo) then astral (ucast u) (ucast lo) # pair_units us
      else ucast u # pair_units (lo # us))"

lemma u16_cp [simp]: "ucast (u :: u16) \<le> CODE_POINT_MAX" "\<not> FOUR_BYTE_MIN \<le> ucast (u :: u16)"
  using unsigned_less [of u, where 'a = nat] by (simp_all add: cp_bounds)

lemma ucast_16_32 [simp]: "ucast (ucast (u :: u16) :: u32) = u"
proof -
  have "unat (ucast (ucast u :: u32) :: u16) = unat u"
    using unsigned_less [of u, where 'a = nat] by (simp add: unat_ucast)
  then show ?thesis by (simp only: unat_inject)
qed

lemma ucast_32_16: "\<not> FOUR_BYTE_MIN \<le> cp \<Longrightarrow> ucast (ucast cp :: u16) = cp"
proof -
  assume "\<not> FOUR_BYTE_MIN \<le> cp"
  then have "unat (ucast (ucast cp :: u16) :: u32) = unat cp" by (simp add: unat_ucast cp_bounds)
  then show ?thesis by (simp only: unat_inject)
qed

lemma units_of_u16 [simp]: "units_of (ucast (u :: u16)) = [u]"
  by (simp add: units_of_def)

lemma units_of_astral: "is_high (ucast h) \<Longrightarrow> is_low (ucast l) \<Longrightarrow> units_of (astral (ucast h) (ucast l)) = [h, l]"
  by (simp add: units_of_def astral_halves)

lemma to_units_pair [simp]: "to_units (pair_units us) = us"
  by (induction us rule: pair_units.induct) (auto simp: units_of_astral)

lemma valid_pair [simp]: "valid_cps (pair_units us)"
  by (induction us rule: pair_units.induct) (auto simp: astral_halves)

fun no_pair :: "u32 list \<Rightarrow> bool" where
  "no_pair (x # y # cps) = (\<not> (is_high x \<and> is_low y) \<and> no_pair (y # cps))"
| "no_pair _ = True"

text \<open>Canonical WTF-8: no high surrogate right before a low one.\<close>

definition canonical :: "u32 list \<Rightarrow> bool" where
  "canonical cps = (valid_cps cps \<and> no_pair cps)"

lemma astral_not_surrogate:
  "FOUR_BYTE_MIN \<le> cp \<Longrightarrow> \<not> is_high cp" "FOUR_BYTE_MIN \<le> cp \<Longrightarrow> \<not> is_low cp"
  by (simp_all add: surrogate_unat cp_bounds)

lemma no_pair_Cons: "no_pair (x # cps) \<longleftrightarrow> (case cps of [] \<Rightarrow> True | y # _ \<Rightarrow> \<not> (is_high x \<and> is_low y)) \<and> no_pair cps"
  by (cases cps) auto

lemma pair_units_Cons:
  "pair_units (u # us) = (case us of
       lo # us' \<Rightarrow> if is_high (ucast u) \<and> is_low (ucast lo) then astral (ucast u) (ucast lo) # pair_units us'
                   else ucast u # pair_units us
     | [] \<Rightarrow> [ucast u])"
  by (cases us) auto

lemma pair_units_head:
  "pair_units (u # us) = y # cps \<Longrightarrow> y = ucast u \<or> \<not> is_high y \<and> \<not> is_low y"
  using astral_not_surrogate [OF astral_halves(1)] by (auto simp: pair_units_Cons split: list.splits if_splits)

lemma no_pair_pair [simp]: "no_pair (pair_units us)"
proof (induction us rule: pair_units.induct)
  case (3 u lo us)
  show ?case
  proof (cases "is_high (ucast u) \<and> is_low (ucast lo)")
    case True
    then show ?thesis
      using 3(1) astral_not_surrogate(1) [OF astral_halves(1)] by (simp add: no_pair_Cons split: list.splits)
  next
    case False
    have "\<not> (is_high (ucast u :: u32) \<and> is_low y)" if "pair_units (lo # us) = y # cps" for y cps
      using pair_units_head [OF that] False by blast
    then have "no_pair (ucast u # pair_units (lo # us))"
      using 3(2) False by (cases "pair_units (lo # us)") auto
    then show ?thesis using False by auto
  qed
qed simp_all

lemma canonical_pair [simp]: "canonical (pair_units us)"
  by (simp add: canonical_def)

lemma canonical_Cons: "canonical (x # cps) \<longleftrightarrow> x \<le> CODE_POINT_MAX \<and>
    (case cps of [] \<Rightarrow> True | y # _ \<Rightarrow> \<not> (is_high x \<and> is_low y)) \<and> canonical cps"
  by (auto simp: canonical_def no_pair_Cons)

lemma to_units_head:
  assumes "canonical (y # cps)" "\<not> FOUR_BYTE_MIN \<le> y" "to_units (y # cps) = u # us"
  shows "ucast u = y"
  using assms by (auto simp: units_of_def ucast_32_16)

lemma pair_to_units [simp]: "canonical cps \<Longrightarrow> pair_units (to_units cps) = cps"
proof (induction cps)
  case (Cons cp cps)
  have c: "canonical cps" "cp \<le> CODE_POINT_MAX" using Cons.prems by (auto simp: canonical_Cons)
  show ?case
  proof (cases "FOUR_BYTE_MIN \<le> cp")
    case True
    then show ?thesis using Cons c halves_surrogates [OF True c(2)] by (simp add: units_of_def)
  next
    case False
    have u: "units_of cp = [ucast cp]" "ucast (ucast cp :: u16) = cp"
      using False by (simp_all add: units_of_def ucast_32_16)
    have "\<not> (is_high cp \<and> is_low (ucast lo))" if t: "to_units cps = lo # us" for lo us
    proof -
      obtain y ys where y: "cps = y # ys" using t by (cases cps) auto
      show ?thesis
      proof (cases "FOUR_BYTE_MIN \<le> y")
        case True
        have "is_high (ucast lo :: u32)"
          using halves_surrogates(1) [OF True] c(1) t by (simp add: y canonical_Cons units_of_def True)
        then show ?thesis by (simp add: surrogate_unat)
      next
        case False
        then show ?thesis using to_units_head [of y ys] c(1) t Cons.prems by (auto simp: y canonical_Cons)
      qed
    qed
    then have "pair_units (ucast cp # to_units cps) = ucast (ucast cp :: u16) # pair_units (to_units cps)"
      using u(2) by (cases "to_units cps") auto
    then show ?thesis using Cons.IH [OF c(1)] by (simp add: u)
  qed
qed simp

end
