(* ===== verification/Wtf8Concat.thy ===== *)
theory Wtf8Concat
  imports Wtf8Pairs
begin

text \<open>
  Encoding UTF-16 and concatenating WTF-8 strings: a surrogate pair split across the boundary is
  rejoined, so concatenation of bytes is concatenation of units.
\<close>

lemma push_loop_eq: "push_utf16_loop us out = out @ encode_all (pair_units us)"
proof (induction us out rule: push_utf16_loop.induct)
  case (2 u out)
  show ?case by (simp add: encode_append [of _ out])
next
  case (3 u lo us out)
  then show ?case
    by (cases "is_high (ucast u) \<and> is_low (ucast lo)") (auto simp: encode_append [of _ out])
qed simp

lemma enc_ascii: "u < 0x80 \<Longrightarrow> enc (ucast (u :: u16)) = [ucast u]"
proof -
  assume "u < 0x80"
  then have a: "unat u < 0x80" by (simp add: word_less_nat_alt)
  then have "ucast u < TWO_BYTE_MIN" "\<not> CODE_POINT_MAX < ucast u" by (simp_all add: wtf8_consts word_less_nat_alt)
  moreover have "ucast (ucast u :: u32) = (ucast u :: u8)"
  proof -
    have "unat (ucast (ucast u :: u32) :: u8) = unat (ucast u :: u8)" using a by (simp add: unat_ucast)
    then show ?thesis by (simp only: unat_inject)
  qed
  ultimately show ?thesis by (simp add: encode_code_point_def)
qed

lemma ascii_not_high: "u < 0x80 \<Longrightarrow> \<not> is_high (ucast (u :: u16))"
  by (simp add: surrogate_unat word_less_nat_alt)

lemma pair_ascii: "\<forall>u \<in> set us. u < 0x80 \<Longrightarrow> pair_units (us @ vs) = map ucast us @ pair_units vs"
proof (induction us)
  case (Cons u us)
  then show ?case using ascii_not_high by (cases "us @ vs") auto
qed simp

lemma encode_ascii: "\<forall>u \<in> set us. u < 0x80 \<Longrightarrow> encode_all (map ucast us) = map ucast (us :: u16 list)"
  by (induction us) (simp_all add: enc_ascii)

lemma push_utf16_eq: "push_utf16 out us = out @ encode_all (pair_units us)"
proof -
  let ?a = "takeWhile (\<lambda>u. u < 0x80) us"
  have a: "\<forall>u \<in> set ?a. u < 0x80" by (auto dest: set_takeWhileD)
  have "pair_units us = map ucast ?a @ pair_units (dropWhile (\<lambda>u. u < 0x80) us)"
    using pair_ascii [OF a, of "dropWhile (\<lambda>u. u < 0x80) us"] by simp
  then show ?thesis
    by (simp add: push_utf16_def push_loop_eq encode_ascii [OF a] dropWhile_eq_drop Let_def)
qed

lemma from_utf16_eq: "from_utf16 us = encode_all (pair_units us)"
  by (simp add: from_utf16_def push_utf16_eq)

lemma utf16_from [simp]: "utf16_collect (utf16_units (from_utf16 us)) = us"
  by (simp add: from_utf16_eq)

subsection \<open>Surrogates at the ends\<close>

lemma length_enc: "cp \<le> CODE_POINT_MAX \<Longrightarrow> length (enc cp) = (if unat cp < 0x80 then 1 else if unat cp < 0x800 then 2 else if unat cp < 0x10000 then 3 else 4)"
  by (simp add: enc_bytes utf8_bytes.simps)

lemma unat_high_bits: "unat (b AND 0xC0 :: u8) = 64 * (unat b div 64)"
proof -
  have "b AND 0xC0 = push_bit 6 (drop_bit 6 b)"
  proof (rule bit_word_eqI)
    fix n assume "n < LENGTH(8)"
    then consider "n = 0" | "n = 1" | "n = 2" | "n = 3" | "n = 4" | "n = 5" | "n = 6" | "n = 7" by fastforce
    then show "bit (b AND 0xC0) n = bit (push_bit 6 (drop_bit 6 b)) n" by cases (simp_all add: bit_simps)
  qed
  moreover have "unat b div 64 < 4" using unsigned_less [of b, where 'a = nat] by auto
  ultimately show ?thesis by (simp add: unat_push unat_drop)
qed

lemma is_cont: "(b :: u8) AND 0xC0 = 0x80 \<longleftrightarrow> unat b div 64 = 2"
proof -
  have "b AND 0xC0 = 0x80 \<longleftrightarrow> unat (b AND 0xC0) = unat (0x80 :: u8)" by (simp only: unat_inject)
  also have "\<dots> \<longleftrightarrow> unat b div 64 = 2" by (simp add: unat_high_bits)
  finally show ?thesis .
qed

lemma u8_eq: "x < 256 \<Longrightarrow> y < 256 \<Longrightarrow> (of_nat x :: u8) = of_nat y \<longleftrightarrow> x = y"
  by (metis unat_u8)

lemma cont_byte: "(of_nat (128 + m mod 64) AND 0xC0 :: u8) = 0x80"
proof -
  have "128 + m mod 64 < 256" by (rule order.strict_trans2 [of _ "128 + 64"]) simp_all
  moreover have "(128 + m mod 64) div 64 = 2" by simp
  ultimately show ?thesis by (simp add: is_cont del: of_nat_add)
qed

lemma decode_surrogate3_enc:
  assumes "0x800 \<le> unat cp" "unat cp < 0x10000"
  shows "decode_surrogate3 (enc cp) = (if is_surrogate cp then Some cp else None)"
proof -
  let ?c = "unat cp"
  have d: "?c div 4096 < 16" "224 + ?c div 4096 < 256" using assms by auto
  have t: "128 + m mod 64 < 256" for m :: nat by (rule order.strict_trans2 [of _ "128 + 64"]) simp_all
  have e: "enc cp = [of_nat (224 + ?c div 4096), of_nat (128 + ?c div 64 mod 64), of_nat (128 + ?c mod 64)]"
    using assms by (simp add: enc_bytes cp_bounds utf8_bytes.simps del: of_nat_add)
  have "unat (push_bit 12 (ucast (of_nat (224 + ?c div 4096) AND 0x0F :: u8)) OR push_bit 6 (ucast (of_nat (128 + ?c div 64 mod 64) AND 0x3F :: u8))
       OR ucast (of_nat (128 + ?c mod 64) AND 0x3F :: u8) :: u32) = ?c"
    using d by (subst join3) (simp_all add: lead_mod t tail_mod split3 del: of_nat_add)
  then have v: "push_bit 12 (ucast (of_nat (224 + ?c div 4096) AND 0x0F :: u8)) OR push_bit 6 (ucast (of_nat (128 + ?c div 64 mod 64) AND 0x3F :: u8))
       OR ucast (of_nat (128 + ?c mod 64) AND 0x3F :: u8) = cp" by (simp only: unat_inject)
  have l: "(of_nat (224 + ?c div 4096) :: u8) = 0xED \<longleftrightarrow> ?c div 4096 = 13"
    using u8_eq [OF d(2), of 237] by simp
  have "is_surrogate cp \<Longrightarrow> ?c div 4096 = 13" by (intro div_nat_eqI) (simp_all add: surrogate_unat)
  then show ?thesis unfolding e decode_surrogate3.simps Let_def v l cont_byte by auto
qed

lemma decode_surrogate3_last:
  assumes "cp \<le> CODE_POINT_MAX" "3 \<le> length pre + length (enc cp)"
  shows "decode_surrogate3 (drop (length pre + length (enc cp) - 3) (pre @ enc cp)) =
    (if is_surrogate cp then Some cp else None)"
proof -
  let ?c = "unat cp"
  have m: "?c \<le> 0x10FFFF" using assms(1) by (simp add: cp_bounds)
  consider "?c < 0x80" | "0x80 \<le> ?c" "?c < 0x800" | "0x800 \<le> ?c" "?c < 0x10000" | "0x10000 \<le> ?c" by linarith
  then show ?thesis
  proof cases
    case 1
    then have e: "enc cp = [of_nat ?c]" by (simp add: enc_bytes [OF assms(1)] utf8_bytes.simps)
    have l: "length (drop (length pre - 2) pre) = 2" using assms(2) by (simp add: e)
    obtain b0 b1 where p: "drop (length pre - 2) pre = [b0, b1]"
      using l by (auto simp: numeral_2_eq_2 length_Suc_conv simp del: length_drop)
    have "(of_nat ?c :: u8) AND 0xC0 \<noteq> 0x80" using 1 by (simp add: is_cont unat_ucast)
    then show ?thesis using 1 assms(2) by (simp add: e p surrogate_unat)
  next
    case 2
    have e: "enc cp = [of_nat (192 + ?c div 64), of_nat (128 + ?c mod 64)]"
      using 2 by (simp add: enc_bytes [OF assms(1)] utf8_bytes.simps del: of_nat_add)
    have l: "length (drop (length pre - 1) pre) = 1" using assms(2) by (simp add: e)
    obtain b0 where p: "drop (length pre - 1) pre = [b0]"
      using l by (auto simp: length_Suc_conv simp del: length_drop)
    have "192 + ?c div 64 < 256" "(192 + ?c div 64) div 64 = 3" using 2 by auto
    then have "(of_nat (192 + ?c div 64) :: u8) AND 0xC0 \<noteq> 0x80" by (simp add: is_cont del: of_nat_add)
    then show ?thesis using 2 assms(2) p by (simp add: e surrogate_unat del: of_nat_add)
  next
    case 3
    then have "length (enc cp) = 3" by (simp add: length_enc [OF assms(1)])
    then show ?thesis using decode_surrogate3_enc 3 by simp
  next
    case 4
    have e: "enc cp = [of_nat (240 + ?c div 262144), of_nat (128 + ?c div 4096 mod 64), of_nat (128 + ?c div 64 mod 64), of_nat (128 + ?c mod 64)]"
      using 4 by (simp add: enc_bytes [OF assms(1)] utf8_bytes.simps del: of_nat_add)
    have "(of_nat (128 + ?c div 4096 mod 64) :: u8) \<noteq> 0xED"
      using cont_byte [of "?c div 4096"] by auto
    then show ?thesis using 4 by (simp add: e surrogate_unat del: of_nat_add)
  qed
qed

lemma trailing_encode:
  assumes "valid_cps cps"
  shows "trailing_high_surrogate (encode_all cps) =
    (if cps \<noteq> [] \<and> is_high (last cps) then Some (ucast (last cps)) else None)"
proof (cases cps rule: rev_cases)
  case (snoc ys cp)
  have v: "cp \<le> CODE_POINT_MAX" using assms snoc by simp
  have h: "is_high cp \<Longrightarrow> is_surrogate cp \<and> length (enc cp) = 3"
    using v by (auto simp: surrogate_unat length_enc)
  show ?thesis
  proof (cases "length (encode_all ys @ enc cp) < 3")
    case True
    then show ?thesis using h by (auto simp: snoc trailing_high_surrogate_def)
  next
    case False
    then show ?thesis
      using decode_surrogate3_last [OF v, of "encode_all ys"] h
      by (auto simp: snoc trailing_high_surrogate_def Let_def)
  qed
qed (simp add: trailing_high_surrogate_def)

lemma decode_surrogate3_first:
  assumes "cp \<le> CODE_POINT_MAX" "3 \<le> length (enc cp @ rest)"
  shows "decode_surrogate3 (take 3 (enc cp @ rest)) = (if is_surrogate cp then Some cp else None)"
proof -
  let ?c = "unat cp"
  have not: "decode_surrogate3 (take 3 (b # bs)) = None" if "b \<noteq> 0xED" for b :: u8 and bs
    using that by (cases bs; cases "tl bs") (auto simp: numeral_3_eq_3)
  consider "?c < 0x80" | "0x80 \<le> ?c" "?c < 0x800" | "0x800 \<le> ?c" "?c < 0x10000" | "0x10000 \<le> ?c" by linarith
  then show ?thesis
  proof cases
    case 1
    have "(of_nat ?c :: u8) \<noteq> 0xED" using u8_eq [of ?c 237] 1 by simp
    then show ?thesis using not 1 by (simp add: enc_bytes [OF assms(1)] utf8_bytes.simps surrogate_unat)
  next
    case 2
    have "(of_nat (192 + ?c div 64) :: u8) \<noteq> 0xED" using u8_eq [of "192 + ?c div 64" 237] 2 by simp
    then show ?thesis
      using not [of "of_nat (192 + ?c div 64)" "of_nat (128 + ?c mod 64) # rest"] 2
      by (simp add: enc_bytes [OF assms(1)] utf8_bytes.simps surrogate_unat)
  next
    case 3
    then have "length (enc cp) = 3" by (simp add: length_enc [OF assms(1)])
    then show ?thesis using decode_surrogate3_enc 3 by simp
  next
    case 4
    have "240 + ?c div 262144 < 256" using assms(1) by (simp add: cp_bounds)
    then have "(of_nat (240 + ?c div 262144) :: u8) \<noteq> 0xED" using u8_eq [of "240 + ?c div 262144" 237] 4 by simp
    then show ?thesis using not 4 by (simp add: enc_bytes [OF assms(1)] utf8_bytes.simps surrogate_unat)
  qed
qed

lemma leading_encode:
  assumes "valid_cps cps"
  shows "leading_low_surrogate (encode_all cps) =
    (if cps \<noteq> [] \<and> is_low (hd cps) then Some (ucast (hd cps)) else None)"
proof (cases cps)
  case (Cons cp ys)
  have v: "cp \<le> CODE_POINT_MAX" using assms Cons by simp
  have h: "is_low cp \<Longrightarrow> is_surrogate cp \<and> length (enc cp) = 3"
    using v by (auto simp: surrogate_unat length_enc)
  show ?thesis
  proof (cases "length (enc cp @ encode_all ys) < 3")
    case True
    then show ?thesis using h by (auto simp: Cons leading_low_surrogate_def)
  next
    case False
    then show ?thesis
      using decode_surrogate3_first [OF v, of "encode_all ys"] h by (auto simp: Cons leading_low_surrogate_def)
  qed
qed (simp add: leading_low_surrogate_def)

subsection \<open>Concatenation\<close>

definition join_cps :: "u32 list \<Rightarrow> u32 list \<Rightarrow> u32 list" where
  "join_cps a b = (if a \<noteq> [] \<and> b \<noteq> [] \<and> is_high (last a) \<and> is_low (hd b)
     then butlast a @ astral (last a) (hd b) # tl b else a @ b)"

lemma no_pair_append:
  "no_pair (a @ b) \<longleftrightarrow> no_pair a \<and> no_pair b \<and> (a \<noteq> [] \<longrightarrow> b \<noteq> [] \<longrightarrow> \<not> (is_high (last a) \<and> is_low (hd b)))"
proof (induction a)
  case (Cons x a)
  then show ?case by (cases a; cases b) auto
qed simp

lemma surrogate_not_astral: "is_high cp \<Longrightarrow> \<not> FOUR_BYTE_MIN \<le> cp" "is_low cp \<Longrightarrow> \<not> FOUR_BYTE_MIN \<le> cp"
  using astral_not_surrogate by blast+

lemma join_canonical:
  assumes "canonical a" "canonical b"
  shows "canonical (join_cps a b)" "to_units (join_cps a b) = to_units a @ to_units b"
proof -
  have "canonical (join_cps a b) \<and> to_units (join_cps a b) = to_units a @ to_units b"
  proof (cases "a \<noteq> [] \<and> b \<noteq> [] \<and> is_high (last a) \<and> is_low (hd b)")
    case True
    obtain xs h l ys where ab: "a = xs @ [h]" "b = l # ys"
      using True by (metis append_butlast_last_id list.collapse)
    have hl: "is_high h" "is_low l" using True by (simp_all add: ab)
    have u: "ucast (ucast h :: u16) = h" "ucast (ucast l :: u16) = l"
      using ucast_32_16 surrogate_not_astral hl by blast+
    have a: "FOUR_BYTE_MIN \<le> astral h l" "astral h l \<le> CODE_POINT_MAX" "units_of (astral h l) = [ucast h, ucast l]"
      using astral_halves [of "ucast h" "ucast l"] units_of_astral [of "ucast h" "ucast l"] hl by (simp_all add: u)
    have "canonical (xs @ astral h l # ys)"
      using assms astral_not_surrogate [OF a(1)] a(2)
      by (auto simp: canonical_def ab no_pair_append no_pair_Cons split: list.splits)
    moreover have "units_of h = [ucast h]" "units_of l = [ucast l]"
      using surrogate_not_astral hl by (simp_all add: units_of_def)
    ultimately show ?thesis using True by (simp add: join_cps_def ab a(3))
  next
    case False
    then have "join_cps a b = a @ b" by (simp only: join_cps_def if_False)
    then show ?thesis using False assms by (auto simp: canonical_def no_pair_append)
  qed
  then show "canonical (join_cps a b)" "to_units (join_cps a b) = to_units a @ to_units b" by blast+
qed

lemma pair_append: "pair_units (us @ vs) = join_cps (pair_units us) (pair_units vs)"
  using pair_to_units [of "join_cps (pair_units us) (pair_units vs)"] join_canonical [of "pair_units us" "pair_units vs"]
  by simp

lemma append_encode:
  assumes "valid_cps a" "valid_cps b"
  shows "append_wtf8 (encode_all a) (encode_all b) = encode_all (join_cps a b)"
proof (cases "a \<noteq> [] \<and> b \<noteq> [] \<and> is_high (last a) \<and> is_low (hd b)")
  case True
  obtain xs h l ys where ab: "a = xs @ [h]" "b = l # ys"
    using True by (metis append_butlast_last_id list.collapse)
  have hl: "is_high h" "is_low l" using True by (simp_all add: ab)
  have len: "length (enc h) = 3" "length (enc l) = 3"
    using hl assms by (auto simp: ab length_enc surrogate_unat)
  have u: "ucast (ucast h :: u16) = h" "ucast (ucast l :: u16) = l"
    using ucast_32_16 surrogate_not_astral hl by blast+
  show ?thesis
    using True unfolding append_wtf8_def trailing_encode [OF assms(1)] leading_encode [OF assms(2)]
    by (simp add: ab u len join_cps_def encode_append [of _ "encode_all xs"])
next
  case False
  then have "join_cps a b = a @ b" by (simp only: join_cps_def if_False)
  then show ?thesis
    using False unfolding append_wtf8_def trailing_encode [OF assms(1)] leading_encode [OF assms(2)] by auto
qed

lemma append_from_utf16: "append_wtf8 (from_utf16 us) (from_utf16 vs) = from_utf16 (us @ vs)"
  by (simp add: from_utf16_eq append_encode pair_append)

lemma low_head_units: "pair_units (v # vs) \<noteq> [] \<and> (is_low (hd (pair_units (v # vs))) \<longleftrightarrow> is_low (ucast v))"
proof (cases vs)
  case (Cons w ws)
  show ?thesis
  proof (cases "is_high (ucast v) \<and> is_low (ucast w)")
    case True
    then have "\<not> is_low (astral (ucast v) (ucast w))" "\<not> is_low (ucast v :: u32)"
      using astral_not_surrogate(2) [OF astral_halves(1)] by (simp_all add: surrogate_unat)
    then show ?thesis using True by (simp add: Cons)
  qed (auto simp: Cons)
qed simp

lemma append_utf16_eq: "append_utf16 (from_utf16 us) vs = from_utf16 (us @ vs)"
proof (cases "(case vs of [] \<Rightarrow> False | u # _ \<Rightarrow> is_low (ucast u)) \<and> trailing_high_surrogate (from_utf16 us) \<noteq> None")
  case True
  then show ?thesis unfolding append_utf16_def append_from_utf16 by simp
next
  case False
  have "join_cps (pair_units us) (pair_units vs) = pair_units us @ pair_units vs"
  proof (cases vs)
    case (Cons v ws)
    then show ?thesis
      using False low_head_units [of v ws] trailing_encode [of "pair_units us"]
      by (auto simp: join_cps_def from_utf16_eq split: if_splits)
  qed (simp add: join_cps_def)
  then show ?thesis
    using False by (auto simp: append_utf16_def push_utf16_eq from_utf16_eq pair_append)
qed

end
