(* ===== verification/Wtf8Len.thy ===== *)
theory Wtf8Len
  imports Wtf8Concat
begin

text \<open>
  The eight-bytes-at-a-time UTF-16 length: the bit tricks on a 64-bit word count exactly what the
  per-byte test counts, and that is the number of UTF-16 units.
\<close>

lemma bit_le_bytes:
  assumes "length bs \<le> 8" "k < length bs" "j < 8"
  shows "bit (from_le_bytes bs) (8 * k + j) = bit (bs ! k) j"
  using assms
proof (induction bs arbitrary: k)
  case (Cons b bs)
  show ?case
  proof (cases k)
    case 0
    then show ?thesis using Cons.prems by (simp add: bit_simps)
  next
    case (Suc m)
    then show ?thesis using Cons by (auto simp: bit_simps dest: bit_imp_le_length)
  qed
qed simp

lemma bit_HI: "n < 64 \<Longrightarrow> bit HI n \<longleftrightarrow> n mod 8 = 7"
proof -
  have "list_all (\<lambda>n. bit HI n \<longleftrightarrow> n mod 8 = 7) [0..<64]"
    by code_simp
  then show "n < 64 \<Longrightarrow> bit HI n \<longleftrightarrow> n mod 8 = 7" by (simp add: list_all_iff)
qed

lemma count_HI: "count_ones (y AND HI) = length (filter (\<lambda>k. bit y (8 * k + 7)) [0..<8])"
proof -
  have "filter (bit (y AND HI)) [0..<64] = filter (bit y) (filter (\<lambda>n. n mod 8 = 7) [0..<64])"
    by (auto simp: bit_and_iff bit_HI intro!: filter_cong)
  also have "filter (\<lambda>n. n mod 8 = 7) [0..<64::nat] = map (\<lambda>k. 8 * k + 7) [0..<8]"
    by code_simp
  finally show ?thesis by (simp add: count_ones_def filter_map comp_def)
qed

lemma cont_bits: "(b :: u8) AND 0xC0 = 0x80 \<longleftrightarrow> bit b 7 \<and> \<not> bit b 6"
proof
  assume "b AND 0xC0 = 0x80"
  then have "bit (b AND 0xC0) 7 = bit (0x80 :: u8) 7" "bit (b AND 0xC0) 6 = bit (0x80 :: u8) 6" by simp_all
  then show "bit b 7 \<and> \<not> bit b 6" by (simp add: bit_simps)
next
  assume a: "bit b 7 \<and> \<not> bit b 6"
  show "b AND 0xC0 = 0x80"
  proof (rule bit_word_eqI)
    fix n assume "n < LENGTH(8)"
    then consider "n = 0" | "n = 1" | "n = 2" | "n = 3" | "n = 4" | "n = 5" | "n = 6" | "n = 7" by fastforce
    then show "bit (b AND 0xC0) n = bit (0x80 :: u8) n" using a by cases (simp_all add: bit_simps)
  qed
qed

lemma four_bits: "0xF0 \<le> (b :: u8) \<longleftrightarrow> bit b 7 \<and> bit b 6 \<and> bit b 5 \<and> bit b 4"
proof -
  have "0xF0 \<le> b \<longleftrightarrow> unat b div 16 = 15"
    using unsigned_less [of b, where 'a = nat] by (auto simp: word_le_nat_alt intro!: div_nat_eqI)
  also have "\<dots> \<longleftrightarrow> unat (drop_bit 4 b) = unat (0xF :: u8)" by (simp add: unat_drop)
  also have "\<dots> \<longleftrightarrow> drop_bit 4 b = 0xF" by (simp only: unat_inject)
  also have "\<dots> \<longleftrightarrow> bit b 7 \<and> bit b 6 \<and> bit b 5 \<and> bit b 4"
  proof
    assume "drop_bit 4 b = 0xF"
    then have "\<forall>n. bit (drop_bit 4 b) n = bit (0xF :: u8) n" by simp
    then have "bit (drop_bit 4 b) 0 \<and> bit (drop_bit 4 b) 1 \<and> bit (drop_bit 4 b) 2 \<and> bit (drop_bit 4 b) 3" by simp
    then show "bit b 7 \<and> bit b 6 \<and> bit b 5 \<and> bit b 4" by (simp add: bit_simps)
  next
    assume a: "bit b 7 \<and> bit b 6 \<and> bit b 5 \<and> bit b 4"
    show "drop_bit 4 b = 0xF"
    proof (rule bit_word_eqI)
      fix n assume "n < LENGTH(8)"
      then consider "n = 0" | "n = 1" | "n = 2" | "n = 3" | "n = 4" | "n = 5" | "n = 6" | "n = 7" by fastforce
      then show "bit (drop_bit 4 b) n = bit (0xF :: u8) n"
        using a by cases (auto simp: bit_simps dest: bit_imp_le_length)
    qed
  qed
  finally show ?thesis .
qed

lemma byte_units_bits:
  "byte_units b = (if bit b 7 \<and> \<not> bit b 6 then 0 else 1) + (if bit b 7 \<and> bit b 6 \<and> bit b 5 \<and> bit b 4 then 1 else 0)"
  by (simp add: byte_units_def cont_bits four_bits)

lemma sum_ifs: "sum_list (map (\<lambda>k. (if P k then 0 else 1) + (if Q k then 1 else 0)) xs) =
    length xs - length (filter P xs) + length (filter Q xs)"
proof (induction xs)
  case (Cons x xs)
  then show ?case using length_filter_le [of P xs] by (auto simp: Suc_diff_le)
qed simp

lemma word_units_sum:
  assumes "length bs = 8"
  shows "word_units (from_le_bytes bs) = sum_list (map byte_units bs)"
proof -
  let ?x = "from_le_bytes bs"
  have b: "bit ?x (8 * k + j) = bit (bs ! k) j" if "k < 8" "j < 8" for k j
    using bit_le_bytes [of bs k j] that assms by simp
  have b': "bit ?x (8 * k + 7) = bit (bs ! k) 7" "bit ?x (8 * k + 6) = bit (bs ! k) 6"
    "bit ?x (8 * k + 5) = bit (bs ! k) 5" "bit ?x (8 * k + 4) = bit (bs ! k) 4" if "k < 8" for k
    using that by (intro b; simp)+
  have s: "bit (push_bit 1 ?x) (8 * k + 7) = bit (bs ! k) 6" if "k < 8" for k
    using that b'(2) [OF that] by (subst bit_push_bit_iff) (simp add: add.commute)
  have "count_ones ((?x AND NOT (push_bit 1 ?x)) AND HI) = length (filter (\<lambda>k. bit (bs ! k) 7 \<and> \<not> bit (bs ! k) 6) [0..<8])"
    unfolding count_HI by (intro arg_cong [where f = length] filter_cong) (auto simp: bit_simps b' b' [unfolded add.commute [of "8 * _"]] s [simplified])
  moreover have "count_ones ((?x AND push_bit 1 ?x AND push_bit 2 ?x AND push_bit 3 ?x) AND HI) =
      length (filter (\<lambda>k. bit (bs ! k) 7 \<and> bit (bs ! k) 6 \<and> bit (bs ! k) 5 \<and> bit (bs ! k) 4) [0..<8])"
    unfolding count_HI by (intro arg_cong [where f = length] filter_cong) (auto simp: bit_simps b' b' [unfolded add.commute [of "8 * _"]] s [simplified])
  moreover have "sum_list (map byte_units bs) = sum_list (map (\<lambda>k. byte_units (bs ! k)) [0..<8])"
    using arg_cong [OF map_nth [of bs], of "\<lambda>xs. sum_list (map byte_units xs)"] assms by (simp add: comp_def)
  ultimately have t: "8 - count_ones (?x AND NOT (push_bit 1 ?x) AND HI) +
      count_ones (?x AND push_bit 1 ?x AND push_bit 2 ?x AND push_bit 3 ?x AND HI) = sum_list (map byte_units bs)"
    by (simp add: byte_units_bits sum_ifs and.assoc)
  have "sum_list (map byte_units bs) = 8" if "?x AND HI = 0"
  proof -
    have "\<not> bit (bs ! k) 7" if k: "k < 8" for k
    proof -
      have "\<not> bit (?x AND HI) (8 * k + 7)" using \<open>?x AND HI = 0\<close> by simp
      moreover have "(8 * k + 7) mod 8 = 7" by simp
      ultimately show ?thesis using k b'(1) [OF k] bit_HI [of "8 * k + 7"] by (simp add: bit_and_iff)
    qed
    then have "\<forall>b \<in> set bs. byte_units b = 1" using assms by (auto simp: in_set_conv_nth byte_units_bits)
    then have "map byte_units bs = map (\<lambda>_. 1) bs" by simp
    then have "sum_list (map byte_units bs) = sum_list (map (\<lambda>_. 1) bs)" by (rule arg_cong)
    then show ?thesis using assms by (simp add: sum_list_triv)
  qed
  then show ?thesis using t by (simp add: word_units_def Let_def)
qed

lemma utf16_len_from_sum: "utf16_len_from n bytes = n + sum_list (map byte_units bytes)"
proof (induction n bytes rule: utf16_len_from.induct)
  case (1 n bytes)
  have "sum_list (map byte_units (take 8 bytes)) + sum_list (map byte_units (drop 8 bytes)) = sum_list (map byte_units bytes)"
    by (metis append_take_drop_id map_append sum_list_append)
  then show ?case using 1 word_units_sum [of "take 8 bytes"] by (subst utf16_len_from.simps) simp
qed

lemma utf16_len_sum: "utf16_len bytes = sum_list (map byte_units bytes)"
  by (simp add: utf16_len_def utf16_len_from_sum)


text \<open>Every code point contributes its units.\<close>

lemma byte_units_nat: "byte_units b = (if unat b div 64 = 2 then 0 else 1) + (if 240 \<le> unat b then 1 else 0)"
  by (simp add: byte_units_def is_cont word_le_nat_alt)

lemma units_enc:
  assumes "cp \<le> CODE_POINT_MAX"
  shows "sum_list (map byte_units (enc cp)) = length (units_of cp)"
proof -
  let ?c = "unat cp"
  have m: "?c \<le> 0x10FFFF" using assms by (simp add: cp_bounds)
  have t: "128 + m mod 64 < 256" "(128 + m mod 64) div 64 = 2" "\<not> 240 \<le> 128 + m mod 64" for m :: nat
    by (rule order.strict_trans2 [of _ "128 + 64"], simp_all)
  have c: "byte_units (of_nat (128 + m mod 64)) = 0" for m
    by (simp add: byte_units_nat t del: of_nat_add)
  consider "?c < 0x80" | "0x80 \<le> ?c" "?c < 0x800" | "0x800 \<le> ?c" "?c < 0x10000" | "0x10000 \<le> ?c" by linarith
  then show ?thesis
  proof cases
    case 1
    then show ?thesis
      by (simp add: enc_bytes [OF assms] utf8_bytes.simps units_of_def cp_bounds byte_units_nat unat_ucast)
  next
    case 2
    then have d: "192 + ?c div 64 < 240" "192 + ?c div 64 < 256" "(192 + ?c div 64) div 64 = 3" by auto
    then have "byte_units (of_nat (192 + ?c div 64)) = 1" by (simp add: byte_units_nat del: of_nat_add)
    then show ?thesis using 2
      by (simp add: enc_bytes [OF assms] utf8_bytes.simps units_of_def cp_bounds c del: of_nat_add)
  next
    case 3
    then have d: "224 + ?c div 4096 < 240" "224 + ?c div 4096 < 256" "(224 + ?c div 4096) div 64 = 3" by auto
    then have "byte_units (of_nat (224 + ?c div 4096)) = 1" by (simp add: byte_units_nat del: of_nat_add)
    then show ?thesis using 3
      by (simp add: enc_bytes [OF assms] utf8_bytes.simps units_of_def cp_bounds c del: of_nat_add)
  next
    case 4
    then have d: "240 + ?c div 262144 < 256" "(240 + ?c div 262144) div 64 = 3" using m by auto
    then have "byte_units (of_nat (240 + ?c div 262144)) = 2" by (simp add: byte_units_nat del: of_nat_add)
    then show ?thesis using 4
      by (simp add: enc_bytes [OF assms] utf8_bytes.simps units_of_def cp_bounds c del: of_nat_add)
  qed
qed

lemma utf16_len_encode: "valid_cps cps \<Longrightarrow> utf16_len (encode_all cps) = length (to_units cps)"
  unfolding utf16_len_sum by (induction cps) (simp_all add: units_enc)

end
