(* ===== verification/Wtf8Slice.thy ===== *)
theory Wtf8Slice
  imports Wtf8Len
begin

text \<open>
  Indexing and slicing by UTF-16 units: what each scanning loop computes on an encoded string, from any
  character boundary on.
\<close>

lemma Utf16Units_nth_collect: "Utf16Units_nth it n = get_opt (utf16_collect it) n"
proof (induction n arbitrary: it)
  case 0
  show ?case by (subst utf16_collect.simps) (auto split: prod.split option.split)
next
  case (Suc n)
  show ?case
    by (subst utf16_collect.simps) (auto simp: Suc get_opt_def split: prod.split option.split)
qed

lemma utf16_index_eq: "valid_cps cps \<Longrightarrow> utf16_index (encode_all cps) i = get_opt (to_units cps) i"
  by (simp add: utf16_index_def Utf16Units_nth_collect)

lemma or_halves:
  assumes "FOUR_BYTE_MIN \<le> cp" "cp \<le> CODE_POINT_MAX"
  shows "ucast (0xD800 OR drop_bit 10 (cp - FOUR_BYTE_MIN)) = high_half cp"
    "ucast (0xDC00 OR ((cp - FOUR_BYTE_MIN) AND 0x3FF)) = low_half cp"
proof -
  have m: "0x10000 \<le> unat cp" "unat cp \<le> 0x10FFFF" using assms by (simp_all add: cp_bounds)
  have v: "unat (cp - FOUR_BYTE_MIN) = unat cp - 0x10000" using assms(1) by (simp add: unat_sub wtf8_consts)
  have d: "(unat cp - 0x10000) div 1024 < 1024" "(unat cp - 0x10000) mod 1024 < 1024" using m by auto
  have "unat (ucast (0xD800 OR drop_bit 10 (cp - FOUR_BYTE_MIN)) :: u16) = unat (high_half cp)"
    using d by (simp add: unat_halves [OF assms] unat_ucast unat_or_add [where k = 10] unat_drop v)
  then show "ucast (0xD800 OR drop_bit 10 (cp - FOUR_BYTE_MIN)) = high_half cp" by (simp only: unat_inject)
  have "unat (ucast (0xDC00 OR ((cp - FOUR_BYTE_MIN) AND 0x3FF)) :: u16) = unat (low_half cp)"
    using d by (simp add: unat_halves [OF assms] unat_ucast unat_or_add [where k = 10] masks unat_and_low v)
  then show "ucast (0xDC00 OR ((cp - FOUR_BYTE_MIN) AND 0x3FF)) = low_half cp" by (simp only: unat_inject)
qed

text \<open>The code points wholly before unit \<open>s\<close>, and the rest.\<close>

fun split_units :: "u32 list \<Rightarrow> nat \<Rightarrow> u32 list \<times> u32 list" where
  "split_units [] s = ([], [])"
| "split_units (cp # cps) s = (if s < cp_width cp then ([], cp # cps)
     else (case split_units cps (s - cp_width cp) of (p, r) \<Rightarrow> (cp # p, r)))"

lemma cp_width_units: "cp_width cp = length (units_of cp)"
  by (simp add: cp_width_def units_of_def)

lemma split_units_append: "split_units cps s = (p, r) \<Longrightarrow> cps = p @ r"
  by (induction cps arbitrary: s p r) (auto split: if_splits prod.splits)

lemma split_units_bound:
  "split_units cps s = (p, r) \<Longrightarrow> r \<noteq> [] \<Longrightarrow> length (to_units p) \<le> s \<and> s < length (to_units p) + cp_width (hd r)"
proof (induction cps arbitrary: s p r)
  case (Cons cp cps)
  show ?case
  proof (cases "s < cp_width cp")
    case False
    obtain p' where p': "split_units cps (s - cp_width cp) = (p', r)" "p = cp # p'"
      using Cons.prems False by (auto split: prod.splits)
    then show ?thesis using Cons.IH [OF p'(1) Cons.prems(2)] False by (auto simp: cp_width_units)
  qed (use Cons.prems in auto)
qed simp

lemma split_units_all: "split_units cps s = (p, []) \<Longrightarrow> length (to_units cps) \<le> s \<or> cps = []"
proof (induction cps arbitrary: s p)
  case (Cons cp cps)
  obtain p' where p': "split_units cps (s - cp_width cp) = (p', [])" "\<not> s < cp_width cp"
    using Cons.prems by (auto split: if_splits prod.splits)
  then show ?case using Cons.IH [OF p'(1)] by (auto simp: cp_width_units)
qed simp

lemma decode_head:
  "valid_cps (cp # cps) \<Longrightarrow> decode_code_point (pre @ enc cp @ encode_all cps) (length pre) = Some (cp, length (enc cp))"
  by (simp add: decode_enc)

lemma index_from_enc:
  assumes "valid_cps cps" "unit \<le> i" "split_units cps (i - unit) = (p, r)"
  shows "utf16_index_from (pre @ encode_all cps) (length pre) unit i =
    (if r = [] then None
     else Some (to_units r ! (i - unit - length (to_units p)), length pre + length (encode_all p),
                unit + length (to_units p)))"
  using assms
proof (induction cps arbitrary: pre unit p)
  case Nil
  then show ?case by (subst utf16_index_from.simps) (simp add: decode_end)
next
  case (Cons cp cps)
  note d = decode_head [OF Cons.prems(1), of pre]
  show ?case
  proof (cases "i - unit < cp_width cp")
    case True
    then show ?thesis
      using Cons.prems or_halves [of cp]
      by (subst utf16_index_from.simps) (auto simp: d cp_width_def Let_def units_of_def nth_Cons' split: if_splits)
  next
    case False
    obtain p' where p': "split_units cps (i - (unit + cp_width cp)) = (p', r)" "p = cp # p'"
      using Cons.prems(3) False by (auto split: prod.splits)
    have u: "unit + cp_width cp \<le> i" using False Cons.prems(2) by linarith
    from Cons.IH [OF _ u p'(1), of "pre @ enc cp"] Cons.prems(1)
    have "utf16_index_from (pre @ enc cp @ encode_all cps) (length pre + length (enc cp)) (unit + cp_width cp) i =
      (if r = [] then None
       else Some (to_units r ! (i - unit - length (to_units p)), length pre + length (encode_all p), unit + length (to_units p)))"
      by (simp add: p'(2) cp_width_units add.assoc diff_diff_left)
    then show ?thesis
      using False u by (subst utf16_index_from.simps) (auto simp: d cp_width_def split: if_splits)
  qed
qed

lemma byte_offset_enc:
  assumes "valid_cps cps" "seen \<le> unit" "split_units cps (unit - seen) = (p, r)"
  shows "byte_offset_loop (pre @ encode_all cps) unit up seen (length pre) =
    length pre + length (encode_all p) + (if r \<noteq> [] \<and> up \<and> length (to_units p) < unit - seen then length (enc (hd r)) else 0)"
  using assms
proof (induction cps arbitrary: pre seen p)
  case Nil
  then show ?case by (subst byte_offset_loop.simps) (simp add: decode_end)
next
  case (Cons cp cps)
  note d = decode_head [OF Cons.prems(1), of pre]
  show ?case
  proof (cases "unit - seen < cp_width cp")
    case True
    then show ?thesis
      using Cons.prems by (subst byte_offset_loop.simps) (auto simp: d split: if_splits)
  next
    case False
    obtain p' where p': "split_units cps (unit - (seen + cp_width cp)) = (p', r)" "p = cp # p'"
      using Cons.prems(3) False by (auto split: prod.splits)
    have w: "0 < cp_width cp" by (simp add: cp_width_def)
    have u: "seen + cp_width cp \<le> unit" using False Cons.prems(2) by linarith
    from Cons.IH [OF _ u p'(1), of "pre @ enc cp"] Cons.prems(1)
    have "byte_offset_loop (pre @ enc cp @ encode_all cps) unit up (seen + cp_width cp) (length pre + length (enc cp)) =
      length pre + length (encode_all p) + (if r \<noteq> [] \<and> up \<and> length (to_units p) < unit - seen then length (enc (hd r)) else 0)"
      by (auto simp: p'(2) cp_width_units)
    then show ?thesis
      using False u w by (subst byte_offset_loop.simps) (simp add: d)
  qed
qed

lemma char_boundary_enc:
  assumes "valid_cps cps" "seen \<le> unit" "split_units cps (unit - seen) = (p, r)"
  shows "char_boundary_loop (pre @ encode_all cps) unit seen (length pre) \<longleftrightarrow> r = [] \<or> length (to_units p) = unit - seen"
  using assms
proof (induction cps arbitrary: pre seen p)
  case Nil
  then show ?case by (subst char_boundary_loop.simps) (simp add: decode_end)
next
  case (Cons cp cps)
  note d = decode_head [OF Cons.prems(1), of pre]
  show ?case
  proof (cases "unit - seen < cp_width cp")
    case True
    then show ?thesis
      using Cons.prems by (subst char_boundary_loop.simps) (auto simp: d split: if_splits)
  next
    case False
    obtain p' where p': "split_units cps (unit - (seen + cp_width cp)) = (p', r)" "p = cp # p'"
      using Cons.prems(3) False by (auto split: prod.splits)
    have w: "0 < cp_width cp" by (simp add: cp_width_def)
    have u: "seen + cp_width cp \<le> unit" using False Cons.prems(2) by linarith
    from Cons.IH [OF _ u p'(1), of "pre @ enc cp"] Cons.prems(1)
    have "char_boundary_loop (pre @ enc cp @ encode_all cps) unit (seen + cp_width cp) (length pre + length (enc cp)) \<longleftrightarrow>
      r = [] \<or> length (to_units p) = unit - seen"
      using u by (auto simp: p'(2) cp_width_units)
    then show ?thesis
      using False u w by (subst char_boundary_loop.simps) (simp add: d)
  qed
qed

fun slice_cps :: "u32 list \<Rightarrow> nat \<Rightarrow> nat \<Rightarrow> u32 list" where
  "slice_cps [] s e = []"
| "slice_cps (cp # cps) s e =
     (if e = 0 then []
      else if FOUR_BYTE_MIN \<le> cp then
        (if s = 0 then [ucast (high_half cp)] else []) @ (if s \<le> 1 \<and> 1 < e then [ucast (low_half cp)] else []) @
        slice_cps cps (s - 2) (e - 2)
      else (if s = 0 then [cp] else []) @ slice_cps cps (s - 1) (e - 1))"

lemma Suc_Suc_diff: "Suc (Suc 0) \<le> s \<Longrightarrow> Suc (Suc (s - Suc (Suc 0))) = s"
  by simp

lemma slice_cps_units: "to_units (slice_cps cps s e) = take (e - s) (drop s (to_units cps))"
proof (induction cps s e rule: slice_cps.induct)
  case (2 cp cps s e)
  consider "e = 0" | "e = 1" | "2 \<le> e" by linarith
  note ec = this
  consider "s = 0" | "s = 1" | "2 \<le> s" by linarith
  then show ?case using 2 ec
    by (cases; cases rule: ec) (auto simp: units_of_def numeral_2_eq_2 take_Cons' drop_Cons' not_less_eq_eq Suc_Suc_diff)
qed simp

lemma slice_cps_valid: "valid_cps cps \<Longrightarrow> valid_cps (slice_cps cps s e)"
  by (induction cps s e rule: slice_cps.induct) auto

lemma slice_slow_enc:
  assumes "valid_cps cps"
  shows "slice_slow (pre @ encode_all cps) s e seen (length pre) out = out @ encode_all (slice_cps cps (s - seen) (e - seen))"
  using assms
proof (induction cps arbitrary: pre seen out)
  case Nil
  then show ?case by (subst slice_slow.simps) (simp add: decode_end)
next
  case (Cons cp cps)
  note d = decode_head [OF Cons.prems(1), of pre]
  have t: "take (length (enc cp)) (drop (length pre) (pre @ enc cp @ encode_all cps)) = enc cp" by simp
  have ih: "slice_slow (pre @ enc cp @ encode_all cps) s e seen' (length pre + length (enc cp)) out' =
      out' @ encode_all (slice_cps cps (s - seen') (e - seen'))" for seen' out'
    using Cons.IH [of "pre @ enc cp"] Cons.prems by simp
  show ?case
  proof (cases "FOUR_BYTE_MIN \<le> cp")
    case True
    then show ?thesis
      by (subst slice_slow.simps)
         (auto simp: d ih Let_def encode_utf16_unit_def encode_append [of _ out] encode_append [of _ "out @ _"] diff_diff_left)
  next
    case False
    then show ?thesis
      by (subst slice_slow.simps) (auto simp: d ih t)
  qed
qed

lemma split_units_le: "split_units cps s = (p, r) \<Longrightarrow> length (to_units p) \<le> s"
proof (induction cps arbitrary: s p)
  case (Cons cp cps)
  then show ?case by (fastforce simp: cp_width_units split: if_splits prod.splits)
qed simp

lemma split_units_facts:
  assumes "split_units cps s = (p, r)"
  shows "length (to_units p) \<le> s" "r = [] \<Longrightarrow> p = cps"
  using split_units_le [OF assms] split_units_append [OF assms] by simp_all

lemma units_nonempty: "to_units p = [] \<longleftrightarrow> p = []"
  by (cases p) (simp_all add: units_of_def)

lemma offset_eq:
  assumes "valid_cps cps" "split_units cps s = (p, r)"
  shows "byte_offset_of_unit (encode_all cps) s up =
      length (encode_all p) + (if r \<noteq> [] \<and> up \<and> length (to_units p) < s then length (enc (hd r)) else 0)"
    "unit_at_char_boundary (encode_all cps) s \<longleftrightarrow> r = [] \<or> length (to_units p) = s"
proof -
  have z: "p = []" if "s = 0" using split_units_facts(1) [OF assms(2)] that units_nonempty by auto
  show "byte_offset_of_unit (encode_all cps) s up =
      length (encode_all p) + (if r \<noteq> [] \<and> up \<and> length (to_units p) < s then length (enc (hd r)) else 0)"
    using byte_offset_enc [of cps 0 s p r "[]" up] assms z by (auto simp: byte_offset_of_unit_def)
  show "unit_at_char_boundary (encode_all cps) s \<longleftrightarrow> r = [] \<or> length (to_units p) = s"
    using char_boundary_enc [of cps 0 s p r "[]"] assms z by (auto simp: unit_at_char_boundary_def)
qed

lemma canonical_sub: "canonical (p @ m @ r) \<Longrightarrow> canonical m"
  by (auto simp: canonical_def no_pair_append)

text \<open>The code points between two character boundaries.\<close>

lemma between_boundaries:
  assumes c: "canonical cps" and s: "split_units cps s = (p, r)" "length (to_units p) = s"
    and e: "split_units cps e = (p2, r2)" "length (to_units p2) = e" and le: "s \<le> e"
  obtains m where "p2 = p @ m" "canonical m" "to_units m = take (e - s) (drop s (to_units cps))"
proof -
  have ap: "p @ r = p2 @ r2" "cps = p @ r" using split_units_append s(1) e(1) by blast+
  have "\<exists>m. p2 = p @ m"
  proof -
    obtain us where "p = p2 @ us \<and> us @ r = r2 \<or> p @ us = p2 \<and> r = us @ r2"
      using append_eq_append_conv2 [of p r p2 r2] ap(1) by blast
    then show ?thesis using s(2) e(2) le units_nonempty [of us] by (auto intro: exI [of _ "[]"])
  qed
  then obtain m where m: "p2 = p @ m" by blast
  have cps: "cps = p @ m @ r2" using ap m by simp
  have "to_units m = take (e - s) (drop s (to_units cps))" using s(2) e(2) by (simp add: cps m)
  then show thesis using that m canonical_sub c cps by blast
qed

lemma slice_encode:
  assumes c: "canonical cps"
  shows "\<exists>r. slice_utf16 (encode_all cps) s e = Some (encode_all r) \<and> valid_cps r \<and>
    to_units r = take (e - s) (drop s (to_units cps)) \<and>
    (unit_at_char_boundary (encode_all cps) s \<and> unit_at_char_boundary (encode_all cps) e \<longrightarrow> canonical r)"
proof -
  let ?b = "encode_all cps" and ?n = "length (to_units cps)"
  let ?s = "min s ?n" and ?e = "min e ?n"
  have v: "valid_cps cps" using c by (simp add: canonical_def)
  have n: "utf16_len ?b = ?n" by (rule utf16_len_encode [OF v])
  show ?thesis
  proof (cases "?e \<le> ?s")
    case True
    then have "take (e - s) (drop s (to_units cps)) = []" by auto
    then show ?thesis using True by (intro exI [of _ "[]"]) (simp add: slice_utf16_def Let_def n canonical_def)
  next
    case False
    then have s: "?s = s" "s < ?n" "s < ?e" by auto
    have tk: "take (?e - s) (drop s (to_units cps)) = take (e - s) (drop s (to_units cps))"
      by (simp add: min_def)
    obtain p r where sp: "split_units cps s = (p, r)" by fastforce
    obtain p2 r2 where se: "split_units cps ?e = (p2, r2)" by fastforce
    have r: "r \<noteq> []" using split_units_all [of cps s p] sp s(2) by auto
    have e_all: "length (to_units p2) = ?e" if "r2 = []"
      using split_units_facts [OF se] that by auto
    have be: "unit_at_char_boundary ?b ?e" if "unit_at_char_boundary ?b e"
    proof (cases "e \<le> ?n")
      case False
      then have "r2 = []" using split_units_bound [OF se] split_units_append [OF se] cp_width_units by (cases r2) auto
      then show ?thesis using offset_eq(2) [OF v se] by simp
    qed (use that in \<open>simp add: min_def\<close>)
    show ?thesis
    proof (cases "unit_at_char_boundary ?b s \<and> unit_at_char_boundary ?b ?e")
      case True
      have l: "length (to_units p) = s" "length (to_units p2) = ?e"
        using True offset_eq(2) [OF v sp] offset_eq(2) [OF v se] r e_all by auto
      obtain m where m: "p2 = p @ m" "canonical m" "to_units m = take (?e - s) (drop s (to_units cps))"
        using between_boundaries [OF c sp l(1) se l(2)] s(3) by auto
      have b: "?b = encode_all p @ encode_all m @ encode_all r2" using split_units_append [OF se] m(1) by simp
      have "slice_utf16 ?b s e = Some (encode_all m)"
        using False True s l m(1) unfolding slice_utf16_def n Let_def s(1)
        by (simp add: offset_eq(1) [OF v sp] offset_eq(1) [OF v se] slice_range_def) (auto simp: b min_def split: if_splits)
      then show ?thesis using m tk by (intro exI [of _ m]) (simp add: canonical_def)
    next
      case nb: False
      have "slice_utf16 ?b s e = Some (encode_all (slice_cps cps s ?e))"
        using False nb s slice_slow_enc [OF v, of "[]" s ?e 0 "[]"] unfolding slice_utf16_def n Let_def s(1)
        by (auto simp: min_le_iff_disj)
      then show ?thesis
        using slice_cps_valid [OF v] slice_cps_units [of cps s ?e] tk nb be by (intro exI [of _ "slice_cps cps s ?e"]) auto
    qed
  qed
qed

definition opt_units :: "u16 option \<Rightarrow> u16 list" where
  "opt_units u = (case u of None \<Rightarrow> [] | Some x \<Rightarrow> [x])"

lemma opt_units_simps [simp]: "opt_units None = []" "opt_units (Some x) = [x]"
  by (simp_all add: opt_units_def)

lemma range_start_enc:
  assumes "valid_cps cps" "u \<le> s" "s \<le> u + length (to_units cps)"
  shows "\<exists>p rest u' lead. range_start_loop (pre @ encode_all cps) s (length pre) u None = (length pre + length (encode_all p), u', lead) \<and>
    cps = p @ rest \<and> u' = u + length (to_units p) \<and> u' = s + length (opt_units lead) \<and>
    opt_units lead @ to_units rest = drop (s - u) (to_units cps)"
  using assms
proof (induction cps arbitrary: pre u)
  case Nil
  then show ?case by (subst range_start_loop.simps) simp
next
  case (Cons cp cps)
  note d = decode_head [OF Cons.prems(1), of pre]
  show ?case
  proof (cases "u < s")
    case False
    then show ?thesis
      using Cons.prems(2) by (subst range_start_loop.simps) (intro exI [of _ "[]"] exI [of _ "cp # cps"], auto)
  next
    case True
    show ?thesis
    proof (cases "u + cp_width cp \<le> s")
      case le: True
      have pr: "valid_cps cps" "s \<le> u + cp_width cp + length (to_units cps)"
        using Cons.prems by (simp_all add: cp_width_units)
      obtain p rest u' lead where ih: "range_start_loop ((pre @ enc cp) @ encode_all cps) s (length (pre @ enc cp)) (u + cp_width cp) None =
          (length (pre @ enc cp) + length (encode_all p), u', lead)" "cps = p @ rest" "u' = u + cp_width cp + length (to_units p)"
        "u' = s + length (opt_units lead)" "opt_units lead @ to_units rest = drop (s - (u + cp_width cp)) (to_units cps)"
        using Cons.IH [OF pr(1) le pr(2), of "pre @ enc cp"] by blast
      have "drop (s - u) (to_units (cp # cps)) = drop (s - (u + cp_width cp)) (to_units cps)"
        using le True by (simp add: cp_width_units)
      moreover have "range_start_loop (pre @ encode_all (cp # cps)) s (length pre) u None = (length pre + length (encode_all (cp # p)), u', lead)"
        using ih(1) True le by (subst range_start_loop.simps) (auto simp: d cp_width_def split: if_splits)
      ultimately show ?thesis
        using ih by (intro exI [of _ "cp # p"] exI [of _ rest] exI [of _ u'] exI [of _ lead]) (simp add: cp_width_units)
    next
      case False
      then have a: "FOUR_BYTE_MIN \<le> cp" "s = u + 1" using True by (auto simp: cp_width_def split: if_splits)
      have "range_start_loop (pre @ enc cp @ encode_all cps) s (length pre + length (enc cp)) (u + 2) (Some (low_half cp)) =
          (length pre + length (enc cp), u + 2, Some (low_half cp))"
        using a by (subst range_start_loop.simps) simp
      then have "range_start_loop (pre @ encode_all (cp # cps)) s (length pre) u None = (length pre + length (encode_all [cp]), u + 2, Some (low_half cp))"
        using a by (subst range_start_loop.simps) (simp add: d)
      then show ?thesis
        using a by (intro exI [of _ "[cp]"] exI [of _ cps] exI [of _ "u + 2"] exI [of _ "Some (low_half cp)"])
          (simp add: units_of_def)
    qed
  qed
qed

lemma range_end_enc:
  assumes "valid_cps cps" "u \<le> e"
  shows "\<exists>m rest trail. range_end_loop (pre @ encode_all cps) e (length pre) u = (length pre + length (encode_all m), trail) \<and>
    cps = m @ rest \<and> to_units m @ opt_units trail = take (e - u) (to_units cps)"
  using assms
proof (induction cps arbitrary: pre u)
  case Nil
  then show ?case by (subst range_end_loop.simps) (simp add: decode_end)
next
  case (Cons cp cps)
  note d = decode_head [OF Cons.prems(1), of pre]
  show ?case
  proof (cases "u < e")
    case False
    then show ?thesis
      using Cons.prems(2) by (subst range_end_loop.simps) (intro exI [of _ "[]"] exI [of _ "cp # cps"], auto)
  next
    case True
    show ?thesis
    proof (cases "u + cp_width cp \<le> e")
      case le: True
      have vc: "valid_cps cps" using Cons.prems by simp
      obtain m rest trail where ih: "range_end_loop ((pre @ enc cp) @ encode_all cps) e (length (pre @ enc cp)) (u + cp_width cp) =
          (length (pre @ enc cp) + length (encode_all m), trail)" "cps = m @ rest"
          "to_units m @ opt_units trail = take (e - (u + cp_width cp)) (to_units cps)"
        using Cons.IH [OF vc le, of "pre @ enc cp"] by blast
      have "take (e - u) (to_units (cp # cps)) = units_of cp @ take (e - (u + cp_width cp)) (to_units cps)"
        using le True by (simp add: cp_width_units)
      moreover have "range_end_loop (pre @ encode_all (cp # cps)) e (length pre) u = (length pre + length (encode_all (cp # m)), trail)"
        using ih(1) True le by (subst range_end_loop.simps) (auto simp: d cp_width_def split: if_splits)
      ultimately show ?thesis
        using ih by (intro exI [of _ "cp # m"] exI [of _ rest] exI [of _ trail]) simp
    next
      case False
      then have a: "FOUR_BYTE_MIN \<le> cp" "e = u + 1" using True by (auto simp: cp_width_def split: if_splits)
      have "range_end_loop (pre @ encode_all (cp # cps)) e (length pre) u = (length pre + length (encode_all []), Some (high_half cp))"
        using a by (subst range_end_loop.simps) (simp add: d)
      then show ?thesis
        using a by (intro exI [of _ "[]"] exI [of _ "cp # cps"] exI [of _ "Some (high_half cp)"]) (simp add: units_of_def)
    qed
  qed
qed

definition range_mid :: "u8 list \<Rightarrow> unit_range \<Rightarrow> u8 list" where
  "range_mid bytes r = take (r_end r - r_start r) (drop (r_start r) bytes)"

lemma range_encode:
  assumes c: "canonical (q @ t)" and bytes: "bytes = encode_all (q @ t)" and U: "U = to_units (q @ t)"
    and hint: "hint = (length (encode_all q), length (to_units q))" and se: "s < e" "e \<le> length U"
    and R: "R = utf16_range bytes hint s e (length U)"
  shows "\<exists>m. range_mid bytes R = encode_all m \<and> canonical m \<and> r_start R \<le> r_end R \<and> r_end R \<le> length bytes \<and>
    opt_units (r_lead R) @ to_units m @ opt_units (r_trail R) = take (e - s) (drop s U)"
proof -
  have v: "valid_cps (q @ t)" using c by (simp add: canonical_def)
  obtain q0 t0 where h: "(if snd hint \<le> s \<and> fst hint \<le> length bytes then hint else (0, 0)) = (length (encode_all q0), length (to_units q0))"
    "q @ t = q0 @ t0" "length (to_units q0) \<le> s"
  proof (cases "snd hint \<le> s \<and> fst hint \<le> length bytes")
    case True
    show thesis by (rule that [of q t]) (use True hint in auto)
  next
    case False
    show thesis by (rule that [of "[]" "q @ t"]) (use False in auto)
  qed
  have v0: "valid_cps t0" "U = to_units q0 @ to_units t0" "bytes = encode_all q0 @ encode_all t0"
    using v h(2) U bytes by simp_all
  have sb: "s \<le> length (to_units q0) + length (to_units t0)" using se v0(2) by simp
  obtain p rest u lead where st: "range_start_loop (encode_all q0 @ encode_all t0) s (length (encode_all q0)) (length (to_units q0)) None =
      (length (encode_all q0) + length (encode_all p), u, lead)" "t0 = p @ rest" "u = length (to_units q0) + length (to_units p)"
      "u = s + length (opt_units lead)" "opt_units lead @ to_units rest = drop (s - length (to_units q0)) (to_units t0)"
    using range_start_enc [OF v0(1) h(3) sb, of "encode_all q0"] by blast
  have L: "opt_units lead @ to_units rest = drop s U" using st(5) h(3) v0(2) by simp
  have ue: "u \<le> e" using st(4) se by (cases lead) auto
  have vr: "valid_cps rest" using v0(1) st(2) by simp
  show ?thesis
  proof (cases "length U \<le> e")
    case True
    then have "R = \<lparr>r_start = length (encode_all q0) + length (encode_all p), r_end = length bytes, r_lead = lead, r_trail = None\<rparr>"
      unfolding R utf16_range_def h(1) using st(1) by (simp add: v0(3))
    moreover have "canonical rest" using canonical_sub [of "q0 @ p" rest "[]"] c h(2) st(2) by simp
    moreover have "take (e - s) (drop s U) = drop s U" using True by simp
    ultimately show ?thesis using L by (intro exI [of _ rest]) (simp add: range_mid_def v0(3) st(2))
  next
    case False
    obtain m rest2 trail where en: "range_end_loop ((encode_all q0 @ encode_all p) @ encode_all rest) e (length (encode_all q0 @ encode_all p)) u =
        (length (encode_all q0 @ encode_all p) + length (encode_all m), trail)" "rest = m @ rest2"
        "to_units m @ opt_units trail = take (e - u) (to_units rest)"
      using range_end_enc [OF vr ue, of "encode_all q0 @ encode_all p"] by blast
    have "R = \<lparr>r_start = length (encode_all q0) + length (encode_all p),
        r_end = length (encode_all q0) + length (encode_all p) + length (encode_all m), r_lead = lead, r_trail = trail\<rparr>"
      unfolding R utf16_range_def h(1) using st(1) en(1) False by (simp add: v0(3) st(2))
    moreover have "canonical m" using canonical_sub [of "q0 @ p" m rest2] c h(2) st(2) en(2) by simp
    moreover have "take (e - s) (drop s U) = opt_units lead @ take (e - u) (to_units rest)"
      unfolding L [symmetric] using st(4) ue by (simp add: diff_diff_left)
    ultimately show ?thesis using en(3) by (intro exI [of _ m]) (simp add: range_mid_def v0(3) st(2) en(2))
  qed
qed

end
