(* ===== verification/Wtf8Order.thy ===== *)
theory Wtf8Order
  imports Wtf8Slice
begin

text \<open>
  The order of strings: comparing bytes agrees with comparing UTF-16 units as long as the first difference
  is below the surrogate lead byte, which is when \<open>cmp_utf16\<close> does so; and UTF-16 well-formedness.
\<close>

lemma lex_cmp_same [simp]: "lex_cmp (xs @ ys) (xs @ zs) = lex_cmp ys zs"
  by (induction xs) auto

lemma lex_cmp_map:
  assumes "\<And>x y. cmp (f x) (f y) = cmp x y"
  shows "lex_cmp (map f xs) (map f ys) = lex_cmp xs ys"
  by (induction xs ys rule: lex_cmp.induct) (auto simp: assms split: ordering.split)

lemma cmp_unat [simp]: "cmp (unat x) (unat y) = cmp x (y :: 'a :: len word)"
  by (auto simp: cmp_def word_less_nat_alt)

lemma lex_cmp_first_diff:
  "lex_cmp a b = (case first_diff a b of Some i \<Rightarrow> cmp (a ! i) (b ! i) | None \<Rightarrow> cmp (length a) (length b))"
proof (induction a b rule: lex_cmp.induct)
  case (4 x xs y ys)
  show ?case
  proof (cases "x = y")
    case True
    then show ?thesis using 4 by (auto simp: cmp_def split: option.splits)
  next
    case False
    then have "cmp x y \<noteq> Equal" by simp
    then show ?thesis using False by (auto split: ordering.splits)
  qed
qed (auto simp: cmp_def)

lemma cmp_divmod:
  assumes "0 < (k :: nat)"
  shows "cmp c d = (case cmp (c div k) (d div k) of Equal \<Rightarrow> cmp (c mod k) (d mod k) | r \<Rightarrow> r)"
proof -
  consider "c div k < d div k" | "c div k = d div k" | "d div k < c div k" by linarith
  then show ?thesis
  proof cases
    case 1
    then have "c < d" by (meson div_le_mono not_less)
    then show ?thesis using 1 by (simp add: cmp_def)
  next
    case 2
    have "c = c div k * k + c mod k" "d = c div k * k + d mod k"
      using div_mult_mod_eq [of c k] div_mult_mod_eq [of d k] 2 by simp_all
    then have "c < d \<longleftrightarrow> c mod k < d mod k" "c = d \<longleftrightarrow> c mod k = d mod k" by linarith+
    then show ?thesis using 2 by (simp add: cmp_def)
  next
    case 3
    then have "d < c" by (meson div_le_mono not_less)
    then show ?thesis using 3 by (simp add: cmp_def)
  qed
qed

lemma cmp_shift [simp]: "cmp (k + a) (k + b) = cmp a (b :: nat)"
  by (auto simp: cmp_def)

lemma div_div_64: "c div 64 div 64 = c div (4096 :: nat)" "c div 4096 div 64 = c div (262144 :: nat)"
  by (simp_all add: div_mult2_eq [symmetric])

lemma lex_lead: "x < y \<Longrightarrow> lex_cmp (x # xs) (y # ys) = Less" "y < x \<Longrightarrow> lex_cmp (x # xs) (y # ys) = Greater"
  by (auto simp: cmp_def)

definition then_cmp :: "ordering \<Rightarrow> ordering \<Rightarrow> ordering" where
  "then_cmp r s = (case r of Equal \<Rightarrow> s | c \<Rightarrow> c)"

lemma then_cmp_assoc: "then_cmp (then_cmp r s) t = then_cmp r (then_cmp s t)"
  by (cases r) (simp_all add: then_cmp_def)

lemma lex_cmp_Cons: "lex_cmp (x # xs) (y # ys) = then_cmp (cmp x y) (lex_cmp xs ys)"
  by (simp add: then_cmp_def)

text \<open>The byte order of UTF-8 is the order of the code points.\<close>

lemma lex_utf8_class:
  assumes "c \<noteq> d"
  shows "c < 0x80 \<Longrightarrow> d < 0x80 \<Longrightarrow> lex_cmp (utf8_bytes c @ A) (utf8_bytes d @ B) = cmp c d"
    "0x80 \<le> c \<Longrightarrow> c < 0x800 \<Longrightarrow> 0x80 \<le> d \<Longrightarrow> d < 0x800 \<Longrightarrow> lex_cmp (utf8_bytes c @ A) (utf8_bytes d @ B) = cmp c d"
    "0x800 \<le> c \<Longrightarrow> c < 0x10000 \<Longrightarrow> 0x800 \<le> d \<Longrightarrow> d < 0x10000 \<Longrightarrow> lex_cmp (utf8_bytes c @ A) (utf8_bytes d @ B) = cmp c d"
    "0x10000 \<le> c \<Longrightarrow> 0x10000 \<le> d \<Longrightarrow> lex_cmp (utf8_bytes c @ A) (utf8_bytes d @ B) = cmp c d"
proof -
  have n: "then_cmp (cmp c d) r = cmp c d" for r using assms by (cases "cmp c d") (auto simp: then_cmp_def)
  note e = cmp_divmod [of 64 c d] cmp_divmod [of 64 "c div 64" "d div 64", unfolded div_div_64]
    cmp_divmod [of 64 "c div 4096" "d div 4096", unfolded div_div_64]
  note f = utf8_bytes.simps lex_cmp_Cons then_cmp_assoc [symmetric] e [folded then_cmp_def, symmetric] n
  show "c < 0x80 \<Longrightarrow> d < 0x80 \<Longrightarrow> lex_cmp (utf8_bytes c @ A) (utf8_bytes d @ B) = cmp c d"
    "0x80 \<le> c \<Longrightarrow> c < 0x800 \<Longrightarrow> 0x80 \<le> d \<Longrightarrow> d < 0x800 \<Longrightarrow> lex_cmp (utf8_bytes c @ A) (utf8_bytes d @ B) = cmp c d"
    "0x800 \<le> c \<Longrightarrow> c < 0x10000 \<Longrightarrow> 0x800 \<le> d \<Longrightarrow> d < 0x10000 \<Longrightarrow> lex_cmp (utf8_bytes c @ A) (utf8_bytes d @ B) = cmp c d"
    "0x10000 \<le> c \<Longrightarrow> 0x10000 \<le> d \<Longrightarrow> lex_cmp (utf8_bytes c @ A) (utf8_bytes d @ B) = cmp c d"
    by (simp_all add: f del: lex_cmp.simps(4))
qed

lemma lead_bounds:
  assumes "c \<le> 0x10FFFF"
  shows "c < 0x80 \<longleftrightarrow> hd (utf8_bytes c) < 0xC0" "c < 0x800 \<longleftrightarrow> hd (utf8_bytes c) < 0xE0"
    "c < 0x10000 \<longleftrightarrow> hd (utf8_bytes c) < 0xF0" "utf8_bytes c \<noteq> []"
  using assms by (auto simp: utf8_bytes.simps)

lemma lex_utf8:
  assumes "c \<noteq> d" "c \<le> 0x10FFFF" "d \<le> 0x10FFFF"
  shows "lex_cmp (utf8_bytes c @ A) (utf8_bytes d @ B) = cmp c d"
proof (cases "(c < 0x80 \<longleftrightarrow> d < 0x80) \<and> (c < 0x800 \<longleftrightarrow> d < 0x800) \<and> (c < 0x10000 \<longleftrightarrow> d < 0x10000)")
  case True
  then show ?thesis using lex_utf8_class [OF assms(1)] by (meson not_less)
next
  case False
  obtain x xs y ys where xy: "utf8_bytes c = x # xs" "utf8_bytes d = y # ys"
    using lead_bounds(4) assms by (meson list.exhaust)
  then have "x < y \<and> c < d \<or> y < x \<and> d < c"
    using False lead_bounds [OF assms(2)] lead_bounds [OF assms(3)] by auto
  then show ?thesis unfolding xy by (auto simp: cmp_def)
qed

lemma cmp_half:
  assumes "FOUR_BYTE_MIN \<le> x" "x \<le> CODE_POINT_MAX" "FOUR_BYTE_MIN \<le> y" "y \<le> CODE_POINT_MAX"
  shows "cmp x y = (case cmp (high_half x) (high_half y) of Equal \<Rightarrow> cmp (low_half x) (low_half y) | r \<Rightarrow> r)"
proof -
  have "cmp x y = cmp (unat x) (unat y)" by simp
  also have "\<dots> = cmp (unat x - 0x10000) (unat y - 0x10000)"
    using assms unfolding cp_bounds cmp_def by (simp only: less_diff_iff eq_diff_iff)
  also have "\<dots> = (case cmp (unat (high_half x)) (unat (high_half y)) of
      Equal \<Rightarrow> cmp (unat (low_half x)) (unat (low_half y)) | r \<Rightarrow> r)"
    by (subst cmp_divmod [of 1024]) (simp_all only: unat_halves assms cmp_shift zero_less_numeral)
  finally show ?thesis by (simp only: cmp_unat)
qed

lemma units_order:
  assumes "FOUR_BYTE_MIN \<le> x \<longleftrightarrow> FOUR_BYTE_MIN \<le> y" "x \<noteq> y" "x \<le> CODE_POINT_MAX" "y \<le> CODE_POINT_MAX"
  shows "lex_cmp (units_of x @ U) (units_of y @ V) = cmp x y"
proof (cases "FOUR_BYTE_MIN \<le> x")
  case True
  have "cmp x y \<noteq> Equal" using assms(2) by simp
  then show ?thesis
    using True assms(1) cmp_half [of x y] assms(3,4) by (auto simp: units_of_def split: ordering.splits)
next
  case False
  have "unat (ucast x :: u16) = unat x" "unat (ucast y :: u16) = unat y"
    using False assms(1) by (simp_all add: unat_ucast cp_bounds)
  then have c: "cmp (ucast x :: u16) (ucast y) = cmp x y" by (metis cmp_unat)
  have "cmp x y \<noteq> Equal" using assms(2) by simp
  then show ?thesis using False assms(1) c by (auto simp: units_of_def split: ordering.splits)
qed

lemma lex_enc:
  assumes "x \<noteq> y" "x \<le> CODE_POINT_MAX" "y \<le> CODE_POINT_MAX"
  shows "lex_cmp (enc x @ A) (enc y @ B) = cmp x y"
proof -
  have "lex_cmp (map unat (enc x @ A)) (map unat (enc y @ B)) = cmp (unat x) (unat y)"
    using lex_utf8 [of "unat x" "unat y" "map unat A" "map unat B"] assms
    by (simp add: encode_bytes cp_bounds)
  then show ?thesis by (simp only: lex_cmp_map cmp_unat)
qed

lemma first_diff_same: "first_diff (xs @ ys) (xs @ zs) = map_option (\<lambda>i. length xs + i) (first_diff ys zs)"
  by (induction xs) (auto simp: option.map_comp comp_def option.map_ident)

lemma hd_enc: "cp \<le> CODE_POINT_MAX \<Longrightarrow> unat (hd (enc cp)) = hd (utf8_bytes (unat cp))"
  using encode_bytes [of cp] lead_bounds(4) [of "unat cp"] by (metis cp_bounds(1) encode_nonempty hd_map)

definition low_diff :: "u8 list \<Rightarrow> u8 list \<Rightarrow> bool" where
  "low_diff a b = (case first_diff a b of Some i \<Rightarrow> a ! i < 0xED \<and> b ! i < 0xED | None \<Rightarrow> True)"

lemma low_diff_same: "low_diff (xs @ ys) (xs @ zs) \<longleftrightarrow> low_diff ys zs"
  by (simp add: low_diff_def first_diff_same nth_append split: option.splits)

lemma low_diff_astral:
  assumes "low_diff (enc x @ A) (enc y @ B)" "x \<le> CODE_POINT_MAX" "y \<le> CODE_POINT_MAX"
  shows "FOUR_BYTE_MIN \<le> x \<longleftrightarrow> FOUR_BYTE_MIN \<le> y"
proof -
  obtain a as b bs where e: "enc x = a # as" "enc y = b # bs" by (meson encode_nonempty list.exhaust)
  have h: "unat a = hd (utf8_bytes (unat x))" "unat b = hd (utf8_bytes (unat y))"
    using hd_enc assms(2,3) e by (metis list.sel(1))+
  have "a = b \<or> unat a < 0xED \<and> unat b < 0xED"
    using assms(1) by (auto simp: low_diff_def e word_less_nat_alt split: if_splits)
  then show ?thesis
    using lead_bounds(3) [of "unat x"] lead_bounds(3) [of "unat y"] assms(2,3) h by (auto simp: cp_bounds)
qed

lemma lex_bytes_units:
  assumes "valid_cps a" "valid_cps b" "low_diff (encode_all a) (encode_all b)"
  shows "lex_cmp (encode_all a) (encode_all b) = lex_cmp (to_units a) (to_units b)"
  using assms
proof (induction a arbitrary: b)
  case Nil
  show ?case
  proof (cases b)
    case (Cons y ys)
    then show ?thesis by (cases "enc y"; cases "units_of y") (auto simp: units_of_def split: if_splits)
  qed simp
next
  case (Cons x xs)
  show ?case
  proof (cases b)
    case Nil
    then show ?thesis by (cases "enc x"; cases "units_of x") (auto simp: units_of_def split: if_splits)
  next
    case b: (Cons y ys)
    show ?thesis
    proof (cases "x = y")
      case True
      then show ?thesis using Cons b by (simp add: low_diff_same)
    next
      case False
      then show ?thesis
        using Cons.prems low_diff_astral [of x "encode_all xs" y "encode_all ys"]
          lex_enc [OF False, of "encode_all xs" "encode_all ys"] units_order [of x y "to_units xs" "to_units ys"]
        by (simp add: b)
    qed
  qed
qed

lemma cmp_utf16_encode:
  assumes "valid_cps a" "valid_cps b"
  shows "cmp_utf16 (encode_all a) (encode_all b) = lex_cmp (to_units a) (to_units b)"
proof -
  have d: "lex_cmp (encode_all a) (encode_all b) = lex_cmp (to_units a) (to_units b)" if "low_diff (encode_all a) (encode_all b)"
    using lex_bytes_units [OF assms that] .
  show ?thesis
    using d assms unfolding cmp_utf16_def lex_cmp_first_diff [of "encode_all a"] low_diff_def
    by (auto split: option.splits simp: not_le)
qed

subsection \<open>Well-formedness\<close>

lemma unit_classes:
  "(0xD800 \<le> u \<and> u \<le> 0xDBFF) \<longleftrightarrow> is_high (ucast (u :: u16))"
  "(0xDC00 \<le> u \<and> u \<le> 0xDFFF) \<longleftrightarrow> is_low (ucast (u :: u16))"
  by (simp_all add: surrogate_unat word_le_nat_alt)

lemma surrogate_split: "is_surrogate cp \<longleftrightarrow> is_high cp \<or> is_low cp" "\<not> (is_high cp \<and> is_low cp)"
  by (auto simp: surrogate_unat)

lemma well_formed_loop_Cons:
  "well_formed_loop b (u # us) =
     (if b then is_low (ucast u) \<and> well_formed_loop False us
      else \<not> is_low (ucast u) \<and> well_formed_loop (is_high (ucast u)) us)"
  unfolding well_formed_loop.simps Let_def unit_classes by auto

lemma well_formed_loop_pair: "well_formed_loop False us \<longleftrightarrow> list_all (\<lambda>cp. \<not> is_surrogate cp) (pair_units us)"
proof (induction us rule: pair_units.induct)
  case (3 u lo us)
  have a: "\<not> is_surrogate (astral (ucast u) (ucast lo))" if "is_high (ucast u :: u32)" "is_low (ucast lo :: u32)"
    using astral_not_surrogate [OF astral_halves(1)] that by (simp add: surrogate_split(1))
  show ?case
    using 3 a surrogate_split(2) [of "ucast u"]
    by (auto simp: well_formed_loop_Cons surrogate_split(1) simp del: well_formed_loop.simps)
qed (auto simp: well_formed_loop_Cons surrogate_split(1) simp del: well_formed_loop.simps(2))

lemma is_utf8_encode: "valid_cps cps \<Longrightarrow> is_utf8 (encode_all cps) \<longleftrightarrow> list_all (\<lambda>cp. \<not> is_surrogate cp) cps"
  by (auto simp: is_utf8_def is_scalar_def valid_cps_def list_all_iff)

lemma to_string_lossy_encode:
  assumes "valid_cps cps"
  shows "to_string_lossy (encode_all cps) = encode_all (map (\<lambda>cp. if is_surrogate cp then 0xFFFD else cp) cps)"
proof -
  have m: "map (\<lambda>cp. if is_scalar cp then cp else 0xFFFD) cps = map (\<lambda>cp. if is_surrogate cp then 0xFFFD else cp) cps"
    using assms by (auto simp: is_scalar_def valid_cps_def list_all_iff)
  have "map (\<lambda>cp. if is_surrogate cp then 0xFFFD else cp) cps = cps" if "is_utf8 (encode_all cps)"
    using that unfolding is_utf8_encode [OF assms] by (induction cps) auto
  then show ?thesis using assms by (simp add: to_string_lossy_def as_str_def m)
qed

end
