(* ===== verification/Wtf8String.thy ===== *)
theory Wtf8String
  imports Wtf8Order
begin

text \<open>
  WTF-8 bytes as JavaScript strings. The interface \<open>js_string\<close> is what the string library relies on: a
  string is determined by its UTF-16 units, and concatenation, length and indexing are those of the units.
  The codec of \<open>wtf8.rs\<close> meets it on canonical bytes.
\<close>

abbreviation units :: "u8 list \<Rightarrow> u16 list" where
  "units bytes \<equiv> utf16_collect (utf16_units bytes)"

definition is_canonical :: "u8 list \<Rightarrow> bool" where
  "is_canonical bytes = (from_utf16 (units bytes) = bytes)"

locale js_string =
  fixes ok :: "'s \<Rightarrow> bool"
    and units_of :: "'s \<Rightarrow> u16 list"
    and of_units :: "u16 list \<Rightarrow> 's"
    and cat :: "'s \<Rightarrow> 's \<Rightarrow> 's"
    and size_of :: "'s \<Rightarrow> nat"
    and unit_at :: "'s \<Rightarrow> nat \<Rightarrow> u16 option"
  assumes ok_of: "ok (of_units us)"
    and units_of_of: "units_of (of_units us) = us"
    and of_units_of: "ok a \<Longrightarrow> of_units (units_of a) = a"
    and cat_units: "ok a \<Longrightarrow> ok b \<Longrightarrow> cat a b = of_units (units_of a @ units_of b)"
    and size_units: "ok a \<Longrightarrow> size_of a = length (units_of a)"
    and at_units: "ok a \<Longrightarrow> unit_at a i = get_opt (units_of a) i"
begin

lemma equal_iff: "ok a \<Longrightarrow> ok b \<Longrightarrow> a = b \<longleftrightarrow> units_of a = units_of b"
  using of_units_of by metis

lemma cat_ok: "ok a \<Longrightarrow> ok b \<Longrightarrow> ok (cat a b)"
  by (simp add: cat_units ok_of)

lemma cat_assoc: "ok a \<Longrightarrow> ok b \<Longrightarrow> ok c \<Longrightarrow> cat (cat a b) c = cat a (cat b c)"
  by (simp add: cat_units ok_of units_of_of)

lemma cat_size: "ok a \<Longrightarrow> ok b \<Longrightarrow> size_of (cat a b) = size_of a + size_of b"
  by (simp add: cat_units size_units ok_of units_of_of)

lemma cat_at: "ok a \<Longrightarrow> ok b \<Longrightarrow>
    unit_at (cat a b) i = (if i < size_of a then unit_at a i else unit_at b (i - size_of a))"
  by (auto simp: cat_units at_units size_units ok_of units_of_of get_opt_append)

lemma cat_all: "ok a \<Longrightarrow> \<forall>b \<in> set bs. ok b \<Longrightarrow> foldl cat a bs = of_units (units_of a @ concat (map units_of bs))"
  by (induction bs arbitrary: a) (simp_all add: of_units_of cat_units ok_of units_of_of)

end

lemma canonical_bytes:
  "is_canonical bytes \<longleftrightarrow> (\<exists>us. bytes = from_utf16 us)"
  by (auto simp: is_canonical_def intro: sym)

interpretation wtf8: js_string is_canonical units from_utf16 append_wtf8 utf16_len utf16_index
proof
  fix us a b i
  show "is_canonical (from_utf16 us)" "units (from_utf16 us) = us" by (simp_all add: is_canonical_def)
  assume a: "is_canonical a"
  then show e: "from_utf16 (units a) = a" by (simp add: is_canonical_def)
  show "append_wtf8 a b = from_utf16 (units a @ units b)" if "is_canonical b"
    using append_from_utf16 [of "units a" "units b"] a that by (simp add: is_canonical_def)
  show "utf16_len a = length (units a)" "utf16_index a i = get_opt (units a) i"
    using utf16_len_encode [of "pair_units (units a)"] utf16_index_eq [of "pair_units (units a)" i] e
    by (simp_all add: from_utf16_eq)
qed

text \<open>C19: a string survives the round trip through its storage: the UTF-16 units read back from the bytes
  that \<open>from_utf16\<close> writes are the units written, lone surrogates included, so different strings have
  different bytes; the code points read back are the units with their surrogate pairs joined.\<close>

theorem utf16_roundtrip:
  "units (from_utf16 us) = us \<and> (from_utf16 us = from_utf16 vs \<longleftrightarrow> us = vs) \<and>
   code_points_collect (code_points (from_utf16 us)) = pair_units us"
proof -
  have "from_utf16 us = from_utf16 vs \<longleftrightarrow> us = vs" by (metis utf16_from)
  then show ?thesis by (simp add: from_utf16_eq)
qed

text \<open>C18: concatenating stored strings concatenates their units, including when a surrogate pair is split
  across the boundary: the bytes are those of the joined string, whether the right part comes as bytes, as
  units, or as any number of fragments appended one after the other.\<close>

theorem append_is_concatenation:
  "append_wtf8 (from_utf16 us) (from_utf16 vs) = from_utf16 (us @ vs) \<and>
   append_utf16 (from_utf16 us) vs = from_utf16 (us @ vs) \<and>
   foldl append_wtf8 (from_utf16 us) (map from_utf16 vss) = from_utf16 (us @ concat vss)"
proof -
  have "foldl append_wtf8 (from_utf16 us) (map from_utf16 vss) =
      from_utf16 (units (from_utf16 us) @ concat (map units (map from_utf16 vss)))"
    by (rule wtf8.cat_all) (auto simp: wtf8.ok_of)
  then show ?thesis by (simp add: append_from_utf16 append_utf16_eq comp_def)
qed

text \<open>The length of a string is counted eight bytes at a time with bit tricks on 64-bit words; on any
  bytes at all the count is the per-byte sum, and on a stored string it is the number of its UTF-16 units.\<close>

lemma utf16_len_correct:
  "utf16_len bytes = sum_list (map byte_units bytes) \<and> utf16_len (from_utf16 us) = length us"
  using wtf8.size_units [OF wtf8.ok_of [of us]] by (simp add: utf16_len_sum)

lemma from_utf16_boundary:
  assumes "from_utf16 (vs @ ws) = from_utf16 vs @ from_utf16 ws"
  shows "pair_units (vs @ ws) = pair_units vs @ pair_units ws"
  using arg_cong [OF assms, of "\<lambda>b. code_points_collect (code_points b)"]
  by (simp add: from_utf16_eq flip: encode_all_simps(3))

lemma pair_units_Nil: "pair_units us = [] \<longleftrightarrow> us = []"
  by (induction us rule: pair_units.induct) auto

lemma from_utf16_take:
  assumes "canonical cps" "cps = p @ r"
  shows "encode_all p = from_utf16 (take (length (to_units p)) (to_units cps))"
proof -
  have "canonical p" using canonical_sub [of "[]" p r] assms by simp
  then show ?thesis by (simp add: assms(2) from_utf16_eq)
qed

text \<open>Indexing by UTF-16 units, from the start or resumed at any known character boundary, returns the
  unit of that index, or nothing past the end; the boundary it hands back is at most one unit before the index
  and is itself a position where the bytes split into the encodings of the two parts.\<close>

lemma utf16_index_correct:
  assumes "from_utf16 (vs @ ws) = from_utf16 vs @ from_utf16 ws" "length vs \<le> i"
  shows "utf16_index (from_utf16 (vs @ ws)) i = get_opt (vs @ ws) i \<and>
    (case utf16_index_from (from_utf16 (vs @ ws)) (length (from_utf16 vs)) (length vs) i of
       None \<Rightarrow> length (vs @ ws) \<le> i
     | Some (u, b, k) \<Rightarrow> i < length (vs @ ws) \<and> u = (vs @ ws) ! i \<and> k \<le> i \<and> i \<le> k + 1 \<and>
         take b (from_utf16 (vs @ ws)) = from_utf16 (take k (vs @ ws)))"
proof -
  let ?c = "pair_units ws" and ?v = "encode_all (pair_units vs)"
  have pu: "pair_units (vs @ ws) = pair_units vs @ ?c" by (rule from_utf16_boundary [OF assms(1)])
  obtain p r where sp: "split_units ?c (i - length vs) = (p, r)" by fastforce
  have c: "?c = p @ r" by (rule split_units_append [OF sp])
  have ws: "ws = to_units p @ to_units r" using arg_cong [OF c, of to_units] by simp
  have ix: "utf16_index_from (?v @ encode_all ?c) (length ?v) (length vs) i =
      (if r = [] then None else Some (to_units r ! (i - length vs - length (to_units p)),
         length ?v + length (encode_all p), length vs + length (to_units p)))"
    by (rule index_from_enc [OF _ assms(2) sp]) simp
  have tk: "?v @ encode_all p = from_utf16 (take (length vs + length (to_units p)) (vs @ ws))"
    using from_utf16_take [of "pair_units (vs @ ws)" "pair_units vs @ p" r] pu c by (simp add: ws)
  have i: "utf16_index (from_utf16 (vs @ ws)) i = get_opt (vs @ ws) i"
    using wtf8.at_units [OF wtf8.ok_of] by simp
  show ?thesis
  proof (cases "r = []")
    case True
    then have "length (to_units ?c) \<le> i - length vs \<or> ?c = []" using split_units_all [of ?c "i - length vs" p] sp by simp
    then have "length ws \<le> i - length vs" using pair_units_Nil [of ws] by auto
    then show ?thesis using i ix True assms(2) by (simp add: from_utf16_eq pu)
  next
    case False
    have b: "length (to_units p) \<le> i - length vs" "i - length vs < length (to_units p) + cp_width (hd r)"
      using split_units_bound [OF sp False] by auto
    have h: "cp_width (hd r) \<le> length (to_units r)" "cp_width (hd r) \<le> 2"
      using False by (cases r; simp add: cp_width_units) (simp add: cp_width_def)
    have nth: "(vs @ ws) ! i = to_units r ! (i - length vs - length (to_units p))"
      using assms(2) b(1) by (simp add: ws nth_append)
    have "take (length ?v + length (encode_all p)) (from_utf16 (vs @ ws)) = from_utf16 (take (length vs + length (to_units p)) (vs @ ws))"
      unfolding tk [symmetric] by (simp add: from_utf16_eq pu c)
    moreover have "i < length (vs @ ws)" using b h by (simp add: ws)
    moreover have "length vs + length (to_units p) \<le> i" "i \<le> length vs + length (to_units p) + 1"
      using b h(2) assms(2) by linarith+
    ultimately show ?thesis using i ix False b h nth assms(2) by (simp add: from_utf16_eq pu)
  qed
qed

text \<open>C21: the order of strings is the lexicographic order of their UTF-16 units, although it is decided from
  the first differing bytes unless one of them is a lead byte of the surrogate range or above.\<close>

theorem cmp_utf16_correct: "cmp_utf16 (from_utf16 us) (from_utf16 vs) = lex_cmp us vs"
  by (simp add: from_utf16_eq cmp_utf16_encode)

lemma no_surrogate_canonical: "valid_cps cps \<Longrightarrow> list_all (\<lambda>cp. \<not> is_surrogate cp) cps \<Longrightarrow> canonical cps"
proof (induction cps)
  case (Cons cp cps)
  then show ?case by (cases cps) (auto simp: canonical_Cons surrogate_split(1))
qed (simp add: canonical_def)

lemma well_formed_encode:
  "valid_cps cps \<Longrightarrow> is_well_formed_utf16 (encode_all cps) \<longleftrightarrow> list_all (\<lambda>cp. \<not> is_surrogate cp) (pair_units (to_units cps))"
  by (simp add: is_well_formed_utf16_def well_formed_loop_pair)

text \<open>C32: of the bytes of any code points, surrogates and pairs left split among them included: they are
  well-formed UTF-16 exactly when their units, paired as far as they go, leave no lone surrogate, and plain
  UTF-8 exactly when no code point is a surrogate. On canonical bytes (no pair left split) the two agree; plain
  UTF-8 is always well-formed, and a pair left split in the bytes is well-formed without being UTF-8. The lossy
  conversion replaces each code point that is a surrogate by U+FFFD and changes nothing else.\<close>

theorem well_formed_correct:
  assumes "valid_cps cps"
  shows "(is_well_formed_utf16 (encode_all cps) \<longleftrightarrow>
       list_all (\<lambda>cp. \<not> is_surrogate cp) (pair_units (units (encode_all cps)))) \<and>
     (is_utf8 (encode_all cps) \<longleftrightarrow> list_all (\<lambda>cp. \<not> is_surrogate cp) cps) \<and>
     (canonical cps \<longrightarrow> is_well_formed_utf16 (encode_all cps) = is_utf8 (encode_all cps)) \<and>
     (is_utf8 (encode_all cps) \<longrightarrow> is_well_formed_utf16 (encode_all cps)) \<and>
     (is_high (ucast (h :: u16)) \<and> is_low (ucast (l :: u16)) \<longrightarrow>
       is_well_formed_utf16 (encode_all [ucast h, ucast l]) \<and> \<not> is_utf8 (encode_all [ucast h, ucast l])) \<and>
     to_string_lossy (encode_all cps) = encode_all (map (\<lambda>cp. if is_surrogate cp then 0xFFFD else cp) cps)"
proof -
  have v: "valid_cps [ucast h, ucast l]" by simp
  note split = well_formed_encode [OF v] is_utf8_encode [OF v]
  have "is_well_formed_utf16 (encode_all [ucast h, ucast l])" "\<not> is_utf8 (encode_all [ucast h, ucast l])"
    if "is_high (ucast h)" "is_low (ucast l)"
    using that astral_not_surrogate [OF astral_halves(1)] surrogate_split(1) unfolding split by simp_all
  moreover have "is_well_formed_utf16 (encode_all cps)" if "is_utf8 (encode_all cps)"
    using that no_surrogate_canonical [OF assms] by (simp add: well_formed_encode is_utf8_encode assms)
  ultimately show ?thesis
    by (simp add: well_formed_encode is_utf8_encode to_string_lossy_encode assms)
qed

theorem well_formed_correct_witness:
  "is_well_formed_utf16 (encode_all [0xD83D, 0xDCA9]) \<and> \<not> is_utf8 (encode_all [0xD83D, 0xDCA9]) \<and>
   to_string_lossy (encode_all [0xD83D, 0x41]) = encode_all [0xFFFD, 0x41]"
proof -
  have v: "valid_cps [0xD83D, 0x41]" by (simp add: CODE_POINT_MAX_def)
  show ?thesis
    using well_formed_correct [OF v, where h = "0xD83D" and l = "0xDCA9"]
    by (simp add: is_high_def is_low_def is_surrogate_def SURROGATE_MIN_def SURROGATE_MAX_def
        HIGH_SURROGATE_MAX_def LOW_SURROGATE_MIN_def)
qed

text \<open>C20: slicing by UTF-16 units never indexes out of range and yields exactly the units of the clamped
  range, a lone surrogate where a boundary splits a pair; when neither boundary does, the bytes are the
  canonical ones, and the all-ASCII shortcut computes the same.\<close>

theorem slice_utf16_correct:
  "(\<exists>r. slice_utf16 (from_utf16 us) s e = Some r \<and> units r = take (e - s) (drop s us) \<and>
     (unit_at_char_boundary (from_utf16 us) s \<and> unit_at_char_boundary (from_utf16 us) e \<longrightarrow>
        r = from_utf16 (take (e - s) (drop s us)))) \<and>
   (list_all (\<lambda>u. u < 0x80) us \<longrightarrow>
      slice_utf16_ascii (from_utf16 us) s e True = Some (from_utf16 (take (e - s) (drop s us))))"
proof
  obtain r where r: "slice_utf16 (from_utf16 us) s e = Some (encode_all r)" "valid_cps r" "to_units r = take (e - s) (drop s us)"
    "unit_at_char_boundary (from_utf16 us) s \<and> unit_at_char_boundary (from_utf16 us) e \<longrightarrow> canonical r"
    using slice_encode [of "pair_units us" s e] by (auto simp: from_utf16_eq)
  have "encode_all r = from_utf16 (take (e - s) (drop s us))" if "canonical r"
    using that r(3) by (metis from_utf16_eq pair_to_units)
  then show "\<exists>r. slice_utf16 (from_utf16 us) s e = Some r \<and> units r = take (e - s) (drop s us) \<and>
     (unit_at_char_boundary (from_utf16 us) s \<and> unit_at_char_boundary (from_utf16 us) e \<longrightarrow>
        r = from_utf16 (take (e - s) (drop s us)))"
    using r by (intro exI [of _ "encode_all r"]) simp
  show "list_all (\<lambda>u. u < 0x80) us \<longrightarrow>
      slice_utf16_ascii (from_utf16 us) s e True = Some (from_utf16 (take (e - s) (drop s us)))"
  proof
    assume a: "list_all (\<lambda>u. u < 0x80) us"
    have f: "from_utf16 vs = map ucast vs" if "set vs \<subseteq> set us" for vs
    proof -
      have "\<forall>u \<in> set vs. u < 0x80" using a that by (auto simp: list_all_iff)
      then show ?thesis using pair_ascii [of vs "[]"] encode_ascii [of vs] by (simp add: from_utf16_eq)
    qed
    have "set (take (e - s) (drop s us)) \<subseteq> set us" by (meson order.trans set_drop_subset set_take_subset)
    then show "slice_utf16_ascii (from_utf16 us) s e True = Some (from_utf16 (take (e - s) (drop s us)))"
      using f [of us] f by (auto simp: slice_utf16_ascii_def Let_def slice_range_def take_map drop_map min_def)
  qed
qed

text \<open>C31: \<open>utf16_range\<close> locates a unit range in one pass from any known character boundary: the lone low half it
  reports, the whole characters between the two byte offsets and the lone high half make up exactly the units
  of the range, and the bytes between the offsets are canonical.\<close>

theorem utf16_range_correct:
  assumes "from_utf16 (vs @ ws) = from_utf16 vs @ from_utf16 ws" "s < e" "e \<le> length (vs @ ws)"
    and "r = utf16_range (from_utf16 (vs @ ws)) (length (from_utf16 vs), length vs) s e (length (vs @ ws))"
  shows "r_start r \<le> r_end r \<and> r_end r \<le> length (from_utf16 (vs @ ws)) \<and> is_canonical (range_mid (from_utf16 (vs @ ws)) r) \<and>
    opt_units (r_lead r) @ units (range_mid (from_utf16 (vs @ ws)) r) @ opt_units (r_trail r) = take (e - s) (drop s (vs @ ws))"
proof -
  have pu: "pair_units (vs @ ws) = pair_units vs @ pair_units ws" by (rule from_utf16_boundary [OF assms(1)])
  have c: "canonical (pair_units vs @ pair_units ws)" using canonical_pair [of "vs @ ws"] pu by simp
  have U: "vs @ ws = to_units (pair_units vs @ pair_units ws)" by simp
  obtain m where m: "range_mid (from_utf16 (vs @ ws)) r = encode_all m" "canonical m" "r_start r \<le> r_end r"
    "r_end r \<le> length (from_utf16 (vs @ ws))" "opt_units (r_lead r) @ to_units m @ opt_units (r_trail r) = take (e - s) (drop s (vs @ ws))"
    using range_encode [OF c _ U _ assms(2,3), of "from_utf16 (vs @ ws)" "(length (from_utf16 vs), length vs)" r] assms(4)
    by (auto simp: from_utf16_eq pu)
  have "units (encode_all m) = to_units m" "is_canonical (encode_all m)"
    using m(2) by (simp_all add: canonical_def is_canonical_def from_utf16_eq)
  then show ?thesis using m by simp
qed

text \<open>The slow path of \<open>slice_utf16\<close>, taken when a boundary splits a pair, writes every astral character of
  the range as two lone surrogates, also the ones wholly inside it: the first three units of two astral
  characters come back with the right units but with nine bytes, not the seven canonical ones, so that the slice
  differs from the same string built by concatenation.\<close>

lemma slice_utf16_not_canonical:
  "(case slice_utf16 (from_utf16 [0xD83D, 0xDCA9, 0xD83D, 0xDCA9]) 0 3 of
      None \<Rightarrow> False
    | Some r \<Rightarrow> units r = [0xD83D, 0xDCA9, 0xD83D] \<and> length r = 9 \<and> \<not> is_canonical r \<and>
        length (append_wtf8 (from_utf16 [0xD83D, 0xDCA9]) (from_utf16 [0xD83D])) = 7)"
  by code_simp

subsection \<open>Concrete strings\<close>

lemma boundary_A: "from_utf16 ([0x41] @ [0xD83D, 0xDCA9]) = from_utf16 [0x41] @ from_utf16 [0xD83D, 0xDCA9]"
  by code_simp

theorem utf16_index_correct_witness:
  "utf16_index (from_utf16 ([0x41] @ [0xD83D, 0xDCA9])) 2 = Some 0xDCA9"
  using utf16_index_correct [OF boundary_A, of 2] by (simp add: get_opt_def)

theorem utf16_range_correct_witness:
  "let bytes = from_utf16 ([0x41] @ [0xD83D, 0xDCA9]); r = utf16_range bytes (1, 1) 2 3 3 in
     opt_units (r_lead r) @ units (range_mid bytes r) @ opt_units (r_trail r) = [0xDCA9]"
proof -
  have "length (from_utf16 [0x41]) = 1" by code_simp
  then show ?thesis using utf16_range_correct [OF boundary_A, of 2 3] by (simp add: Let_def numeral_3_eq_3)
qed

theorem slice_utf16_correct_witness:
  "slice_utf16_ascii (from_utf16 [0x41, 0x42, 0x43]) 1 3 True = Some (from_utf16 [0x42, 0x43])"
  using slice_utf16_correct [of "[0x41, 0x42, 0x43]" 1 3] by simp

end
