(* ===== verification/TemporalIso.thy ===== *)
theory TemporalIso
  imports Prelude "HOL-Library.Signed_Division"
begin

text \<open>
  The ISO-8601 calendar, time and duration arithmetic of \<open>temporal_iso.rs\<close>. The signed integers of the
  source are integers; \<open>/\<close> and \<open>%\<close>, which round toward zero, are \<open>sdiv\<close> and \<open>smod\<close>, and the narrowing
  casts wrap to their width. \<open>div_euclid\<close> and \<open>rem_euclid\<close> have positive divisors throughout and are \<open>div\<close>
  and \<open>mod\<close>.
\<close>

subsection \<open>Casts and constants\<close>

definition as_signed :: "nat \<Rightarrow> int \<Rightarrow> int" where
  "as_signed w x = (x + 2 ^ (w - 1)) mod 2 ^ w - 2 ^ (w - 1)"

definition as_i32 :: "int \<Rightarrow> int" where "as_i32 x = as_signed 32 x"
definition as_i64 :: "int \<Rightarrow> int" where "as_i64 x = as_signed 64 x"
definition as_u8 :: "int \<Rightarrow> int" where "as_u8 x = x mod 256"
definition as_u16 :: "int \<Rightarrow> int" where "as_u16 x = x mod 65536"

definition i128_range :: "int \<Rightarrow> bool" where "i128_range x = (- (2 ^ 127) \<le> x \<and> x < 2 ^ 127)"

text \<open>Arithmetic at the width of the source: \<open>None\<close> is the panic of an overflow.\<close>

definition i128 :: "int \<Rightarrow> int option" where "i128 x = (if i128_range x then Some x else None)"
definition i64 :: "int \<Rightarrow> int option" where "i64 x = (if - (2 ^ 63) \<le> x \<and> x < 2 ^ 63 then Some x else None)"

definition MAX_EPOCH_DAYS :: int where "MAX_EPOCH_DAYS = 100000000"
definition MIN_EPOCH_DAYS :: int where "MIN_EPOCH_DAYS = -100000000"
definition NS_PER_DAY :: int where "NS_PER_DAY = 86400000000000"
definition NS_PER_HOUR :: int where "NS_PER_HOUR = 3600000000000"
definition NS_PER_MINUTE :: int where "NS_PER_MINUTE = 60000000000"
definition NS_PER_SEC :: int where "NS_PER_SEC = 1000000000"
definition MAX_EPOCH_NS :: int where "MAX_EPOCH_NS = MAX_EPOCH_DAYS * NS_PER_DAY"
definition MIN_EPOCH_NS :: int where "MIN_EPOCH_NS = MIN_EPOCH_DAYS * NS_PER_DAY"

lemmas ns_consts = NS_PER_DAY_def NS_PER_HOUR_def NS_PER_MINUTE_def NS_PER_SEC_def

subsection \<open>Dates, times and durations\<close>

record iso_date =
  year :: int
  month :: int
  day :: int

record iso_time =
  hour :: int
  minute :: int
  second :: int
  millisecond :: int
  microsecond :: int
  nanosecond :: int

record iso_date_time =
  dt_date :: iso_date
  dt_time :: iso_time

record duration_fields =
  years :: int
  months :: int
  weeks :: int
  days :: int
  hours :: int
  minutes :: int
  seconds :: int
  milliseconds :: int
  microseconds :: int
  nanoseconds :: int

definition default_duration :: duration_fields where
  "default_duration = \<lparr>years = 0, months = 0, weeks = 0, days = 0, hours = 0, minutes = 0, seconds = 0,
     milliseconds = 0, microseconds = 0, nanoseconds = 0\<rparr>"

datatype unit_kind = Year | Month | Week | Day | Hour | Minute | Second | Millisecond | Microsecond | Nanosecond

text \<open>The derived order of the enumeration: declaration order.\<close>

fun unit_rank :: "unit_kind \<Rightarrow> nat" where
  "unit_rank Year = 0" | "unit_rank Month = 1" | "unit_rank Week = 2" | "unit_rank Day = 3" | "unit_rank Hour = 4"
| "unit_rank Minute = 5" | "unit_rank Second = 6" | "unit_rank Millisecond = 7" | "unit_rank Microsecond = 8"
| "unit_rank Nanosecond = 9"

instantiation unit_kind :: linorder
begin

definition less_eq_unit_kind :: "unit_kind \<Rightarrow> unit_kind \<Rightarrow> bool" where "a \<le> b \<longleftrightarrow> unit_rank a \<le> unit_rank b"

definition less_unit_kind :: "unit_kind \<Rightarrow> unit_kind \<Rightarrow> bool" where "a < b \<longleftrightarrow> unit_rank a < unit_rank b"

instance
proof
  fix a b :: unit_kind
  show "a \<le> b \<Longrightarrow> b \<le> a \<Longrightarrow> a = b" by (cases a; cases b) (simp_all add: less_eq_unit_kind_def)
qed (auto simp: less_eq_unit_kind_def less_unit_kind_def)

end

datatype round_mode = Ceil | Floor | Expand | Trunc | HalfCeil | HalfFloor | HalfExpand | HalfTrunc | HalfEven

datatype overflow = Constrain | Reject

subsection \<open>Calendar math\<close>

definition is_leap_year :: "int \<Rightarrow> bool" where
  "is_leap_year y = ((y smod 4 = 0 \<and> y smod 100 \<noteq> 0) \<or> y smod 400 = 0)"

definition iso_days_in_month :: "int \<Rightarrow> int \<Rightarrow> int" where
  "iso_days_in_month y m =
     (if m \<in> {1, 3, 5, 7, 8, 10, 12} then 31
      else if m \<in> {4, 6, 9, 11} then 30
      else if m = 2 then (if is_leap_year y then 29 else 28)
      else 0)"

definition iso_days_in_year :: "int \<Rightarrow> int" where
  "iso_days_in_year y = (if is_leap_year y then 366 else 365)"

definition iso_to_epoch_days :: "iso_date \<Rightarrow> int" where
  "iso_to_epoch_days date =
     (let m = month date; d = day date;
          y = (if m \<le> 2 then year date - 1 else year date);
          era = (if 0 \<le> y then y else y - 399) sdiv 400;
          yoe = y - era * 400;
          doy = (153 * (if 2 < m then m - 3 else m + 9) + 2) sdiv 5 + d - 1;
          doe = yoe * 365 + yoe sdiv 4 - yoe sdiv 100 + doy
      in era * 146097 + doe - 719468)"

definition epoch_days_to_iso :: "int \<Rightarrow> iso_date" where
  "epoch_days_to_iso z0 =
     (let z = z0 + 719468;
          era = (if 0 \<le> z then z else z - 146096) sdiv 146097;
          doe = z - era * 146097;
          yoe = (doe - doe sdiv 1460 + doe sdiv 36524 - doe sdiv 146096) sdiv 365;
          y = yoe + era * 400;
          doy = doe - (365 * yoe + yoe sdiv 4 - yoe sdiv 100);
          mp = (5 * doy + 2) sdiv 153;
          d = doy - (153 * mp + 2) sdiv 5 + 1;
          m = (if mp < 10 then mp + 3 else mp - 9)
      in \<lparr>year = as_i32 (if m \<le> 2 then y + 1 else y), month = as_u8 m, day = as_u8 d\<rparr>)"

definition iso_day_of_week :: "iso_date \<Rightarrow> int" where
  "iso_day_of_week date = as_u8 ((iso_to_epoch_days date + 3) mod 7 + 1)"

definition iso_day_of_year :: "iso_date \<Rightarrow> int" where
  "iso_day_of_year date =
     as_u16 (iso_to_epoch_days date - iso_to_epoch_days \<lparr>year = year date, month = 1, day = 1\<rparr> + 1)"

definition is_iso_long_year :: "int \<Rightarrow> bool" where
  "is_iso_long_year y =
     (let p = (\<lambda>y. (y + y sdiv 4 - y sdiv 100 + y sdiv 400) smod 7) in p y = 4 \<or> p (y - 1) = 3)"

definition iso_week_of_year :: "iso_date \<Rightarrow> int \<times> int" where
  "iso_week_of_year date =
     (let dow = iso_day_of_week date; doy = iso_day_of_year date; week = (doy - dow + 10) sdiv 7 in
      if week < 1 then
        let prev = year date - 1; wk = (if is_iso_long_year prev then 53 else 52) in (as_u8 wk, prev)
      else if 52 < week \<and> \<not> is_iso_long_year (year date) then (1, year date + 1)
      else (as_u8 week, year date))"

subsection \<open>Validation\<close>

definition iso_date_in_range :: "iso_date \<Rightarrow> bool" where
  "iso_date_in_range date =
     (let d = iso_to_epoch_days date in MIN_EPOCH_DAYS - 1 \<le> d \<and> d \<le> MAX_EPOCH_DAYS + 1)"

definition clamp_int :: "int \<Rightarrow> int \<Rightarrow> int \<Rightarrow> int" where
  "clamp_int v lo hi = (if v < lo then lo else if hi < v then hi else v)"

definition regulate_iso_date :: "int \<Rightarrow> int \<Rightarrow> int \<Rightarrow> overflow \<Rightarrow> iso_date option" where
  "regulate_iso_date y m d ov = (case ov of
       Constrain \<Rightarrow>
         let m' = as_u8 (clamp_int m 1 12); dim = iso_days_in_month y m'
         in Some \<lparr>year = y, month = m', day = as_u8 (clamp_int d 1 dim)\<rparr>
     | Reject \<Rightarrow>
         if \<not> (1 \<le> m \<and> m \<le> 12) then None
         else let m' = as_u8 m in
              if d < 1 \<or> iso_days_in_month y m' < d then None
              else Some \<lparr>year = y, month = m', day = as_u8 d\<rparr>)"

definition ck :: "overflow \<Rightarrow> int \<Rightarrow> int \<Rightarrow> int option" where
  "ck ov v mx = (case ov of Constrain \<Rightarrow> Some (clamp_int v 0 mx) | Reject \<Rightarrow> if 0 \<le> v \<and> v \<le> mx then Some v else None)"

definition regulate_iso_time :: "int \<Rightarrow> int \<Rightarrow> int \<Rightarrow> int \<Rightarrow> int \<Rightarrow> int \<Rightarrow> overflow \<Rightarrow> iso_time option" where
  "regulate_iso_time h mi s ms us ns ov =
     Option.bind (ck ov h 23) (\<lambda>h'. Option.bind (ck ov mi 59) (\<lambda>mi'. Option.bind (ck ov s 59) (\<lambda>s'.
     Option.bind (ck ov ms 999) (\<lambda>ms'. Option.bind (ck ov us 999) (\<lambda>us'. Option.bind (ck ov ns 999) (\<lambda>ns'.
       Some \<lparr>hour = as_u8 h', minute = as_u8 mi', second = as_u8 s', millisecond = as_u16 ms',
             microsecond = as_u16 us', nanosecond = as_u16 ns'\<rparr>))))))"

subsection \<open>Time arithmetic\<close>

definition time_to_nanos :: "iso_time \<Rightarrow> int" where
  "time_to_nanos t = hour t * NS_PER_HOUR + minute t * NS_PER_MINUTE + second t * NS_PER_SEC +
     millisecond t * 1000000 + microsecond t * 1000 + nanosecond t"

definition balance_time_from_nanos :: "int \<Rightarrow> int \<times> iso_time" where
  "balance_time_from_nanos total_ns =
     (let d = total_ns div NS_PER_DAY; r0 = total_ns mod NS_PER_DAY;
          h = as_u8 (r0 sdiv NS_PER_HOUR); r1 = r0 smod NS_PER_HOUR;
          mi = as_u8 (r1 sdiv NS_PER_MINUTE); r2 = r1 smod NS_PER_MINUTE;
          s = as_u8 (r2 sdiv NS_PER_SEC); r3 = r2 smod NS_PER_SEC;
          ms = as_u16 (r3 sdiv 1000000); r4 = r3 smod 1000000;
          us = as_u16 (r4 sdiv 1000); ns = as_u16 (r4 smod 1000)
      in (as_i64 d, \<lparr>hour = h, minute = mi, second = s, millisecond = ms, microsecond = us, nanosecond = ns\<rparr>))"

definition add_time :: "iso_time \<Rightarrow> int \<Rightarrow> int \<times> iso_time" where
  "add_time t delta_ns = balance_time_from_nanos (time_to_nanos t + delta_ns)"

subsection \<open>Date arithmetic\<close>

definition balance_iso_year_month :: "int \<Rightarrow> int \<Rightarrow> int \<times> int" where
  "balance_iso_year_month y m =
     (let m0 = m - 1 in (as_i32 (y + m0 div 12), as_u8 (m0 mod 12 + 1)))"

definition add_iso_date :: "iso_date \<Rightarrow> int \<Rightarrow> int \<Rightarrow> int \<Rightarrow> int \<Rightarrow> overflow \<Rightarrow> iso_date option" where
  "add_iso_date date ys ms ws ds ov =
     (case balance_iso_year_month (year date + ys) (month date + ms) of (y, m) \<Rightarrow>
        Option.bind (regulate_iso_date y m (day date) ov) (\<lambda>intermediate.
          let total_days = ds + ws * 7;
              result = epoch_days_to_iso (iso_to_epoch_days intermediate + total_days)
          in if iso_date_in_range result then Some result else None))"

definition compare_iso_date :: "iso_date \<Rightarrow> iso_date \<Rightarrow> ordering" where
  "compare_iso_date a b =
     (case cmp (year a) (year b) of
        Equal \<Rightarrow> (case cmp (month a) (month b) of Equal \<Rightarrow> cmp (day a) (day b) | c \<Rightarrow> c)
      | c \<Rightarrow> c)"

definition compare_iso_time :: "iso_time \<Rightarrow> iso_time \<Rightarrow> ordering" where
  "compare_iso_time a b = cmp (time_to_nanos a) (time_to_nanos b)"

definition iso_date_surpasses :: "int \<Rightarrow> int \<Rightarrow> int \<Rightarrow> int \<Rightarrow> iso_date \<Rightarrow> bool" where
  "iso_date_surpasses sign y m d to =
     (let diff = (if y \<noteq> year to then y - year to
                  else if m \<noteq> month to then m - month to
                  else d - day to)
      in 0 < sign * diff)"

text \<open>The two loops of the closure \<open>most\<close>; \<open>None\<close> when they do not end.\<close>

partial_function (option) most_back :: "int \<Rightarrow> (int \<Rightarrow> bool) \<Rightarrow> int \<Rightarrow> int option" where
  "most_back sign surpasses n =
     (if n \<noteq> 0 \<and> surpasses n then most_back sign surpasses (n - sign) else Some n)"

partial_function (option) most_ahead :: "int \<Rightarrow> (int \<Rightarrow> bool) \<Rightarrow> int \<Rightarrow> int option" where
  "most_ahead sign surpasses n =
     (if \<not> surpasses (n + sign) then most_ahead sign surpasses (n + sign) else Some n)"

definition most :: "int \<Rightarrow> int \<Rightarrow> (int \<Rightarrow> bool) \<Rightarrow> int option" where
  "most sign estimate surpasses =
     Option.bind (most_back sign surpasses (if 0 < estimate * sign then estimate else 0)) (most_ahead sign surpasses)"

definition difference_iso_date :: "iso_date \<Rightarrow> iso_date \<Rightarrow> unit_kind \<Rightarrow> (int \<times> int \<times> int \<times> int) option" where
  "difference_iso_date from to largest =
     (if largest = Day \<or> largest = Week then
        let ds = iso_to_epoch_days to - iso_to_epoch_days from
        in Some (if largest = Week then (0, 0, ds sdiv 7, ds smod 7) else (0, 0, 0, ds))
      else if compare_iso_date to from = Equal then Some (0, 0, 0, 0)
      else
        let sign = (if compare_iso_date to from = Greater then 1 else -1); fy = year from; fm = month from in
        Option.bind (if largest = Year
                     then most sign (year to - fy) (\<lambda>n. iso_date_surpasses sign (fy + n) fm (day from) to)
                     else Some 0) (\<lambda>ys.
        Option.bind (most sign ((year to - fy - ys) * 12 + month to - fm)
                       (\<lambda>n. case balance_iso_year_month (fy + ys) (fm + n) of
                              (y, m) \<Rightarrow> iso_date_surpasses sign y m (day from) to)) (\<lambda>ms.
          case balance_iso_year_month (fy + ys) (fm + ms) of (y, m) \<Rightarrow>
            let mid = (case regulate_iso_date y m (day from) Constrain of None \<Rightarrow> from | Some d \<Rightarrow> d)
            in Some (ys, ms, 0, iso_to_epoch_days to - iso_to_epoch_days mid))))"

subsection \<open>Durations and rounding\<close>

definition fields :: "duration_fields \<Rightarrow> int list" where
  "fields d = [years d, months d, weeks d, days d, hours d, minutes d, seconds d, milliseconds d, microseconds d,
     nanoseconds d]"

fun sign_of :: "int list \<Rightarrow> int" where
  "sign_of [] = 0"
| "sign_of (v # vs) = (if v \<noteq> 0 then sgn v else sign_of vs)"

definition duration_sign :: "duration_fields \<Rightarrow> int" where
  "duration_sign d = sign_of (fields d)"

fun one_sign :: "int \<Rightarrow> int list \<Rightarrow> bool" where
  "one_sign sign [] = True"
| "one_sign sign (v # vs) =
     (if v \<noteq> 0 then (if sign \<noteq> 0 \<and> sgn v \<noteq> sign then False else one_sign (sgn v) vs) else one_sign sign vs)"

text \<open>The checked sum: \<open>None\<close> where \<open>checked_mul\<close> or \<open>checked_add\<close> overflow.\<close>

fun checked_total :: "int \<Rightarrow> (int \<times> int) list \<Rightarrow> int option" where
  "checked_total acc [] = Some acc"
| "checked_total acc ((v, mult) # vs) =
     (if \<not> i128_range (v * mult) then None
      else if \<not> i128_range (acc + v * mult) then None
      else checked_total (acc + v * mult) vs)"

text \<open>\<open>v.abs() >= 1 << 32\<close>, and the disjunction of these tests, which stops at the first that holds.\<close>

fun too_large :: "int list \<Rightarrow> bool option" where
  "too_large [] = Some False"
| "too_large (v # vs) = Option.bind (i128 \<bar>v\<bar>) (\<lambda>a. if 2 ^ 32 \<le> a then Some True else too_large vs)"

definition duration_is_valid :: "duration_fields \<Rightarrow> bool option" where
  "duration_is_valid d =
     (if \<not> one_sign 0 (fields d) then Some False
      else Option.bind (too_large [years d, months d, weeks d]) (\<lambda>large.
        if large then Some False
        else case checked_total 0 [(days d, NS_PER_DAY), (hours d, NS_PER_HOUR), (minutes d, NS_PER_MINUTE),
               (seconds d, NS_PER_SEC), (milliseconds d, 1000000), (microseconds d, 1000), (nanoseconds d, 1)] of
               None \<Rightarrow> Some False
             | Some total_ns \<Rightarrow> Some (\<bar>total_ns sdiv NS_PER_SEC\<bar> < 2 ^ 53)))"

text \<open>The sum of \<open>time_nanos\<close>, term after term; the last term has no factor.\<close>

definition time_nanos :: "duration_fields \<Rightarrow> int option" where
  "time_nanos d =
     Option.bind (i128 (hours d * NS_PER_HOUR)) (\<lambda>h.
     Option.bind (checked_total h [(minutes d, NS_PER_MINUTE), (seconds d, NS_PER_SEC), (milliseconds d, 1000000),
       (microseconds d, 1000)]) (\<lambda>t.
     i128 (t + nanoseconds d)))"

text \<open>The closure \<open>set\<close>: one field, and what is left of \<open>r\<close>.\<close>

definition set_field :: "int \<Rightarrow> int \<Rightarrow> int \<Rightarrow> bool \<Rightarrow> int \<times> int" where
  "set_field sign r per active = (if active then ((r sdiv per) * sign, r smod per) else (0, r))"

definition balance_time_duration :: "int \<Rightarrow> unit_kind \<Rightarrow> duration_fields option" where
  "balance_time_duration total_ns largest = Option.bind (i128 \<bar>total_ns\<bar>) (\<lambda>r.
     let sign = sgn total_ns;
         (h, r1) = set_field sign r NS_PER_HOUR (largest \<le> Hour);
         (mi, r2) = set_field sign r1 NS_PER_MINUTE (largest \<le> Minute);
         (s, r3) = set_field sign r2 NS_PER_SEC (largest \<le> Second);
         (ms, r4) = set_field sign r3 1000000 (largest \<le> Millisecond);
         (us, r5) = set_field sign r4 1000 (largest \<le> Microsecond)
     in Some (default_duration\<lparr>hours := h, minutes := mi, seconds := s, milliseconds := ms, microseconds := us,
          nanoseconds := r5 * sign\<rparr>))"

text \<open>The match that decides \<open>pick_upper\<close>; only the half modes compute \<open>2 * r\<close>.\<close>

definition pick_upper :: "round_mode \<Rightarrow> int \<Rightarrow> int \<Rightarrow> int \<Rightarrow> int \<Rightarrow> bool option" where
  "pick_upper mode x increment q r = (case mode of
       Ceil \<Rightarrow> Some True | Expand \<Rightarrow> Some True
     | Floor \<Rightarrow> Some False | Trunc \<Rightarrow> Some False
     | HalfCeil \<Rightarrow> map_option (\<lambda>r2. increment \<le> r2) (i128 (2 * r))
     | HalfFloor \<Rightarrow> map_option (\<lambda>r2. increment < r2) (i128 (2 * r))
     | HalfExpand \<Rightarrow> map_option (\<lambda>r2. increment < r2 \<or> (r2 = increment \<and> 0 \<le> x)) (i128 (2 * r))
     | HalfTrunc \<Rightarrow> map_option (\<lambda>r2. increment < r2 \<or> (r2 = increment \<and> x < 0)) (i128 (2 * r))
     | HalfEven \<Rightarrow> map_option (\<lambda>r2. if r2 = increment then q smod 2 \<noteq> 0 else increment < r2) (i128 (2 * r)))"

definition round_to_increment :: "int \<Rightarrow> int \<Rightarrow> round_mode \<Rightarrow> int option" where
  "round_to_increment x increment mode =
     (if increment \<le> 1 then Some x
      else let q = x div increment; r = x mod increment in
        if r = 0 then Some x
        else
          Option.bind (i128 (q * increment)) (\<lambda>lower.
          Option.bind (i128 (lower + increment)) (\<lambda>upper.
          Option.bind (pick_upper mode x increment q r) (\<lambda>pick.
            Some (case mode of
                Trunc \<Rightarrow> if 0 \<le> x then lower else upper
              | Expand \<Rightarrow> if 0 \<le> x then upper else lower
              | _ \<Rightarrow> if pick then upper else lower)))))"

text \<open>The loop of \<open>nudge_calendar_count\<close> runs at most twice: the window moves once. The outer option is the panic
  of an overflow, the inner one the \<open>None\<close> the source returns.\<close>

definition nudge_in ::
  "int \<Rightarrow> int \<Rightarrow> round_mode \<Rightarrow> int \<Rightarrow> int \<Rightarrow> int \<Rightarrow> int \<Rightarrow> bool \<Rightarrow> (int \<times> bool) option" where
  "nudge_in sign inc mode dest r1 e1 e2 shifted =
     (if dest = e1 then Some (r1, shifted)
      else
        Option.bind (Option.bind (i128 (e2 - e1)) (\<lambda>d. i128 \<bar>d\<bar>)) (\<lambda>d.
        let den = max d 1 in
        Option.bind (Option.bind (i128 (dest - e1)) (\<lambda>d. i128 \<bar>d\<bar>)) (\<lambda>num.
        Option.bind (i128 (r1 * den)) (\<lambda>a.
        Option.bind (Option.bind (i128 (sign * inc)) (\<lambda>b. i128 (b * num))) (\<lambda>b.
        Option.bind (i128 (a + b)) (\<lambda>x.
        Option.bind (i128 (inc * den)) (\<lambda>m.
        Option.bind (round_to_increment x m mode) (\<lambda>y.
          let rounded = as_i64 (y sdiv den) in Some (rounded, rounded \<noteq> r1 \<or> shifted)))))))))"

definition nudge_shifted ::
  "int \<Rightarrow> int \<Rightarrow> round_mode \<Rightarrow> int \<Rightarrow> (int \<Rightarrow> int option) \<Rightarrow> int \<Rightarrow> (int \<times> bool) option option" where
  "nudge_shifted sign inc mode dest epoch_of r1 =
     Option.bind (Option.bind (i64 (inc * sign)) (\<lambda>step. i64 (r1 + step))) (\<lambda>r2.
       case epoch_of r1 of
         None \<Rightarrow> Some None
       | Some e1 \<Rightarrow> (case epoch_of r2 of
             None \<Rightarrow> Some None
           | Some e2 \<Rightarrow> map_option Some (nudge_in sign inc mode dest r1 e1 e2 True)))"

definition nudge_loop ::
  "int \<Rightarrow> int \<Rightarrow> round_mode \<Rightarrow> int \<Rightarrow> (int \<Rightarrow> int option) \<Rightarrow> int \<Rightarrow> (int \<times> bool) option option" where
  "nudge_loop sign inc mode dest epoch_of r1 =
     Option.bind (Option.bind (i64 (inc * sign)) (\<lambda>step. i64 (r1 + step))) (\<lambda>r2.
       case epoch_of r1 of
         None \<Rightarrow> Some None
       | Some e1 \<Rightarrow> (case epoch_of r2 of
             None \<Rightarrow> Some None
           | Some e2 \<Rightarrow>
               if (if 0 < sign then e1 \<le> dest \<and> dest \<le> e2 else e2 \<le> dest \<and> dest \<le> e1)
               then map_option Some (nudge_in sign inc mode dest r1 e1 e2 False)
               else nudge_shifted sign inc mode dest epoch_of r2))"

definition nudge_calendar_count ::
  "int \<Rightarrow> int \<Rightarrow> int \<Rightarrow> round_mode \<Rightarrow> int \<Rightarrow> (int \<Rightarrow> int option) \<Rightarrow> (int \<times> bool) option option" where
  "nudge_calendar_count r sign increment mode dest epoch_of =
     (let inc = max increment 1 in
      Option.bind (i64 ((r sdiv inc) * inc)) (nudge_loop sign inc mode dest epoch_of))"

end
