(* ===== verification/TemporalDays.thy ===== *)
theory TemporalDays
  imports TemporalIso
begin

text \<open>
  Day counts. A date is read as a day of a March-based year, so that the leap day comes last; the day count is
  then \<open>year_days\<close> of that year plus the day, and the closed formulas of \<open>epoch_days_to_iso\<close> invert it. The
  comparison of dates is the comparison of day counts.
\<close>

lemma sdiv_pos: "0 \<le> a \<Longrightarrow> 0 < b \<Longrightarrow> a sdiv b = a div (b :: int)"
  by (cases "a = 0") (simp_all add: signed_divide_int_def)

lemma smod_pos: "0 \<le> a \<Longrightarrow> 0 < b \<Longrightarrow> a smod b = a mod (b :: int)"
  by (cases "a = 0") (simp_all add: signed_modulo_int_def)

lemma floor_div:
  assumes "0 < (b :: int)"
  shows "(if 0 \<le> a then a else a - (b - 1)) sdiv b = a div b"
proof (cases "0 \<le> a")
  case False
  have "(a - (b - 1)) sdiv b = - ((b - 1 - a) div b)"
    using False assms by (simp add: signed_divide_int_def abs_if)
  also have "\<dots> = a div b"
  proof -
    have "(b - 1 - a) div b = - (a div b)"
    proof (rule int_div_pos_eq [where r = "b - 1 - a mod b"])
      have "b * (a div b) + a mod b = a" by (rule mult_div_mod_eq)
      then show "b - 1 - a = b * - (a div b) + (b - 1 - a mod b)" by linarith
    qed (use assms pos_mod_bound [of b a] pos_mod_sign [of b a] in linarith)+
    then show ?thesis by simp
  qed
  finally show ?thesis using False by simp
qed (use assms in \<open>simp add: sdiv_pos\<close>)

lemma leap_year: "is_leap_year y \<longleftrightarrow> (y mod 4 = 0 \<and> y mod 100 \<noteq> 0) \<or> y mod 400 = 0"
proof -
  have "y smod k = 0 \<longleftrightarrow> y mod k = 0" if "0 < k" for k :: int
    using that by (auto simp: signed_modulo_int_def sgn_if abs_if mod_eq_0_iff_dvd)
  then show ?thesis by (simp add: is_leap_year_def)
qed

text \<open>Days before the March-based year \<open>y\<close>, counted from year 0.\<close>

definition year_days :: "int \<Rightarrow> int" where
  "year_days y = 365 * y + y div 4 - y div 100 + y div 400"

lemma year_days_era:
  assumes "0 \<le> n" "n < 400"
  shows "year_days (400 * e + n) = e * 146097 + (n * 365 + n div 4 - n div 100)"
proof -
  have "(400 * e + n) div 4 = 100 * e + n div 4" "(400 * e + n) div 100 = 4 * e + n div 100" "(400 * e + n) div 400 = e + n div 400"
    using div_mult_self4 [of 4 "100 * e" n] div_mult_self4 [of 100 "4 * e" n] div_mult_self4 [of 400 e n] by simp_all
  then show ?thesis using assms by (simp add: year_days_def)
qed

text \<open>The year-of-era formula of the inverse.\<close>

lemma year_of_era:
  assumes n: "0 \<le> n" "n < 400" and d: "0 \<le> doy" "doy \<le> 365"
    and leap: "doy = 365 \<Longrightarrow> n mod 4 = 3 \<and> (n mod 100 \<noteq> 99 \<or> n = 399)"
    and doe: "doe = n * 365 + n div 4 - n div 100 + (doy :: int)"
  shows "0 \<le> doe \<and> doe \<le> 146096 \<and> (doe - doe div 1460 + doe div 36524 - doe div 146096) div 365 = n"
proof -
  define k q r where "k = n div 100" and "q = n mod 100 div 4" and "r = n mod 100 mod 4"
  have b: "0 \<le> k" "k \<le> 3" "0 \<le> q" "q \<le> 24" "0 \<le> r" "r \<le> 3" using n by (auto simp: k_def q_def r_def)
  have nn: "n = 100 * k + (4 * q + r)" by (simp add: k_def q_def r_def)
  have "n div 4 = 25 * k + q"
    by (rule int_div_pos_eq [where r = r]) (use b nn in simp_all)
  then have e: "doe = 36524 * k + (1461 * q + 365 * r + doy)"
    unfolding doe k_def [symmetric] using nn by simp
  have l: "r = 3 \<and> (4 * q + r \<noteq> 99 \<or> k = 3)" if "doy = 365"
  proof -
    have "n mod 4 = r" unfolding r_def by (simp add: mod_mod_cancel)
    moreover have "n mod 100 = 4 * q + r" by (simp add: q_def r_def)
    ultimately show ?thesis using leap [OF that] nn b by auto
  qed
  have top: "1461 * q + 365 * r + doy \<le> 36523 \<or> k = 3 \<and> q = 24 \<and> r = 3 \<and> doy = 365"
    using l b d by (cases "doy = 365") auto
  have rng: "0 \<le> doe" "doe \<le> 146096" using e b d top by linarith+
  have "doe div 36524 - doe div 146096 = k"
  proof (cases "1461 * q + 365 * r + doy \<le> 36523")
    case True
    have "doe div 36524 = k" by (rule int_div_pos_eq [OF e]) (use b d True in linarith)+
    moreover have "doe div 146096 = 0" by (rule div_pos_pos_trivial) (use rng e b True in linarith)+
    ultimately show ?thesis by simp
  next
    case False
    then have "doe = 146096" using top e by simp
    then show ?thesis using False top by simp
  qed
  moreover obtain t where t: "doe div 1460 = 25 * k + q + t" "t = 0 \<or> t = 1" "t = 1 \<longleftrightarrow> 1460 \<le> 24 * k + q + 365 * r + doy"
  proof (cases "1460 \<le> 24 * k + q + 365 * r + doy")
    case True
    have "doe div 1460 = 25 * k + q + 1"
      by (rule int_div_pos_eq [where r = "24 * k + q + 365 * r + doy - 1460"]) (use True b d in \<open>simp add: e\<close>, use True b d in linarith, use True b d in linarith)
    then show thesis using that [of 1] True by simp
  next
    case False
    have "doe div 1460 = 25 * k + q"
      by (rule int_div_pos_eq [where r = "24 * k + q + 365 * r + doy"]) (use False b d in \<open>simp add: e\<close>, use False b d in linarith, use False b d in linarith)
    then show thesis using that [of 0] False by simp
  qed
  moreover have "(365 * n + (doy - t)) div 365 = n"
  proof (rule int_div_pos_eq [OF refl])
    show "0 \<le> doy - t" using t(2,3) b d by (cases "doy = 0") auto
    show "doy - t < 365" using t(2,3) b d l by (cases "doy = 365") auto
  qed
  moreover have "doe - (25 * k + q + t) + k = 365 * n + (doy - t)" using e nn by simp
  ultimately show ?thesis using rng by (metis diff_diff_eq2 add_diff_eq)
qed

subsection \<open>Days since the epoch\<close>

definition march_year :: "iso_date \<Rightarrow> int" where
  "march_year d = (if month d \<le> 2 then year d - 1 else year d)"

definition march_month :: "iso_date \<Rightarrow> int" where
  "march_month d = (if 2 < month d then month d - 3 else month d + 9)"

definition march_day :: "iso_date \<Rightarrow> int" where
  "march_day d = (153 * march_month d + 2) div 5 + day d - 1"

definition valid_date :: "iso_date \<Rightarrow> bool" where
  "valid_date d = (1 \<le> month d \<and> month d \<le> 12 \<and> 1 \<le> day d \<and> day d \<le> iso_days_in_month (year d) (month d))"

lemma epoch_days_eq:
  assumes "1 \<le> month d"
  shows "iso_to_epoch_days d = year_days (march_year d) + march_day d - 719468"
proof -
  let ?y = "march_year d" and ?n = "march_year d mod 400"
  have "iso_to_epoch_days d = (let era = (if 0 \<le> ?y then ?y else ?y - 399) sdiv 400; yoe = ?y - era * 400
      in era * 146097 + (yoe * 365 + yoe sdiv 4 - yoe sdiv 100 + ((153 * march_month d + 2) sdiv 5 + day d - 1)) - 719468)"
    by (simp only: iso_to_epoch_days_def Let_def march_year_def march_month_def)
  moreover have "(if 0 \<le> ?y then ?y else ?y - 399) sdiv 400 = ?y div 400" using floor_div [of 400 ?y] by (cases "0 \<le> ?y") simp_all
  moreover have "?y - ?y div 400 * 400 = ?n" by (simp add: minus_div_mult_eq_mod)
  moreover have "(153 * march_month d + 2) sdiv 5 = (153 * march_month d + 2) div 5"
    using assms by (intro sdiv_pos) (auto simp: march_month_def)
  moreover have "year_days ?y = ?y div 400 * 146097 + (?n * 365 + ?n div 4 - ?n div 100)"
    using year_days_era [of ?n "?y div 400"] by simp
  ultimately show ?thesis by (simp add: Let_def march_day_def sdiv_pos)
qed

lemma int_div_eq_iff: "0 < b \<Longrightarrow> a div b = q \<longleftrightarrow> b * q \<le> a \<and> a < b * q + b" for a b q :: int
proof -
  assume b: "0 < b"
  have a: "b * (a div b) + a mod b = a" by simp
  show ?thesis
  proof
    assume "a div b = q"
    then show "b * q \<le> a \<and> a < b * q + b" using a pos_mod_bound [OF b, of a] pos_mod_sign [OF b, of a] by auto
  next
    assume "b * q \<le> a \<and> a < b * q + b"
    then show "a div b = q" by (intro int_div_pos_eq [where r = "a - b * q"]) auto
  qed
qed

lemma succ_mod: "0 < b \<Longrightarrow> (n + 1) mod b = (if n mod b = b - 1 then 0 else n mod b + 1)" for b :: int
proof -
  assume b: "0 < b"
  have "(n + 1) mod b = (n mod b + 1) mod b" by (simp add: mod_add_left_eq)
  also have "\<dots> = (if n mod b = b - 1 then 0 else n mod b + 1)"
    using b pos_mod_bound [OF b, of n] pos_mod_sign [OF b, of n] by (auto intro!: mod_pos_pos_trivial)
  finally show ?thesis .
qed

lemma succ_mod_0: "0 < b \<Longrightarrow> (n + 1) mod b = 0 \<longleftrightarrow> n mod b = b - 1" for b :: int
  using succ_mod [of b n] pos_mod_sign [of b n] by (auto simp del: pos_mod_sign split: if_splits)

lemma succ_div: "0 < b \<Longrightarrow> (n + 1) div b = (if (n + 1) mod b = 0 then n div b + 1 else n div b)" for b :: int
proof -
  assume b: "0 < b"
  have n: "b * (n div b) + n mod b = n" by simp
  show ?thesis
  proof (cases "n mod b = b - 1")
    case True
    have "(n + 1) div b = n div b + 1"
      by (rule int_div_pos_eq [where r = 0]) (use n True b in \<open>simp_all add: algebra_simps\<close>)
    then show ?thesis using True b by (simp add: succ_mod)
  next
    case False
    have "(n + 1) div b = n div b"
      by (rule int_div_pos_eq [where r = "n mod b + 1"])
        (use n False pos_mod_bound [OF b, of n] pos_mod_sign [OF b, of n] in linarith)+
    moreover have "n mod b + 1 \<noteq> 0" using pos_mod_sign [OF b, of n] by linarith
    ultimately show ?thesis using False b by (simp add: succ_mod)
  qed
qed

lemma year_days_Suc: "year_days (y + 1) = year_days y + iso_days_in_year (y + 1)"
proof -
  have "(y + 1) mod 400 = 0 \<Longrightarrow> (y + 1) mod 100 = 0" "(y + 1) mod 100 = 0 \<Longrightarrow> (y + 1) mod 4 = 0"
    by (simp_all add: mod_eq_0_iff_dvd) (meson dvd_trans[rotated] dvd_numeral_simp | auto elim!: dvd_trans[rotated])+
  then show ?thesis
    by (auto simp: year_days_def iso_days_in_year_def leap_year succ_div)
qed

lemma year_days_mono: "x \<le> y \<Longrightarrow> year_days x \<le> year_days y"
  by (induction y rule: int_ge_induct) (auto simp: year_days_Suc iso_days_in_year_def)

lemma leap_era:
  assumes "0 \<le> n" "n < 400"
  shows "is_leap_year (400 * e + n + 1) \<longleftrightarrow> n mod 4 = 3 \<and> (n mod 100 \<noteq> 99 \<or> n = 399)"
proof -
  have "(400 * e + n + 1) mod 4 = (n + 1) mod 4" "(400 * e + n + 1) mod 100 = (n + 1) mod 100"
    "(400 * e + n + 1) mod 400 = (n + 1) mod 400"
    using mod_mult_self2 [of "n + 1" 4 "100 * e"] mod_mult_self2 [of "n + 1" 100 "4 * e"]
      mod_mult_self2 [of "n + 1" 400 e] by (simp_all add: algebra_simps)
  moreover have "n mod 400 = n" using assms by simp
  ultimately have "(400 * e + n + 1) mod 4 = 0 \<longleftrightarrow> n mod 4 = 4 - 1" "(400 * e + n + 1) mod 100 = 0 \<longleftrightarrow> n mod 100 = 100 - 1"
    "(400 * e + n + 1) mod 400 = 0 \<longleftrightarrow> n = 400 - 1"
    by (simp_all only: succ_mod_0 zero_less_numeral)
  moreover have "n = 399 \<Longrightarrow> n mod 4 = 3" by simp
  ultimately show ?thesis unfolding leap_year by auto
qed

lemma valid_date_cases:
  assumes "valid_date d"
  shows "0 \<le> march_month d \<and> march_month d \<le> 11 \<and> 0 \<le> march_day d \<and>
    march_day d < iso_days_in_year (march_year d + 1) \<and>
    (5 * march_day d + 2) div 153 = march_month d \<and> 1 \<le> day d \<and> day d \<le> 31"
proof -
  have "1 \<le> month d" "month d \<le> 12" using assms by (auto simp: valid_date_def)
  then have "month d \<in> {1, 2, 3, 4, 5, 6, 7, 8, 9, 10, 11, 12}" unfolding insert_iff empty_iff by presburger
  then show ?thesis using assms
    by (elim insertE emptyE)
      (auto simp: valid_date_def march_month_def march_day_def march_year_def iso_days_in_month_def
        iso_days_in_year_def int_div_eq_iff split: if_splits)
qed

text \<open>A day count splits into an era, a year of the era and a day of the March-based year.\<close>

lemma day_of_year_split:
  assumes "valid_date d"
  obtains e n doy where "0 \<le> n" "n < 400" "march_year d = 400 * e + n" "march_day d = doy" "0 \<le> doy" "doy \<le> 365"
    "doy = 365 \<Longrightarrow> n mod 4 = 3 \<and> (n mod 100 \<noteq> 99 \<or> n = 399)"
proof -
  let ?n = "march_year d mod 400" and ?e = "march_year d div 400"
  have y: "march_year d = 400 * ?e + ?n" by simp
  have "is_leap_year (march_year d + 1) \<longleftrightarrow> ?n mod 4 = 3 \<and> (?n mod 100 \<noteq> 99 \<or> ?n = 399)"
    using leap_era [of ?n ?e] y by simp
  then show thesis
    using that [of ?n ?e "march_day d"] valid_date_cases [OF assms] y
    by (auto simp: iso_days_in_year_def split: if_splits)
qed

lemma as_i32_id: "- (2 ^ 31) \<le> x \<Longrightarrow> x < 2 ^ 31 \<Longrightarrow> as_i32 x = x"
  by (simp add: as_i32_def as_signed_def)

lemma as_i64_id: "- (2 ^ 63) \<le> x \<Longrightarrow> x < 2 ^ 63 \<Longrightarrow> as_i64 x = x"
  by (simp add: as_i64_def as_signed_def)

lemma as_u8_id: "0 \<le> x \<Longrightarrow> x < 256 \<Longrightarrow> as_u8 x = x" by (simp add: as_u8_def)

lemma as_u16_id: "0 \<le> x \<Longrightarrow> x < 65536 \<Longrightarrow> as_u16 x = x" by (simp add: as_u16_def)

text \<open>The inverse, on a day count written as era, year of era and day of year.\<close>

lemma epoch_days_to_iso_eq:
  assumes n: "0 \<le> n" "n < 400" and d: "0 \<le> doy" "doy \<le> 365"
    and leap: "doy = 365 \<Longrightarrow> n mod 4 = 3 \<and> (n mod 100 \<noteq> 99 \<or> n = 399)"
    and z: "z + 719468 = year_days (400 * e + n) + doy"
  shows "epoch_days_to_iso z =
     (let y = 400 * e + n; mp = (5 * doy + 2) div 153; m = (if mp < 10 then mp + 3 else mp - 9)
      in \<lparr>year = as_i32 (if m \<le> 2 then y + 1 else y), month = as_u8 m,
          day = as_u8 (doy - (153 * mp + 2) div 5 + 1)\<rparr>)"
proof -
  define doe where "doe = n * 365 + n div 4 - n div 100 + doy"
  note Y = year_of_era [OF n d leap doe_def]
  have z': "z + 719468 = 146097 * e + doe" using z year_days_era [OF n, of e] by (simp add: doe_def)
  have era: "(if 0 \<le> z + 719468 then z + 719468 else z + 719468 - 146096) sdiv 146097 = e"
    using floor_div [of 146097 "z + 719468"] int_div_pos_eq [OF z'] Y
    by (cases "0 \<le> z + 719468") simp_all
  have yoe: "(doe - doe sdiv 1460 + doe sdiv 36524 - doe sdiv 146096) sdiv 365 = n"
  proof -
    have "0 \<le> doe - doe div 1460 + doe div 36524 - doe div 146096"
    proof (rule ccontr)
      assume "\<not> ?thesis"
      then have "(doe - doe div 1460 + doe div 36524 - doe div 146096) div 365 < 0" by simp
      then show False using Y n by linarith
    qed
    then show ?thesis using Y by (simp add: sdiv_pos)
  qed
  have doy: "doe - (365 * n + n sdiv 4 - n sdiv 100) = doy" using n by (simp add: doe_def sdiv_pos)
  have "0 \<le> (5 * doy + 2) div 153" using d by simp
  then show ?thesis
    unfolding epoch_days_to_iso_def Let_def era
    using era yoe doy d by (simp add: z' sdiv_pos algebra_simps)
qed

lemma epoch_days_inverse:
  assumes "valid_date d" "- (2 ^ 31) \<le> year d" "year d < 2 ^ 31"
  shows "epoch_days_to_iso (iso_to_epoch_days d) = d"
proof (rule day_of_year_split [OF assms(1)])
  fix e n doy
  assume a: "0 \<le> n" "n < 400" "march_year d = 400 * e + n" "march_day d = doy" "0 \<le> doy" "doy \<le> 365"
    "doy = 365 \<Longrightarrow> n mod 4 = 3 \<and> (n mod 100 \<noteq> 99 \<or> n = 399)"
  have m: "1 \<le> month d" "month d \<le> 12" using assms(1) by (auto simp: valid_date_def)
  note c = valid_date_cases [OF assms(1)]
  have "iso_to_epoch_days d + 719468 = year_days (400 * e + n) + doy" using m a by (simp add: epoch_days_eq)
  moreover have dd: "doy - (153 * march_month d + 2) div 5 + 1 = day d" using a(4) by (simp add: march_day_def)
  ultimately have "iso_to_epoch_days d + 719468 = year_days (400 * e + n) + doy" by simp
  from epoch_days_to_iso_eq [OF a(1,2,5,6,7) this] a(4) c
  have "epoch_days_to_iso (iso_to_epoch_days d) =
     (let m = (if march_month d < 10 then march_month d + 3 else march_month d - 9)
      in \<lparr>year = as_i32 (if m \<le> 2 then march_year d + 1 else march_year d), month = as_u8 m, day = as_u8 (day d)\<rparr>)"
    by (simp add: Let_def a(3) dd)
  also have "\<dots> = d"
    using m c assms(2,3) by (auto simp: Let_def march_month_def march_year_def as_i32_id as_u8_id)
  finally show ?thesis .
qed

lemma day_count_split:
  obtains e n doy where "0 \<le> n" "n < 400" "0 \<le> doy" "doy \<le> 365"
    "doy = 365 \<Longrightarrow> n mod 4 = 3 \<and> (n mod 100 \<noteq> 99 \<or> n = 399)" "z = year_days (400 * e + n) + doy"
proof -
  define doe k where "doe = z mod 146097" and "k = min (doe div 36524) 3"
  define a where "a = doe - 36524 * k"
  define q b where "q = a div 1461" and "b = a mod 1461"
  define r where "r = min (b div 365) 3"
  define doy n where "doy = b - 365 * r" and "n = 100 * k + (4 * q + r)"
  have doe: "0 \<le> doe" "doe \<le> 146096" by (simp_all add: doe_def)
  have dk: "36524 * (doe div 36524) + doe mod 36524 = doe" "0 \<le> doe mod 36524" "doe mod 36524 < 36524" by simp_all
  have k: "0 \<le> k" "k \<le> 3" "0 \<le> a" "a \<le> 36523 \<or> a = 36524 \<and> k = 3"
    using doe dk unfolding a_def k_def min_def by (simp_all split: if_splits) linarith+
  have qb: "a = 1461 * q + b" "0 \<le> b" "b < 1461" by (simp_all add: q_def b_def)
  have q: "0 \<le> q" "q \<le> 24" using k qb by linarith+
  have br: "365 * (b div 365) + b mod 365 = b" "0 \<le> b mod 365" "b mod 365 < 365" by simp_all
  have r: "0 \<le> r" "r \<le> 3" "0 \<le> doy" "doy \<le> 364 \<or> doy = 365 \<and> r = 3"
    using qb br unfolding doy_def r_def min_def by (simp_all split: if_splits) linarith+
  have "n div 100 = k" unfolding n_def by (rule int_div_pos_eq [OF refl]) (use q r in linarith)+
  moreover have n4: "n div 4 = 25 * k + q" unfolding n_def by (rule int_div_pos_eq [where r = r]) (use q r in simp_all)
  ultimately have "doe = n * 365 + n div 4 - n div 100 + doy"
    using qb a_def by (simp add: n_def doy_def)
  moreover have n: "0 \<le> n" "n < 400" using k q r by (auto simp: n_def)
  ultimately have "z = year_days (400 * (z div 146097) + n) + doy"
    using year_days_era [OF n, of "z div 146097"] div_mult_mod_eq [of z 146097] by (simp add: doe_def)
  moreover have "n mod 4 = 3 \<and> (n mod 100 \<noteq> 99 \<or> n = 399)" if "doy = 365"
  proof -
    have r3: "r = 3" using r that by auto
    moreover have "n mod 4 = r" using n4 minus_mult_div_eq_mod [of n 4] by (simp add: n_def)
    moreover have "n mod 100 = 4 * q + r" using \<open>n div 100 = k\<close> minus_mult_div_eq_mod [of n 100] by (simp add: n_def)
    moreover have "q = 24 \<Longrightarrow> k = 3" using k(4) qb that r3 by (auto simp: doy_def)
    ultimately show ?thesis using q by (auto simp: n_def)
  qed
  ultimately show thesis using n r that [of n doy "z div 146097"] by auto
qed

lemma march_date:
  assumes doy: "0 \<le> doy" "doy \<le> 365" and leap: "doy \<noteq> 365 \<or> is_leap_year (y + 1)"
  obtains d where "valid_date d" "march_year d = y" "march_day d = doy"
proof -
  define mp where "mp = (5 * doy + 2) div 153"
  have "153 * mp \<le> 5 * doy + 2" "5 * doy + 2 < 153 * mp + 153"
    using int_div_eq_iff [of 153 "5 * doy + 2" mp] by (simp_all add: mp_def)
  moreover from this have "0 \<le> mp" "mp \<le> 11" using doy by linarith+
  then have "mp \<in> {0, 1, 2, 3, 4, 5, 6, 7, 8, 9, 10, 11}" unfolding insert_iff empty_iff by presburger
  ultimately have "valid_date \<lparr>year = (if mp < 10 then y else y + 1), month = (if mp < 10 then mp + 3 else mp - 9),
      day = doy - (153 * mp + 2) div 5 + 1\<rparr>" (is "valid_date ?d")
    using doy leap by (elim insertE emptyE) (auto simp: valid_date_def iso_days_in_month_def)
  moreover have "march_year ?d = y" "march_day ?d = doy"
    using \<open>0 \<le> mp\<close> \<open>mp \<le> 11\<close> by (auto simp: march_year_def march_day_def march_month_def)
  ultimately show thesis by (rule that)
qed

lemma epoch_days_onto:
  assumes "\<bar>z\<bar> \<le> 780000000000"
  obtains d where "valid_date d" "- (2 ^ 31) \<le> year d" "year d < 2 ^ 31" "iso_to_epoch_days d = z"
proof (rule day_count_split [of "z + 719468"])
  fix e n doy
  assume a: "0 \<le> n" "n < 400" "0 \<le> doy" "doy \<le> 365"
    "doy = 365 \<Longrightarrow> n mod 4 = 3 \<and> (n mod 100 \<noteq> 99 \<or> n = 399)" "z + 719468 = year_days (400 * e + n) + doy"
  let ?y = "400 * e + n"
  have l: "doy \<noteq> 365 \<or> is_leap_year (?y + 1)" using a leap_era [of n e] by blast
  show thesis
  proof (rule march_date [OF a(3,4) l])
    fix d assume d: "valid_date d" "march_year d = ?y" "march_day d = doy"
    then have z: "iso_to_epoch_days d = z" using epoch_days_eq [of d] a(6) by (simp add: valid_date_def)
    have "?y < 2147483646"
    proof (rule ccontr)
      assume "\<not> ?thesis"
      then have "year_days 2147483646 \<le> year_days ?y" by (intro year_days_mono) simp
      then show False using a assms by (simp add: year_days_def)
    qed
    moreover have "- 2147483646 < ?y"
    proof (rule ccontr)
      assume "\<not> ?thesis"
      then have "year_days ?y \<le> year_days (- 2147483646)" by (intro year_days_mono) simp
      then show False using a assms by (simp add: year_days_def)
    qed
    ultimately have "- (2 ^ 31) \<le> year d" "year d < 2 ^ 31" using d(2) by (auto simp: march_year_def split: if_splits)
    then show thesis using that d(1) z by blast
  qed
qed

lemma epoch_days_surj:
  assumes "\<bar>z\<bar> \<le> 780000000000"
  shows "valid_date (epoch_days_to_iso z)" "iso_to_epoch_days (epoch_days_to_iso z) = z"
    "- (2 ^ 31) \<le> year (epoch_days_to_iso z)" "year (epoch_days_to_iso z) < 2 ^ 31"
  using epoch_days_onto [OF assms] epoch_days_inverse by metis+

text \<open>Dates in calendar order have day counts in order.\<close>

lemma epoch_days_mono:
  assumes "valid_date a" "valid_date b"
    and "march_year a < march_year b \<or> march_year a = march_year b \<and>
      (march_month a < march_month b \<or> march_month a = march_month b \<and> day a < day b)"
  shows "iso_to_epoch_days a < iso_to_epoch_days b"
proof -
  note A = valid_date_cases [OF assms(1)] and B = valid_date_cases [OF assms(2)]
  have e: "iso_to_epoch_days a = year_days (march_year a) + march_day a - 719468"
    "iso_to_epoch_days b = year_days (march_year b) + march_day b - 719468"
    using assms(1,2) by (simp_all add: epoch_days_eq valid_date_def)
  consider "march_year a + 1 \<le> march_year b" | "march_year a = march_year b" "march_month a < march_month b"
    | "march_year a = march_year b" "march_month a = march_month b" "day a < day b" using assms(3) by linarith
  then show ?thesis
  proof cases
    case 1
    then have "year_days (march_year a) + iso_days_in_year (march_year a + 1) \<le> year_days (march_year b)"
      using year_days_mono [OF 1] by (simp add: year_days_Suc)
    then show ?thesis using A B e by linarith
  next
    case 2
    have "(5 * march_day a + 2) div 153 < (5 * march_day b + 2) div 153" using 2 A B by simp
    then have "\<not> 5 * march_day b + 2 \<le> 5 * march_day a + 2" using zdiv_mono1 [of "5 * march_day b + 2" "5 * march_day a + 2" 153] by linarith
    then show ?thesis using e 2 by simp
  next
    case 3
    then show ?thesis using e by (simp add: march_day_def)
  qed
qed

lemma compare_iso_date_iff:
  shows compare_iso_date_Less: "compare_iso_date a b = Less \<longleftrightarrow>
      year a < year b \<or> year a = year b \<and> (month a < month b \<or> month a = month b \<and> day a < day b)" (is ?L)
    and compare_iso_date_Equal: "compare_iso_date a b = Equal \<longleftrightarrow> a = b" (is ?E)
    and compare_iso_date_Greater: "compare_iso_date a b = Greater \<longleftrightarrow> compare_iso_date b a = Less" (is ?G)
proof -
  note [simp] = compare_iso_date_def cmp_def
  show ?L ?G
    by (cases "year a" "year b" rule: linorder_cases; cases "month a" "month b" rule: linorder_cases;
        cases "day a" "day b" rule: linorder_cases; simp)+
  show ?E
    by (cases "year a" "year b" rule: linorder_cases; cases "month a" "month b" rule: linorder_cases;
        cases "day a" "day b" rule: linorder_cases; auto intro!: iso_date.equality)
qed

lemma compare_iso_date_eq:
  assumes "valid_date a" "valid_date b"
  shows "compare_iso_date a b = cmp (iso_to_epoch_days a) (iso_to_epoch_days b)"
proof -
  have m: "1 \<le> month a" "month a \<le> 12" "1 \<le> month b" "month b \<le> 12" using assms by (auto simp: valid_date_def)
  have lt: "compare_iso_date u v = Less \<Longrightarrow> iso_to_epoch_days u < iso_to_epoch_days v"
    if "u = a \<and> v = b \<or> u = b \<and> v = a" for u v
    by (rule epoch_days_mono)
      (use that assms m in \<open>auto simp: compare_iso_date_Less march_year_def march_month_def\<close>)
  show ?thesis
  proof (cases "compare_iso_date a b")
    case Equal
    then show ?thesis using compare_iso_date_Equal [of a b] by simp
  next
    case Less
    then show ?thesis using lt by (simp add: cmp_def)
  next
    case Greater
    then have "iso_to_epoch_days b < iso_to_epoch_days a" using lt [of b a] compare_iso_date_Greater [of a b] by simp
    then show ?thesis using Greater by (simp add: cmp_def)
  qed
qed

text \<open>C27: day counts and dates determine each other, over the range of years the engine can hold: the date of a valid
  date's day count is that date, and the day count of the date of a day count is that count. The calendar order of
  \<open>compare_iso_date\<close> is the order of the day counts.\<close>

theorem epoch_days_order_isomorphic:
  "(valid_date d \<and> - (2 ^ 31) \<le> year d \<and> year d < 2 ^ 31 \<longrightarrow> epoch_days_to_iso (iso_to_epoch_days d) = d) \<and>
   (\<bar>z\<bar> \<le> 780000000000 \<longrightarrow> valid_date (epoch_days_to_iso z) \<and> iso_to_epoch_days (epoch_days_to_iso z) = z) \<and>
   (valid_date a \<and> valid_date b \<longrightarrow> compare_iso_date a b = cmp (iso_to_epoch_days a) (iso_to_epoch_days b))"
  using epoch_days_inverse epoch_days_surj compare_iso_date_eq by blast

theorem epoch_days_order_isomorphic_witness:
  "epoch_days_to_iso (iso_to_epoch_days \<lparr>year = -4, month = 2, day = 29\<rparr>) = \<lparr>year = -4, month = 2, day = 29\<rparr> \<and>
   iso_to_epoch_days (epoch_days_to_iso (-719529)) = -719529 \<and>
   cmp (iso_to_epoch_days \<lparr>year = 1999, month = 12, day = 31\<rparr>) (iso_to_epoch_days \<lparr>year = 2000, month = 1, day = 1\<rparr>) = Less"
  using epoch_days_order_isomorphic [of "\<lparr>year = -4, month = 2, day = 29\<rparr>" "-719529"
      "\<lparr>year = 1999, month = 12, day = 31\<rparr>" "\<lparr>year = 2000, month = 1, day = 1\<rparr>"]
  by (simp add: valid_date_def iso_days_in_month_def leap_year compare_iso_date_def cmp_def [of 1999])

end
