(* ===== verification/TemporalTime.thy ===== *)
theory TemporalTime
  imports TemporalDays
begin

text \<open>
  Times of day: a nanosecond count is split into days and a valid time in exactly one way.
\<close>

subsection \<open>Times of day\<close>

definition valid_time :: "iso_time \<Rightarrow> bool" where
  "valid_time t = (0 \<le> hour t \<and> hour t < 24 \<and> 0 \<le> minute t \<and> minute t < 60 \<and> 0 \<le> second t \<and> second t < 60 \<and>
     0 \<le> millisecond t \<and> millisecond t < 1000 \<and> 0 \<le> microsecond t \<and> microsecond t < 1000 \<and>
     0 \<le> nanosecond t \<and> nanosecond t < 1000)"

lemma time_to_nanos_bounds:
  assumes "valid_time t"
  shows "0 \<le> time_to_nanos t" "time_to_nanos t < NS_PER_DAY"
  using assms by (auto simp: valid_time_def time_to_nanos_def ns_consts)

lemma div_mod_step: "0 \<le> (b :: int) \<Longrightarrow> b < c \<Longrightarrow> (a * c + b) div c = a" "0 \<le> b \<Longrightarrow> b < c \<Longrightarrow> (a * c + b) mod c = b"
  by auto

lemma balance_time_eq:
  assumes n: "- (2 ^ 63) * NS_PER_DAY \<le> n" "n < 2 ^ 63 * NS_PER_DAY"
  obtains d t where "balance_time_from_nanos n = (d, t)" "valid_time t" "n = d * NS_PER_DAY + time_to_nanos t"
proof -
  define r0 r1 r2 r3 r4 where r: "r0 = n mod NS_PER_DAY" "r1 = r0 mod NS_PER_HOUR" "r2 = r1 mod NS_PER_MINUTE"
    "r3 = r2 mod NS_PER_SEC" "r4 = r3 mod 1000000"
  define d h mi s ms us ns where f: "d = n div NS_PER_DAY" "h = r0 div NS_PER_HOUR" "mi = r1 div NS_PER_MINUTE"
    "s = r2 div NS_PER_SEC" "ms = r3 div 1000000" "us = r4 div 1000" "ns = r4 mod 1000"
  note c = ns_consts
  have b: "0 \<le> r0" "r0 < NS_PER_DAY" "0 \<le> r1" "r1 < NS_PER_HOUR" "0 \<le> r2" "r2 < NS_PER_MINUTE"
    "0 \<le> r3" "r3 < NS_PER_SEC" "0 \<le> r4" "r4 < 1000000" "0 \<le> ns" "ns < 1000" by (simp_all add: r f c)
  have e: "n = d * NS_PER_DAY + r0" "r0 = h * NS_PER_HOUR + r1" "r1 = mi * NS_PER_MINUTE + r2"
    "r2 = s * NS_PER_SEC + r3" "r3 = ms * 1000000 + r4" "r4 = us * 1000 + ns"
    by (simp_all only: r f div_mult_mod_eq)
  let ?t = "\<lparr>hour = h, minute = mi, second = s, millisecond = ms, microsecond = us, nanosecond = ns\<rparr>"
  have "0 \<le> h" "h < 24" "0 \<le> mi" "mi < 60" using e(2,3) b(1-6) unfolding c by linarith+
  moreover have "0 \<le> s" "s < 60" "0 \<le> ms" "ms < 1000" "0 \<le> us" "us < 1000" using e(4-6) b(5-) unfolding c by linarith+
  ultimately have v: "valid_time ?t" using b by (simp add: valid_time_def)
  have d: "- (2 ^ 63) \<le> d" "d < 2 ^ 63" using e(1) b(1,2) n unfolding c by linarith+
  have "balance_time_from_nanos n = (as_i64 d, \<lparr>hour = as_u8 h, minute = as_u8 mi, second = as_u8 s,
      millisecond = as_u16 ms, microsecond = as_u16 us, nanosecond = as_u16 ns\<rparr>)"
  proof -
    have "0 < NS_PER_HOUR" "0 < NS_PER_MINUTE" "0 < NS_PER_SEC" by (simp_all add: c)
    then have "r0 smod NS_PER_HOUR = r1" "r1 smod NS_PER_MINUTE = r2" "r2 smod NS_PER_SEC = r3" "r3 smod 1000000 = r4"
      "r4 smod 1000 = ns" "r0 sdiv NS_PER_HOUR = h" "r1 sdiv NS_PER_MINUTE = mi" "r2 sdiv NS_PER_SEC = s"
      "r3 sdiv 1000000 = ms" "r4 sdiv 1000 = us"
      using b r f by (simp_all only: smod_pos sdiv_pos zero_less_numeral)
    then show ?thesis by (simp only: balance_time_from_nanos_def Let_def r(1) [symmetric] f(1) [symmetric])
  qed
  moreover have "as_i64 d = d" "as_u8 h = h" "as_u8 mi = mi" "as_u8 s = s" "as_u16 ms = ms" "as_u16 us = us" "as_u16 ns = ns"
    using d v by (simp_all add: as_i64_id as_u8_id as_u16_id valid_time_def)
  moreover have "n = d * NS_PER_DAY + time_to_nanos ?t" using e by (simp add: time_to_nanos_def)
  ultimately show thesis using that [of d ?t] v by simp
qed

lemma time_to_nanos_inj:
  assumes "valid_time s" "valid_time t" "d * NS_PER_DAY + time_to_nanos s = e * NS_PER_DAY + time_to_nanos t"
  shows "d = e \<and> s = t"
proof -
  have e: "d = e" using assms(3) time_to_nanos_bounds [OF assms(1)] time_to_nanos_bounds [OF assms(2)]
    unfolding ns_consts by linarith
  have n: "hour s * 3600000000000 + minute s * 60000000000 + second s * 1000000000 + millisecond s * 1000000 +
      microsecond s * 1000 + nanosecond s = hour t * 3600000000000 + minute t * 60000000000 + second t * 1000000000 +
      millisecond t * 1000000 + microsecond t * 1000 + nanosecond t"
    using assms(3) e by (simp add: time_to_nanos_def ns_consts)
  have "0 \<le> minute s" "minute s \<le> 59" "0 \<le> second s" "second s \<le> 59" "0 \<le> millisecond s" "millisecond s \<le> 999"
    "0 \<le> microsecond s" "microsecond s \<le> 999" "0 \<le> nanosecond s" "nanosecond s \<le> 999"
    "0 \<le> minute t" "minute t \<le> 59" "0 \<le> second t" "second t \<le> 59" "0 \<le> millisecond t" "millisecond t \<le> 999"
    "0 \<le> microsecond t" "microsecond t \<le> 999" "0 \<le> nanosecond t" "nanosecond t \<le> 999"
    using assms(1,2) by (simp_all add: valid_time_def)
  note v = this
  have h: "hour s = hour t" using n v by linarith
  then have mi: "minute s = minute t" using n v by linarith
  then have "second s = second t" using h n v by linarith
  moreover from this have "millisecond s = millisecond t" using h mi n v by linarith
  moreover from calculation have "microsecond s = microsecond t" using h mi n v by linarith
  moreover from calculation have "nanosecond s = nanosecond t" using h mi n v by linarith
  ultimately show ?thesis using h mi e by (simp add: iso_time.equality)
qed

text \<open>C34: within the \<open>i64\<close> range of days, \<open>balance_time_from_nanos\<close> returns the only pair of a day count and a valid
  time of day that makes up the given nanoseconds, also for negative counts.\<close>

theorem time_balance_roundtrip:
  assumes "- (2 ^ 63) * NS_PER_DAY \<le> n" "n < 2 ^ 63 * NS_PER_DAY"
  shows "balance_time_from_nanos n = (d, t) \<longleftrightarrow> valid_time t \<and> n = d * NS_PER_DAY + time_to_nanos t"
  using balance_time_eq [OF assms] time_to_nanos_inj by (metis prod.inject)

theorem time_balance_roundtrip_witness:
  "balance_time_from_nanos (-1) = (-1, \<lparr>hour = 23, minute = 59, second = 59, millisecond = 999, microsecond = 999,
     nanosecond = 999\<rparr>)"
  using time_balance_roundtrip [of "-1"] by (simp add: ns_consts valid_time_def time_to_nanos_def)

end
