(* ===== verification/TemporalRounding.thy ===== *)
theory TemporalRounding
  imports TemporalDays
begin

text \<open>
  Rounding to an increment in the nine modes, characterised by \<open>rounds_to\<close>, and the rounding of a calendar count
  by the position of a destination between two instants.
\<close>

subsection \<open>Rounding\<close>

definition ties_to :: "round_mode \<Rightarrow> int \<Rightarrow> int \<Rightarrow> int \<Rightarrow> bool" where
  "ties_to mode x inc y = (case mode of
       HalfCeil \<Rightarrow> x \<le> y | HalfFloor \<Rightarrow> y \<le> x | HalfExpand \<Rightarrow> \<bar>x\<bar> \<le> \<bar>y\<bar> | HalfTrunc \<Rightarrow> \<bar>y\<bar> \<le> \<bar>x\<bar>
     | _ \<Rightarrow> even (y div inc))"

definition rounds_to :: "round_mode \<Rightarrow> int \<Rightarrow> int \<Rightarrow> int \<Rightarrow> bool" where
  "rounds_to mode x inc y =
     (y mod inc = 0 \<and> \<bar>y - x\<bar> < inc \<and>
      (case mode of
         Ceil \<Rightarrow> x \<le> y | Floor \<Rightarrow> y \<le> x | Expand \<Rightarrow> \<bar>x\<bar> \<le> \<bar>y\<bar> | Trunc \<Rightarrow> \<bar>y\<bar> \<le> \<bar>x\<bar>
       | _ \<Rightarrow> 2 * \<bar>y - x\<bar> < inc \<or> 2 * \<bar>y - x\<bar> = inc \<and> ties_to mode x inc y))"

text \<open>The value \<open>round_to_increment\<close> computes when nothing overflows, and when that is: unless \<open>x\<close> is a multiple, both
  neighbouring multiples are computed, and the half modes double the remainder.\<close>

definition round_value :: "int \<Rightarrow> int \<Rightarrow> round_mode \<Rightarrow> int" where
  "round_value x increment mode =
     (if increment \<le> 1 then x
      else let q = x div increment; r = x mod increment in
        if r = 0 then x
        else
          let lower = q * increment; upper = lower + increment;
              pick_upper = (case mode of
                  Ceil \<Rightarrow> True | Expand \<Rightarrow> True
                | Floor \<Rightarrow> False | Trunc \<Rightarrow> False
                | HalfCeil \<Rightarrow> increment \<le> 2 * r
                | HalfFloor \<Rightarrow> increment < 2 * r
                | HalfExpand \<Rightarrow> increment < 2 * r \<or> (2 * r = increment \<and> 0 \<le> x)
                | HalfTrunc \<Rightarrow> increment < 2 * r \<or> (2 * r = increment \<and> x < 0)
                | HalfEven \<Rightarrow> if 2 * r = increment then q smod 2 \<noteq> 0 else increment < 2 * r)
          in (case mode of
                Trunc \<Rightarrow> if 0 \<le> x then lower else upper
              | Expand \<Rightarrow> if 0 \<le> x then upper else lower
              | _ \<Rightarrow> if pick_upper then upper else lower))"

definition round_fits :: "round_mode \<Rightarrow> int \<Rightarrow> int \<Rightarrow> bool" where
  "round_fits mode x inc =
     (x mod inc = 0 \<or>
      - (2 ^ 127) \<le> x - x mod inc \<and> x - x mod inc + inc < 2 ^ 127 \<and>
      (mode \<in> {Ceil, Floor, Expand, Trunc} \<or> 2 * (x mod inc) < 2 ^ 127))"

lemma multiple_near:
  assumes "(0 :: int) < inc" "y mod inc = 0" "\<bar>y - x\<bar> < inc"
  shows "y = (x div inc) * inc \<or> y = (x div inc) * inc + inc \<and> x mod inc \<noteq> 0"
proof -
  obtain k where y: "y = inc * k" using assms(2) by (metis mod_eq_0_iff_dvd dvdE)
  have x: "x = inc * (x div inc) + x mod inc" "0 \<le> x mod inc" "x mod inc < inc" using assms(1) by simp_all
  have "inc * (k - x div inc) < 2 * inc" "- inc < inc * (k - x div inc)" 
    using assms(3) x y unfolding right_diff_distrib abs_less_iff by linarith+
  then have "k - x div inc < 2" "-1 < k - x div inc"
    using assms(1) mult_less_cancel_left_pos [of inc "k - x div inc" 2] mult_less_cancel_left_pos [of inc "-1" "k - x div inc"]
    by (simp_all add: mult.commute)
  then have "k = x div inc \<or> k = x div inc + 1" by linarith
  then show ?thesis using y x assms(3) by (auto simp: algebra_simps)
qed

lemma round_value_cases:
  assumes "1 < inc"
  obtains (exact) "x mod inc = 0" "round_value x inc mode = x"
  | (between) l r where "x = l + r" "0 < r" "r < inc" "l = (x div inc) * inc" "0 \<le> x \<longleftrightarrow> 0 \<le> l" "x < 0 \<longleftrightarrow> l + inc \<le> 0"
      "r = x mod inc" "l mod inc = 0" "(l + inc) mod inc = 0"
      "l div inc = x div inc" "(l + inc) div inc = x div inc + 1"
proof (cases "x mod inc = 0")
  case True
  then show thesis using exact assms by (simp add: round_value_def Let_def)
next
  case False
  let ?q = "x div inc"
  have x: "x = ?q * inc + x mod inc" by simp
  have r: "0 < x mod inc" "x mod inc < inc" using False assms pos_mod_sign [of inc x] pos_mod_bound [of inc x] by linarith+
  have p: "0 \<le> x \<longleftrightarrow> 0 \<le> ?q * inc" using assms by (simp add: zero_le_mult_iff pos_imp_zdiv_nonneg_iff)
  have "?q * inc + inc \<le> 0 \<longleftrightarrow> (?q + 1) * inc \<le> 0" by (simp add: algebra_simps)
  also have "\<dots> \<longleftrightarrow> ?q < 0" using assms by (simp add: mult_le_0_iff) linarith
  finally have n: "x < 0 \<longleftrightarrow> ?q * inc + inc \<le> 0" using assms by (simp add: neg_imp_zdiv_neg_iff pos_imp_zdiv_neg_iff)
  have l: "(?q * inc) mod inc = 0" "(?q * inc + inc) mod inc = 0" "(?q * inc) div inc = ?q" "(?q * inc + inc) div inc = ?q + 1"
    using assms by simp_all
  show thesis by (rule between [OF x r refl p n refl l])
qed

lemma round_value_correct:
  assumes "1 < inc"
  shows "rounds_to mode x inc (round_value x inc mode)"
proof (rule round_value_cases [OF assms, where x = x and mode = mode], goal_cases exact between)
  case exact
  then show ?thesis using assms by (cases mode) (simp_all add: rounds_to_def)
next
  case between: (between l r)
  have code: "round_value x inc mode =
     (case mode of
        Ceil \<Rightarrow> l + inc | Floor \<Rightarrow> l | Expand \<Rightarrow> if 0 \<le> x then l + inc else l | Trunc \<Rightarrow> if 0 \<le> x then l else l + inc
      | HalfCeil \<Rightarrow> if inc \<le> 2 * r then l + inc else l
      | HalfFloor \<Rightarrow> if inc < 2 * r then l + inc else l
      | HalfExpand \<Rightarrow> if inc < 2 * r \<or> (2 * r = inc \<and> 0 \<le> x) then l + inc else l
      | HalfTrunc \<Rightarrow> if inc < 2 * r \<or> (2 * r = inc \<and> x < 0) then l + inc else l
      | HalfEven \<Rightarrow> if (if 2 * r = inc then (x div inc) smod 2 \<noteq> 0 else inc < 2 * r) then l + inc else l)"
    using assms between(2) by (cases mode) (simp_all add: round_value_def Let_def flip: between(4) between(7))
  have "q smod 2 \<noteq> 0 \<longleftrightarrow> odd q" for q :: int
  proof -
    have "q smod 2 = 0 \<longleftrightarrow> 2 dvd q" by (auto simp: signed_modulo_int_def sgn_if abs_if)
    then show ?thesis by simp
  qed
  note S = code this
  note m = between(8,9) and x = between(1-3) and d = between(10,11)
  show ?thesis
  proof (cases "0 \<le> x")
    case True
    then have "0 \<le> l" using between(5) by simp
    then show ?thesis using True m x unfolding rounds_to_def ties_to_def S
      by (cases mode) (auto simp: S d abs_if)
  next
    case False
    then have "l + inc \<le> 0" using between(6) by simp
    then show ?thesis using False m x unfolding rounds_to_def ties_to_def S
      by (cases mode) (auto simp: S d abs_if)
  qed
qed

lemma rounds_to_not_both:
  assumes "1 < inc" "x mod inc \<noteq> 0"
  shows "\<not> (rounds_to mode x inc (x div inc * inc) \<and> rounds_to mode x inc (x div inc * inc + inc))"
proof (rule round_value_cases [OF assms(1), where x = x and mode = mode], goal_cases exact between)
  case between: (between l r)
  note x = between(1-3) and d = between(10,11)
  show ?case
  proof (cases "0 \<le> x")
    case True
    then have "0 \<le> l" using between(5) by simp
    then show ?thesis using True x unfolding rounds_to_def ties_to_def between(4) [symmetric]
      by (cases mode) (auto simp: d abs_if)
  next
    case False
    then have "l + inc \<le> 0" using between(6) by simp
    then show ?thesis using False x unfolding rounds_to_def ties_to_def between(4) [symmetric]
      by (cases mode) (auto simp: d abs_if)
  qed
qed (use assms in simp)

lemma rounds_to_near:
  "1 < inc \<Longrightarrow> rounds_to mode x inc y \<Longrightarrow> y = x div inc * inc \<or> y = x div inc * inc + inc \<and> x mod inc \<noteq> 0"
  by (intro multiple_near) (auto simp: rounds_to_def)

lemma rounds_to_unique:
  assumes "1 < inc" "rounds_to mode x inc y" "rounds_to mode x inc z"
  shows "y = z"
  using rounds_to_near [OF assms(1,2)] rounds_to_near [OF assms(1,3)] assms(2,3) rounds_to_not_both [OF assms(1), of x mode]
  by metis

lemma round_value_small: "inc \<le> 1 \<Longrightarrow> round_value x inc mode = x"
  by (simp add: round_value_def)

lemma round_value_eq:
  assumes "1 < inc" "i128_range inc"
  shows "round_to_increment x inc mode = (if round_fits mode x inc then Some (round_value x inc mode) else None)"
proof (cases "x mod inc = 0")
  case True
  then show ?thesis using assms by (simp add: round_to_increment_def round_value_def round_fits_def Let_def)
next
  case False
  have r: "0 < x mod inc" "x mod inc < inc" using False assms(1) pos_mod_sign [of inc x] pos_mod_bound [of inc x] by linarith+
  have l: "x div inc * inc = x - x mod inc" by (simp add: minus_mod_eq_div_mult)
  have half: "i128 (2 * (x mod inc)) = (if 2 * (x mod inc) < 2 ^ 127 then Some (2 * (x mod inc)) else None)"
    using r by (simp add: i128_def i128_range_def)
  have ends: "i128 (x - x mod inc) = (if - (2 ^ 127) \<le> x - x mod inc then Some (x - x mod inc) else None)"
    "i128 (x - x mod inc + inc) = (if x - x mod inc + inc < 2 ^ 127 then Some (x - x mod inc + inc) else None)"
    if "- (2 ^ 127) \<le> x - x mod inc" "x - x mod inc + inc < 2 ^ 127"
    using r that by (simp_all add: i128_def i128_range_def)
  have none: "Option.bind (i128 (x - x mod inc)) (\<lambda>l. Option.bind (i128 (l + inc)) (f l)) = None"
    if "\<not> (- (2 ^ 127) \<le> x - x mod inc \<and> x - x mod inc + inc < 2 ^ 127)" for f :: "int \<Rightarrow> int \<Rightarrow> int option"
    using r that by (auto simp: i128_def i128_range_def)
  show ?thesis
  proof (cases "- (2 ^ 127) \<le> x - x mod inc \<and> x - x mod inc + inc < 2 ^ 127")
    case True
    then show ?thesis
      using assms(1) False
      by (cases mode) (simp_all add: round_to_increment_def round_value_def round_fits_def pick_upper_def Let_def l ends half)
  next
    case out: False
    then show ?thesis
      using assms(1) False none [OF out] by (auto simp: round_to_increment_def round_fits_def Let_def l)
  qed
qed

lemma round_fits_small:
  assumes "1 < inc" "\<bar>x\<bar> \<le> 2 ^ 126" "inc \<le> 2 ^ 126"
  shows "round_fits mode x inc"
proof -
  have "0 \<le> x mod inc" "x mod inc < inc" using assms(1) by simp_all
  then have "- (2 ^ 127) \<le> x - x mod inc" "x - x mod inc + inc \<le> 2 ^ 127 + - (x mod inc)" "2 * (x mod inc) < 2 ^ 127"
    using assms(2,3) by simp_all
  then show ?thesis using \<open>0 \<le> x mod inc\<close> unfolding round_fits_def by auto
qed

lemma round_to_increment_ok:
  "0 < inc \<Longrightarrow> \<bar>x\<bar> \<le> 2 ^ 126 \<Longrightarrow> inc \<le> 2 ^ 126 \<Longrightarrow> round_to_increment x inc mode = Some (round_value x inc mode)"
  using round_value_eq [of inc x mode] round_fits_small [of inc x mode]
  by (cases "inc = 1") (auto simp: round_to_increment_def round_value_def i128_range_def)

text \<open>C33: rounding in each of the nine modes. For an increment above 1 the result of \<open>round_to_increment\<close> is the one
  multiple of the increment less than an increment away that lies in the direction of the mode, or for the half
  modes nearest, ties going the mode's way; an increment of 1 or less leaves the value. Overflow of the 128-bit
  arithmetic is the one other outcome: it panics exactly when the value is no multiple and a neighbouring multiple,
  or in a half mode twice the remainder, is out of range, and never while value and increment are at most \<open>2 ^ 126\<close>.\<close>

theorem round_to_increment_spec:
  assumes "i128_range x" "i128_range inc"
  shows "(1 < inc \<longrightarrow> (round_to_increment x inc mode = Some y \<longleftrightarrow> rounds_to mode x inc y \<and> round_fits mode x inc) \<and>
      (round_to_increment x inc mode = None \<longleftrightarrow> \<not> round_fits mode x inc)) \<and>
    (1 < inc \<and> \<bar>x\<bar> \<le> 2 ^ 126 \<and> inc \<le> 2 ^ 126 \<longrightarrow> round_fits mode x inc) \<and>
    (inc \<le> 1 \<longrightarrow> round_to_increment x inc mode = Some x)"
proof -
  have "round_to_increment x inc mode = Some y \<longleftrightarrow> rounds_to mode x inc y \<and> round_fits mode x inc" if "1 < inc"
    using round_value_eq [OF that assms(2), of x mode] round_value_correct [OF that, of mode x] rounds_to_unique [OF that, of mode x]
    by auto
  moreover have "round_to_increment x inc mode = None \<longleftrightarrow> \<not> round_fits mode x inc" if "1 < inc"
    using round_value_eq [OF that assms(2), of x mode] by simp
  ultimately show ?thesis
    using round_fits_small [of inc x mode] by (simp add: round_to_increment_def [of x inc])
qed

theorem round_to_increment_spec_witness:
  "round_to_increment (-25) 10 HalfEven = Some (-20) \<and> round_to_increment 7 1 Ceil = Some 7 \<and>
   round_to_increment (2 ^ 127 - 1) 10 Floor = None"
  using round_to_increment_spec [of "-25" 10 HalfEven "-20"] round_to_increment_spec [of 7 1 Ceil 7]
    round_to_increment_spec [of "2 ^ 127 - 1" 10 Floor 0]
  by (simp add: rounds_to_def ties_to_def round_fits_def i128_range_def)

subsection \<open>Nudging a calendar count\<close>

lemma round_multiple: "round_value (q * inc) inc mode = q * inc"
  by (simp add: round_value_def Let_def)

lemma round_window:
  assumes "0 < inc" "0 < den" "0 \<le> num" "num \<le> den" "sign = 1 \<or> sign = (-1 :: int)"
  shows "round_value (k * inc * den + sign * inc * num) (inc * den) mode \<in> {k * inc * den, (k + sign) * inc * den}"
    (is "?y \<in> _")
proof -
  let ?x = "k * inc * den + sign * inc * num" and ?m = "inc * den"
  have m: "0 < ?m" using assms by simp
  have num: "inc * num \<le> ?m" "0 \<le> inc * num" "num < den \<Longrightarrow> inc * num < ?m" using assms by (simp_all add: mult_left_mono)
  consider "num = 0" | "num = den" | "?m = 1" | "0 < num" "num < den" "1 < ?m" using assms m by linarith
  then show ?thesis
  proof cases
    case 1
    then show ?thesis using round_multiple [of k ?m mode] by (simp add: mult.assoc)
  next
    case 2
    have "?x = (k + sign) * ?m" using 2 by (simp add: algebra_simps)
    then have "?y = (k + sign) * ?m" using round_multiple by metis
    then show ?thesis by (simp add: mult.assoc)
  next
    case 3
    then have "den = 1" using assms mult_right_mono [of 1 inc den] by simp
    then have "num = 0 \<or> num = den" using assms by linarith
    then show ?thesis using 3 by (auto simp: round_value_small algebra_simps)
  next
    case 4
    have "rounds_to mode ?x ?m ?y" using 4(3) by (rule round_value_correct)
    then have near: "?y = ?x div ?m * ?m \<or> ?y = ?x div ?m * ?m + ?m" using rounds_to_near [OF 4(3)] by blast
    have pos: "0 < inc * num" using 4 assms by simp
    from assms(5) show ?thesis
    proof
      assume s: "sign = 1"
      have "?x div ?m = k" by (rule int_div_pos_eq [where r = "inc * num"]) (use s num 4 in \<open>simp_all add: algebra_simps\<close>)
      then have "?y = k * ?m \<or> ?y = k * ?m + ?m" using near by (simp only:)
      then show ?thesis using s by (auto simp: algebra_simps)
    next
      assume s: "sign = -1"
      have "?x div ?m = k - 1"
        by (rule int_div_pos_eq [where r = "?m - inc * num"]) (use s num pos 4 in \<open>simp_all add: algebra_simps\<close>)
      then have "?y = (k - 1) * ?m \<or> ?y = (k - 1) * ?m + ?m" using near by (simp only:)
      then show ?thesis using s by (auto simp: algebra_simps)
    qed
  qed
qed

lemma rounds_to_exact: "0 < m \<Longrightarrow> x mod m = 0 \<Longrightarrow> rounds_to mode x m x"
  by (cases mode) (simp_all add: rounds_to_def)

lemma round_value_rounds: "0 < m \<Longrightarrow> rounds_to mode x m (round_value x m mode)"
  using round_value_correct [of m mode x] rounds_to_exact [of 1 x mode]
  by (cases "m = 1") (auto simp: round_value_small)

definition in_window :: "int \<Rightarrow> int \<Rightarrow> int \<Rightarrow> int \<Rightarrow> bool" where
  "in_window sign e1 e2 dest = (if 0 < sign then e1 \<le> dest \<and> dest \<le> e2 else e2 \<le> dest \<and> dest \<le> e1)"

text \<open>The count rounded in a window: the end of it that the mode asks for, from how far the destination is through
  the window; all scaled by the window's length.\<close>

definition nudged :: "round_mode \<Rightarrow> int \<Rightarrow> int \<Rightarrow> int \<Rightarrow> int \<Rightarrow> int \<Rightarrow> int \<Rightarrow> int \<Rightarrow> bool" where
  "nudged mode sign inc dest r1 e1 e2 n =
     ((n = r1 \<or> n = r1 + inc * sign) \<and> (dest = e1 \<longrightarrow> n = r1) \<and> (dest = e2 \<and> e2 \<noteq> e1 \<longrightarrow> n = r1 + inc * sign) \<and>
      (e1 \<noteq> e2 \<longrightarrow> rounds_to mode (r1 * \<bar>e2 - e1\<bar> + sign * inc * \<bar>dest - e1\<bar>) (inc * \<bar>e2 - e1\<bar>) (n * \<bar>e2 - e1\<bar>)))"

lemma abs_mult_le: "\<bar>a\<bar> \<le> 2 ^ i \<Longrightarrow> \<bar>b\<bar> \<le> 2 ^ j \<Longrightarrow> \<bar>a * b :: int\<bar> \<le> 2 ^ (i + j)"
  by (simp add: abs_mult power_add mult_mono)

lemma i128_small: "\<bar>x\<bar> \<le> 2 ^ 126 \<Longrightarrow> i128 x = Some x"
  by (simp add: i128_def i128_range_def abs_le_iff)

lemma i64_small: "\<bar>x\<bar> \<le> 2 ^ 62 \<Longrightarrow> i64 x = Some x"
  by (simp add: i64_def abs_le_iff)

lemma nudge_in_code:
  assumes "sign = 1 \<or> sign = -1" "0 < inc" "inc \<le> 2 ^ 40" "\<bar>r1\<bar> \<le> 2 ^ 42" "\<bar>e1\<bar> \<le> 2 ^ 74" "\<bar>e2\<bar> \<le> 2 ^ 74" "\<bar>dest\<bar> \<le> 2 ^ 74"
    and den: "den = max \<bar>e2 - e1\<bar> 1" and num: "num = \<bar>dest - e1\<bar>"
    and y: "y = round_value (r1 * den + sign * inc * num) (inc * den) mode" and "dest \<noteq> e1"
  shows "nudge_in sign inc mode dest r1 e1 e2 shifted =
    Some (as_i64 (y sdiv den), as_i64 (y sdiv den) \<noteq> r1 \<or> shifted)"
proof -
  have d: "\<bar>e2 - e1\<bar> \<le> 2 ^ 75" "num \<le> 2 ^ 75" "0 \<le> num" using assms(5-7) by (auto simp: num)
  have dn: "0 < den" "den \<le> 2 ^ 75" using d by (auto simp: den)
  have "\<bar>r1 * den\<bar> \<le> 2 ^ (42 + 75)" using assms(4) dn by (intro abs_mult_le) simp_all
  moreover have si: "\<bar>sign * inc\<bar> \<le> 2 ^ 40" using assms(1-3) by auto
  then have "\<bar>sign * inc * num\<bar> \<le> 2 ^ (40 + 75)" using d by (intro abs_mult_le) simp_all
  moreover have "\<bar>inc * den\<bar> \<le> 2 ^ (40 + 75)" using assms(2,3) dn by (intro abs_mult_le) simp_all
  ultimately have b: "\<bar>r1 * den\<bar> \<le> 2 ^ 118" "\<bar>sign * inc * num\<bar> \<le> 2 ^ 118" "\<bar>inc * den\<bar> \<le> 2 ^ 118" by simp_all
  then have x: "\<bar>r1 * den + sign * inc * num\<bar> \<le> 2 ^ 119" by simp
  have "0 < inc * den" using assms(2) dn by simp
  then have "round_to_increment (r1 * den + sign * inc * num) (inc * den) mode = Some y"
    unfolding y using b x by (intro round_to_increment_ok) simp_all
  moreover have "i128 (e2 - e1) = Some (e2 - e1)" "i128 \<bar>e2 - e1\<bar> = Some \<bar>e2 - e1\<bar>" "i128 (dest - e1) = Some (dest - e1)"
    "i128 \<bar>dest - e1\<bar> = Some num" "i128 (r1 * den) = Some (r1 * den)" "i128 (sign * inc) = Some (sign * inc)"
    "i128 (sign * inc * num) = Some (sign * inc * num)" "i128 (inc * den) = Some (inc * den)"
    "i128 (r1 * den + sign * inc * num) = Some (r1 * den + sign * inc * num)"
    using d b x si by (simp_all add: i128_small num)
  ultimately show ?thesis
    using \<open>dest \<noteq> e1\<close> by (simp add: nudge_in_def Let_def flip: den)
qed

lemma nudge_in_window:
  assumes w: "in_window sign e1 e2 dest" and sign: "sign = 1 \<or> sign = -1" and inc: "0 < inc" "inc \<le> 2 ^ 40"
    and r: "r1 = k * inc" "\<bar>r1\<bar> \<le> 2 ^ 42" and e: "\<bar>e1\<bar> \<le> 2 ^ 74" "\<bar>e2\<bar> \<le> 2 ^ 74" "\<bar>dest\<bar> \<le> 2 ^ 74"
  shows "\<exists>n. nudge_in sign inc mode dest r1 e1 e2 shifted = Some (n, n \<noteq> r1 \<or> shifted) \<and> nudged mode sign inc dest r1 e1 e2 n"
proof (cases "dest = e1")
  case True
  have "rounds_to mode (r1 * \<bar>e2 - e1\<bar>) (inc * \<bar>e2 - e1\<bar>) (r1 * \<bar>e2 - e1\<bar>)" if "e1 \<noteq> e2"
    using that inc by (intro rounds_to_exact) (simp_all add: r(1) mult.assoc)
  then show ?thesis using True by (auto simp: nudge_in_def nudged_def)
next
  case False
  define den num where "den = max \<bar>e2 - e1\<bar> 1" and "num = \<bar>dest - e1\<bar>"
  have ne: "e1 \<noteq> e2" using w False by (auto simp: in_window_def split: if_splits)
  have d: "0 < den" "0 \<le> num" "num \<le> den" "dest = e2 \<Longrightarrow> num = den" "den = \<bar>e2 - e1\<bar>"
    using w sign False ne by (auto simp: den_def num_def in_window_def split: if_splits)
  define y where "y = round_value (r1 * den + sign * inc * num) (inc * den) mode"
  note code = nudge_in_code [OF sign inc r(2) e den_def num_def y_def False]
  have y: "y = k * inc * den \<or> y = (k + sign) * inc * den"
    using round_window [OF inc(1) d(1-3) sign, of k mode] r(1) by (simp add: y_def mult.assoc)
  have y2: "dest = e2 \<Longrightarrow> y = (k + sign) * inc * den"
    using round_multiple [of "k + sign" "inc * den" mode] d(4) r(1) by (simp add: y_def algebra_simps)
  have q: "(a * den) sdiv den = a" for a
    using d(1) nonzero_mult_div_cancel_right [of den "- a"] by (simp add: signed_divide_int_def sgn_mult abs_mult abs_if sgn_if)
  have ks: "(k + sign) * inc = r1 + inc * sign" using r(1) by (simp add: algebra_simps)
  have n: "y sdiv den = r1 \<or> y sdiv den = r1 + inc * sign" "dest = e2 \<Longrightarrow> y sdiv den = r1 + inc * sign" "y sdiv den * den = y"
    using y y2 r(1) ks q by auto
  have "\<bar>y sdiv den\<bar> < 2 ^ 63" using n(1) r(2) sign inc by auto
  then have i: "as_i64 (y sdiv den) = y sdiv den" by (intro as_i64_id) (simp_all add: abs_less_iff)
  have "rounds_to mode (r1 * den + sign * inc * num) (inc * den) y"
    unfolding y_def using inc(1) d(1) by (intro round_value_rounds) simp
  then have "nudged mode sign inc dest r1 e1 e2 (y sdiv den)"
    using n False by (simp add: nudged_def num_def flip: d(5))
  then show ?thesis using code unfolding i by blast
qed

lemma nudge_loop_steps:
  assumes "\<bar>r1\<bar> \<le> 2 ^ 42" "0 < inc" "inc \<le> 2 ^ 40" "sign = 1 \<or> sign = -1"
  shows "nudge_loop sign inc mode dest epoch_of r1 =
      (case (epoch_of r1, epoch_of (r1 + inc * sign)) of
         (Some e1, Some e2) \<Rightarrow>
           if in_window sign e1 e2 dest then map_option Some (nudge_in sign inc mode dest r1 e1 e2 False)
           else nudge_shifted sign inc mode dest epoch_of (r1 + inc * sign)
       | _ \<Rightarrow> Some None)"
    "nudge_shifted sign inc mode dest epoch_of r1 =
      (case (epoch_of r1, epoch_of (r1 + inc * sign)) of
         (Some e1, Some e2) \<Rightarrow> map_option Some (nudge_in sign inc mode dest r1 e1 e2 True)
       | _ \<Rightarrow> Some None)"
proof -
  have "\<bar>inc * sign\<bar> \<le> 2 ^ 40" using assms by auto
  then have "i64 (inc * sign) = Some (inc * sign)" "i64 (r1 + inc * sign) = Some (r1 + inc * sign)"
    using assms(1) by (simp_all add: i64_small)
  then show "nudge_loop sign inc mode dest epoch_of r1 =
      (case (epoch_of r1, epoch_of (r1 + inc * sign)) of
         (Some e1, Some e2) \<Rightarrow>
           if in_window sign e1 e2 dest then map_option Some (nudge_in sign inc mode dest r1 e1 e2 False)
           else nudge_shifted sign inc mode dest epoch_of (r1 + inc * sign)
       | _ \<Rightarrow> Some None)"
    "nudge_shifted sign inc mode dest epoch_of r1 =
      (case (epoch_of r1, epoch_of (r1 + inc * sign)) of
         (Some e1, Some e2) \<Rightarrow> map_option Some (nudge_in sign inc mode dest r1 e1 e2 True)
       | _ \<Rightarrow> Some None)"
    by (simp_all add: nudge_loop_def nudge_shifted_def in_window_def split: option.split)
qed

text \<open>C37: the rounded count of \<open>nudge_calendar_count\<close> is an end of the window that holds the destination, the one the
  rounding mode asks for from how far the destination is through the window: the window of the truncated count, or,
  when the destination lies past it, the next one, and then the count is reported as expanded. A destination on an end
  yields that end; when an end needed is unrepresentable there is no count. For instants below \<open>2 ^ 74\<close> (the supported
  ones are below \<open>2 ^ 73\<close>) and counts and increments up to \<open>2 ^ 40\<close> no 64-bit or 128-bit computation overflows,
  wherever the destination lies.\<close>

theorem nudge_calendar_count_window:
  assumes sign: "sign = 1 \<or> sign = -1" and inc: "inc = max increment 1" "inc \<le> 2 ^ 40"
    and r: "\<bar>r\<bar> \<le> 2 ^ 40" "r1 = (r sdiv inc) * inc" "r2 = r1 + inc * sign" "r3 = r2 + inc * sign"
    and dest: "\<bar>dest\<bar> \<le> 2 ^ 74" and epochs: "\<forall>n e. epoch_of n = Some e \<longrightarrow> \<bar>e\<bar> \<le> 2 ^ 74"
  shows "\<exists>res. nudge_calendar_count r sign increment mode dest epoch_of = Some res \<and>
    (case (epoch_of r1, epoch_of r2) of
       (Some e1, Some e2) \<Rightarrow>
         (in_window sign e1 e2 dest \<longrightarrow> (\<exists>n. res = Some (n, n \<noteq> r1) \<and> nudged mode sign inc dest r1 e1 e2 n)) \<and>
         (\<not> in_window sign e1 e2 dest \<longrightarrow> (case epoch_of r3 of
            None \<Rightarrow> res = None
          | Some e3 \<Rightarrow> in_window sign e2 e3 dest \<longrightarrow> (\<exists>n. res = Some (n, True) \<and> nudged mode sign inc dest r2 e2 e3 n)))
     | _ \<Rightarrow> res = None)"
proof -
  note e = dest epochs [rule_format]
  have i: "0 < inc" using inc(1) by simp
  have "\<bar>r1\<bar> = \<bar>r\<bar> div inc * inc"
    using i unfolding r(2) by (simp add: signed_divide_int_def abs_mult sgn_if pos_imp_zdiv_nonneg_iff)
  also have "\<dots> \<le> \<bar>r\<bar>" using i by (simp add: minus_mod_eq_div_mult [symmetric])
  finally have r1: "\<bar>r1\<bar> \<le> 2 ^ 40" using r(1) by simp
  have r2: "\<bar>r2\<bar> \<le> 2 ^ 41" using r1 sign i inc(2) unfolding r(3) by auto
  have mult: "r1 = (r sdiv inc) * inc" "r2 = (r sdiv inc + sign) * inc" using r(2,3) by (simp_all add: algebra_simps)
  have code: "nudge_calendar_count r sign increment mode dest epoch_of = nudge_loop sign inc mode dest epoch_of r1"
    using r1 inc(1) by (simp add: nudge_calendar_count_def Let_def i64_small flip: r(2) inc(1))
  have b: "\<bar>r1\<bar> \<le> 2 ^ 42" "\<bar>r2\<bar> \<le> 2 ^ 42" using r1 r2 by simp_all
  note loop = nudge_loop_steps(1) [OF b(1) i inc(2) sign, of mode dest epoch_of, folded r(3)]
    nudge_loop_steps(2) [OF b(2) i inc(2) sign, of mode dest epoch_of, folded r(4)]
  show ?thesis
  proof (cases "epoch_of r1")
    case (Some e1)
    note e1 = this
    show ?thesis
    proof (cases "epoch_of r2")
      case (Some e2)
      note e2 = this
      show ?thesis
      proof (cases "in_window sign e1 e2 dest")
        case True
        then show ?thesis
          using nudge_in_window [OF True sign i inc(2) mult(1) b(1) e(2) [OF e1] e(2) [OF e2] e(1), of mode False]
          by (auto simp: code loop e1 e2)
      next
        case out: False
        show ?thesis
        proof (cases "epoch_of r3")
          case (Some e3)
          have "\<exists>p. nudge_in sign inc mode dest r2 e2 e3 True = Some p"
          proof (cases "dest = e2")
            case False
            show ?thesis
              using nudge_in_code [OF sign i inc(2) b(2) e(2) [OF e2] e(2) [OF Some] e(1) refl refl refl False] by blast
          qed (auto simp: nudge_in_def)
          then show ?thesis
            using nudge_in_window [OF _ sign i inc(2) mult(2) b(2) e(2) [OF e2] e(2) [OF Some] e(1), of mode True] out
            by (auto simp: code loop e1 e2 Some)
        qed (use out in \<open>simp add: code loop e1 e2\<close>)
      qed
    qed (simp add: code loop e1)
  qed (simp add: code loop)
qed

theorem nudge_calendar_count_window_witness:
  "nudge_calendar_count 1 (-1) 2 HalfExpand 55 (\<lambda>k. if \<bar>k\<bar> \<le> 10 then Some (100 + 30 * k) else None) = Some (Some (-2, True))"
proof -
  let ?f = "\<lambda>k. if \<bar>k\<bar> \<le> 10 then Some (100 + 30 * k) else None :: int option"
  have e: "\<forall>n e. ?f n = Some e \<longrightarrow> \<bar>e\<bar> \<le> 2 ^ 74" by (auto split: if_splits)
  have "\<exists>n. nudge_calendar_count 1 (-1) 2 HalfExpand 55 ?f = Some (Some (n, n \<noteq> 0)) \<and> nudged HalfExpand (-1) 2 55 0 100 40 n"
    using nudge_calendar_count_window [of "-1" 2 2 1 0 "-2" "-4" 55 ?f HalfExpand] e
    by (auto simp: in_window_def signed_divide_int_def)
  moreover have "nudged HalfExpand (-1) 2 55 0 100 40 n \<Longrightarrow> n = -2" for n
    by (auto simp: nudged_def rounds_to_def ties_to_def)
  ultimately show ?thesis by fastforce
qed

end
