(* ===== verification/TemporalWeek.thy ===== *)
theory TemporalWeek
  imports TemporalDays
begin

text \<open>
  Days and weeks of the year. The ISO week of \<open>iso_week_of_year\<close> is compared with its definition: a week
  belongs to the year that holds its Thursday.
\<close>

subsection \<open>Days and weeks of the year\<close>

definition jan1 :: "int \<Rightarrow> int" where "jan1 y = iso_to_epoch_days \<lparr>year = y, month = 1, day = 1\<rparr>"

lemma jan1_eq: "jan1 y = year_days (y - 1) - 719162"
  by (simp add: jan1_def epoch_days_eq march_year_def march_day_def march_month_def)

lemma jan1_Suc: "jan1 (y + 1) = jan1 y + iso_days_in_year y"
  using year_days_Suc [of "y - 1"] by (simp add: jan1_eq)

lemma year_length: "365 \<le> iso_days_in_year y" "iso_days_in_year y \<le> 366"
  by (simp_all add: iso_days_in_year_def)

lemma jan1_bounds:
  assumes "valid_date d"
  shows "jan1 (year d) \<le> iso_to_epoch_days d" "iso_to_epoch_days d < jan1 (year d + 1)"
proof -
  let ?a = "\<lparr>year = year d, month = 1, day = 1\<rparr>" and ?b = "\<lparr>year = year d + 1, month = 1, day = 1\<rparr>"
  have v: "valid_date ?a" "valid_date ?b" by (simp_all add: valid_date_def iso_days_in_month_def)
  have "compare_iso_date d ?a \<noteq> Less" "compare_iso_date d ?b = Less"
    using assms by (auto simp: compare_iso_date_Less valid_date_def)
  then show "jan1 (year d) \<le> iso_to_epoch_days d" "iso_to_epoch_days d < jan1 (year d + 1)"
    unfolding compare_iso_date_eq [OF assms v(1)] compare_iso_date_eq [OF assms v(2)]
    by (auto simp: cmp_def jan1_def split: if_splits)
qed

lemma year_of_days:
  assumes "valid_date d" "jan1 y \<le> iso_to_epoch_days d" "iso_to_epoch_days d < jan1 (y + 1)"
  shows "year d = y"
proof (rule ccontr)
  note b = jan1_bounds [OF assms(1)]
  have mono: "u \<le> v \<Longrightarrow> jan1 u \<le> jan1 v" for u v by (simp add: jan1_eq year_days_mono)
  assume "year d \<noteq> y"
  then consider "year d + 1 \<le> y" | "y + 1 \<le> year d" by linarith
  then show False using b assms(2,3) mono by cases fastforce+
qed

lemma day_of_year_eq:
  assumes "valid_date d"
  shows "iso_day_of_year d = iso_to_epoch_days d - jan1 (year d) + 1"
  using jan1_bounds [OF assms] year_length [of "year d"]
  by (simp add: iso_day_of_year_def jan1_Suc flip: jan1_def) (simp add: as_u16_id)

lemma day_of_week_eq: "iso_day_of_week d = (iso_to_epoch_days d + 3) mod 7 + 1"
  using pos_mod_bound [of 7 "iso_to_epoch_days d + 3"] pos_mod_sign [of 7 "iso_to_epoch_days d + 3"]
  unfolding iso_day_of_week_def by (intro as_u8_id) auto

text \<open>The ISO week by its definition: the year that holds the Thursday, and the Thursdays counted in it.\<close>

definition thursday :: "iso_date \<Rightarrow> int" where
  "thursday d = iso_to_epoch_days d - (iso_to_epoch_days d + 3) mod 7 + 3"

definition week_spec :: "iso_date \<Rightarrow> int \<times> int" where
  "week_spec d = (let t = epoch_days_to_iso (thursday d) in ((thursday d - jan1 (year t)) div 7 + 1, year t))"

lemma thursday_mod: "thursday d mod 7 = 0"
proof -
  let ?x = "iso_to_epoch_days d + 3"
  have "thursday d = 7 * (?x div 7)" using mult_div_mod_eq [of 7 ?x] unfolding thursday_def by linarith
  then show ?thesis by simp
qed

lemma long_year:
  assumes "0 \<le> y"
  shows "is_iso_long_year y \<longleftrightarrow> jan1 (y + 1) mod 7 = 1 \<or> jan1 y mod 7 = 0"
proof -
  have p: "(y + y sdiv 4 - y sdiv 100 + y sdiv 400) smod 7 = (jan1 (y + 1) + 3) mod 7" if "0 \<le> y" for y
  proof -
    have "y + y div 4 - y div 100 + y div 400 = jan1 (y + 1) + 3 + (102737 - 52 * y) * 7"
      by (simp add: jan1_eq year_days_def)
    moreover have "0 \<le> y + y div 4 - y div 100 + y div 400"
      using that zdiv_mono2 [of y 4 100] by simp
    moreover have "(jan1 (y + 1) + 3 + (102737 - 52 * y) * 7) mod 7 = (jan1 (y + 1) + 3) mod 7" by (rule mod_mult_self1)
    ultimately show ?thesis using that by (simp only: sdiv_pos smod_pos zero_less_numeral)
  qed
  have m: "(x + 3) mod 7 = 4 \<longleftrightarrow> x mod 7 = 1" "(x + 3) mod 7 = 3 \<longleftrightarrow> x mod 7 = 0" for x :: int by presburger+
  show ?thesis
  proof (cases "y = 0")
    case True
    have "jan1 1 = -719162" "jan1 0 = -719528" by (simp_all add: jan1_eq year_days_def)
    then show ?thesis using True by (simp add: is_iso_long_year_def signed_divide_int_def signed_modulo_int_def)
  next
    case False
    then have "0 \<le> y - 1" using assms by simp
    then show ?thesis using p [OF assms] p [of "y - 1"] m unfolding is_iso_long_year_def Let_def by simp
  qed
qed

lemma year_of_epoch_days:
  assumes "\<bar>z\<bar> \<le> 780000000000" "jan1 y \<le> z" "z < jan1 (y + 1)"
  shows "year (epoch_days_to_iso z) = y"
  using year_of_days epoch_days_surj [OF assms(1)] assms(2,3) by simp

text \<open>The last Thursday before January 1st, with \<open>l\<close> days in the year before it.\<close>

lemma last_thursday:
  assumes "a = 1 \<or> a = 2 \<or> a = 3" "365 \<le> l" "l \<le> 366" "J = 7 * t + a" "J' = J - (l :: int)"
  shows "(J mod 7 = 1 \<or> J' mod 7 = 0) \<longleftrightarrow> (7 * t - J') div 7 = 52"
    "(7 * t - J') div 7 = 51 \<or> (7 * t - J') div 7 = 52" "(7 * t - J) div 7 < 0"
proof -
  have J': "J' = 7 * (t - 53) + (371 + a - l)" using assms by simp
  have m: "J mod 7 = a mod 7" "J' mod 7 = (371 + a - l) mod 7" unfolding J' assms(4) by (rule mod_mult_self4)+
  have d: "7 * t - J' = l - a" "7 * t - J = - a" using assms by simp_all
  have "l = 365 \<or> l = 366" using assms by linarith
  then show "(J mod 7 = 1 \<or> J' mod 7 = 0) \<longleftrightarrow> (7 * t - J') div 7 = 52"
    "(7 * t - J') div 7 = 51 \<or> (7 * t - J') div 7 = 52" "(7 * t - J) div 7 < 0"
    using assms(1) unfolding m d by auto
qed

text \<open>A Thursday in the first days of the next year, with \<open>l\<close> days in this one.\<close>

lemma next_thursday:
  assumes "a = 0 \<or> a = 1 \<or> a = 2" "365 \<le> l" "l \<le> 366" "J' = 7 * t - a" "J' = J + (l :: int)"
  shows "J' mod 7 \<noteq> 1" "J mod 7 \<noteq> 0" "(7 * t - J) div 7 = 52"
proof -
  have J: "J = 7 * (t - 54) + (378 - a - l)" "J' = 7 * (t - 1) + (7 - a)" using assms by simp_all
  have m: "J' mod 7 = (7 - a) mod 7" "J mod 7 = (378 - a - l) mod 7" unfolding J by (rule mod_mult_self4)+
  have d: "7 * t - J = l + a" using assms by simp
  have "l = 365 \<or> l = 366" using assms by linarith
  then show "J' mod 7 \<noteq> 1" "J mod 7 \<noteq> 0" "(7 * t - J) div 7 = 52" using assms(1) unfolding m d by auto
qed

lemma week_of_year_eq:
  assumes d: "valid_date d" "iso_date_in_range d" "1 \<le> year d"
  shows "iso_week_of_year d = week_spec d"
proof -
  define D T y where "D = iso_to_epoch_days d" and "T = thursday d" and "y = year d"
  note b = jan1_bounds [OF d(1), folded D_def y_def]
  have T: "T mod 7 = 0" "T - 3 \<le> D" "D \<le> T + 3"
    using thursday_mod pos_mod_bound [of 7 "D + 3"] pos_mod_sign [of 7 "D + 3"]
    unfolding T_def thursday_def D_def by simp_all
  have rng: "\<bar>T\<bar> \<le> 780000000000"
    using d(2) T unfolding abs_le_iff by (simp add: iso_date_in_range_def Let_def MIN_EPOCH_DAYS_def MAX_EPOCH_DAYS_def flip: D_def)
  have "0 \<le> T - jan1 y + 7" using b T by simp
  moreover have "iso_day_of_year d - iso_day_of_week d + 10 = T - jan1 y + 7"
    using d(1) by (simp add: day_of_year_eq day_of_week_eq T_def thursday_def y_def)
  ultimately have week: "(iso_day_of_year d - iso_day_of_week d + 10) sdiv 7 = (T - jan1 y) div 7 + 1"
    using sdiv_pos [of "T - jan1 y + 7" 7] by (simp only: div_add_self2)
  have L: "jan1 (y + 1) = jan1 y + iso_days_in_year y" "jan1 y = jan1 (y - 1) + iso_days_in_year (y - 1)"
    using jan1_Suc [of y] jan1_Suc [of "y - 1"] by simp_all
  obtain t where t: "T = 7 * t" using T(1) by (metis mod_eq_0_iff_dvd dvdE)
  note spec = week_spec_def [of d, folded T_def, unfolded Let_def]
  note code = iso_week_of_year_def [of d, unfolded Let_def week, folded y_def]
  consider "T < jan1 y" | "jan1 y \<le> T" "T < jan1 (y + 1)" | "jan1 (y + 1) \<le> T" by linarith
  then show ?thesis
  proof cases
    case 1
    then have Y: "year (epoch_days_to_iso T) = y - 1"
      using rng T b L year_length [of "y - 1"] by (intro year_of_epoch_days) auto
    have "jan1 y - T = 1 \<or> jan1 y - T = 2 \<or> jan1 y - T = 3" using 1 T b by linarith
    then have "is_iso_long_year (y - 1) \<longleftrightarrow> (T - jan1 (y - 1)) div 7 = 52"
      "(T - jan1 (y - 1)) div 7 = 51 \<or> (T - jan1 (y - 1)) div 7 = 52" "(T - jan1 y) div 7 + 1 < 1"
      using long_year [of "y - 1"] d(3) last_thursday [of "jan1 y - T" "iso_days_in_year (y - 1)" "jan1 y" t "jan1 (y - 1)"]
        L(2) t year_length [of "y - 1"] by (simp_all add: y_def)
    then show ?thesis unfolding spec code Y by (auto simp: as_u8_id)
  next
    case 2
    then have "year (epoch_days_to_iso T) = y" using rng by (intro year_of_epoch_days) auto
    then have Y: "year (epoch_days_to_iso T) = y" .
    have len: "iso_days_in_year y = 365 \<or> iso_days_in_year y = 366" by (simp add: iso_days_in_year_def)
    have w: "0 \<le> (T - jan1 y) div 7" "(T - jan1 y) div 7 \<le> 52" using 2 L len by auto
    have "is_iso_long_year y" if "(T - jan1 y) div 7 = 52"
    proof -
      have "T - jan1 y = 364 \<or> T - jan1 y = 365 \<and> iso_days_in_year y = 366"
        using that 2 L len by (auto simp: int_div_eq_iff)
      then have "jan1 y = 7 * (t - 52) \<or> jan1 (y + 1) = 7 * t + 1" using L(1) t by auto
      then have "jan1 (y + 1) mod 7 = 1 \<or> jan1 y mod 7 = 0" by auto
      then show ?thesis using long_year [of y] d(3) by (simp add: y_def)
    qed
    then show ?thesis unfolding spec code Y using w by (auto simp: as_u8_id)
  next
    case 3
    have Y: "year (epoch_days_to_iso T) = y + 1"
      using rng T b 3 jan1_Suc [of "y + 1"] year_length [of "y + 1"] by (intro year_of_epoch_days) auto
    have a: "T - jan1 (y + 1) = 0 \<or> T - jan1 (y + 1) = 1 \<or> T - jan1 (y + 1) = 2" using 3 T b by linarith
    then have "\<not> is_iso_long_year y" "(T - jan1 y) div 7 = 52"
      using long_year [of y] d(3) next_thursday [of "T - jan1 (y + 1)" "iso_days_in_year y" "jan1 (y + 1)" t "jan1 y"]
        L(1) t year_length [of y] by (simp_all add: y_def)
    then show ?thesis unfolding spec code Y using a by auto
  qed
qed

text \<open>The truncating remainder makes no year before year 1 a long one.\<close>

lemma no_long_year: "y \<le> 0 \<Longrightarrow> \<not> is_iso_long_year y"
proof -
  assume y: "y \<le> 0"
  have "(x + x sdiv 4 - x sdiv 100 + x sdiv 400) smod 7 \<le> 0" if "x \<le> 0" for x :: int
  proof -
    have "x sdiv k = - (- x div k)" if "0 < k" for k :: int
      using that \<open>x \<le> 0\<close> by (cases "x = 0") (auto simp: signed_divide_int_def)
    then have "x + x sdiv 4 - x sdiv 100 + x sdiv 400 \<le> 0"
      using that zdiv_mono2 [of "- x" 4 100] by simp
    then show ?thesis by (auto simp: signed_modulo_int_def sgn_if abs_if)
  qed
  from this [of y] this [of "y - 1"] y show ?thesis by (simp add: is_iso_long_year_def Let_def)
qed


text \<open>C36: for every valid date of the years 1 and later in the supported range, \<open>iso_week_of_year\<close> is the week of
  the ISO definition: the year of the week's Thursday, and the number of Thursdays of that year up to it.\<close>

theorem iso_week_of_year_correct:
  assumes "valid_date d" "iso_date_in_range d" "1 \<le> year d"
  shows "iso_week_of_year d = week_spec d"
  using assms by (rule week_of_year_eq)

theorem iso_week_of_year_correct_witness:
  "iso_week_of_year \<lparr>year = 2027, month = 1, day = 1\<rparr> = week_spec \<lparr>year = 2027, month = 1, day = 1\<rparr> \<and>
   iso_week_of_year \<lparr>year = 2027, month = 1, day = 1\<rparr> = (53, 2026)"
  using iso_week_of_year_correct [of "\<lparr>year = 2027, month = 1, day = 1\<rparr>"]
  by (simp add: valid_date_def iso_days_in_month_def iso_date_in_range_def MIN_EPOCH_DAYS_def MAX_EPOCH_DAYS_def) code_simp

text \<open>Before year 1 the weeks are wrong. The truncating remainder of \<open>is_iso_long_year\<close> finds no year up to 0
  to be long; the year -2 begins on a Thursday and has 53 weeks, but its last day is reported in week 1 of the
  year -1 and the first day of the year -1 in week 52 of the year -2.\<close>

lemma iso_week_of_year_negative_years:
  "(y \<le> 0 \<longrightarrow> \<not> is_iso_long_year y) \<and>
   week_spec \<lparr>year = -2, month = 12, day = 31\<rparr> = (53, -2) \<and>
   iso_week_of_year \<lparr>year = -2, month = 12, day = 31\<rparr> = (1, -1) \<and>
   week_spec \<lparr>year = -1, month = 1, day = 1\<rparr> = (53, -2) \<and>
   iso_week_of_year \<lparr>year = -1, month = 1, day = 1\<rparr> = (52, -2)"
  by (intro conjI impI, erule no_long_year) code_simp+

theorem iso_week_of_year_negative_years_witness: "\<not> is_iso_long_year (-2)"
  using iso_week_of_year_negative_years [of "-2"] by simp

end
