(* ===== verification/TemporalDifference.thy ===== *)
theory TemporalDifference
  imports TemporalWeek
begin

text \<open>
  Adding to dates and the difference of dates. A date is compared through \<open>date_key\<close>, which is linear in the year and
  month, so that the search loops stop at a computable bound.
\<close>

subsection \<open>The search loops\<close>

lemma most_back_returns:
  assumes "\<not> surp 0" "sign \<noteq> (0 :: int)"
  shows "\<exists>j \<le> k. most_back sign surp (sign * int k) = Some (sign * int j) \<and> \<not> surp (sign * int j)"
proof (induction k)
  case 0
  then show ?case using assms(1) by (simp add: most_back.simps [of sign surp 0])
next
  case (Suc k)
  have "sign * int (Suc k) - sign = sign * int k" by (simp add: algebra_simps)
  then show ?case
    using Suc most_back.simps [of sign surp "sign * int (Suc k)"] assms(2)
    by (cases "surp (sign * int (Suc k))") (auto intro: le_SucI)
qed

lemma most_ahead_returns:
  assumes "surp (sign * int K)" "j < K"
  shows "\<exists>i < K. most_ahead sign surp (sign * int j) = Some (sign * int i) \<and> j \<le> i \<and> surp (sign * int (Suc i)) \<and>
    (i = j \<or> \<not> surp (sign * int i))"
  using assms(2)
proof (induction "K - j" arbitrary: j)
  case (Suc m)
  have e: "sign * int j + sign = sign * int (Suc j)" by (simp add: algebra_simps)
  show ?case
  proof (cases "surp (sign * int (Suc j))")
    case True
    then show ?thesis using Suc.prems most_ahead.simps [of sign surp "sign * int j"] by (auto simp: e)
  next
    case False
    then have "Suc j < K" using assms(1) Suc.prems by (metis Suc_lessI)
    moreover from this have "m = K - Suc j" using Suc.hyps(2) by simp
    ultimately obtain i where "i < K" "most_ahead sign surp (sign * int (Suc j)) = Some (sign * int i)" "Suc j \<le> i"
      "surp (sign * int (Suc i))" "i = Suc j \<or> \<not> surp (sign * int i)"
      using Suc.hyps(1) by blast
    then show ?thesis using False most_ahead.simps [of sign surp "sign * int j"] by (auto simp: e intro!: exI [of _ i])
  qed
qed simp

lemma most_returns:
  assumes sign: "sign = 1 \<or> sign = (-1 :: int)" and "\<not> surp 0" "surp (sign * int K)" "estimate * sign \<le> int K"
  obtains i where "i < K" "most sign estimate surp = Some (sign * int i)" "\<not> surp (sign * int i)" "surp (sign * int (Suc i))"
proof -
  let ?n = "if 0 < estimate * sign then estimate else 0" and ?k = "nat (estimate * sign)"
  have n: "?n = sign * int ?k" using sign by auto
  obtain j where j: "j \<le> ?k" "most_back sign surp ?n = Some (sign * int j)" "\<not> surp (sign * int j)"
    using most_back_returns [of surp sign ?k] assms sign unfolding n by auto
  have "j \<le> K" using j(1) assms(4) by simp
  then have "j < K" using j(3) assms(3) by (metis le_neq_implies_less)
  then obtain i where "i < K" "most_ahead sign surp (sign * int j) = Some (sign * int i)" "surp (sign * int (Suc i))"
    "i = j \<or> \<not> surp (sign * int i)" using most_ahead_returns [of surp sign K j] assms(3) by blast
  moreover from this have "most sign estimate surp = Some (sign * int i)" using j(2) by (simp add: most_def)
  ultimately show thesis using j(3) that by blast
qed

subsection \<open>Dates by year, month and day\<close>

definition date_key :: "int \<Rightarrow> int \<Rightarrow> int \<Rightarrow> int" where
  "date_key y m d = 384 * y + 32 * m + d"

definition key :: "iso_date \<Rightarrow> int" where "key a = date_key (year a) (month a) (day a)"

lemma valid_dateD: "valid_date a \<Longrightarrow> 1 \<le> month a" "valid_date a \<Longrightarrow> month a \<le> 12" "valid_date a \<Longrightarrow> 1 \<le> day a"
  "valid_date a \<Longrightarrow> day a \<le> 31"
  using valid_date_cases [of a] by (auto simp: valid_date_def)

lemma surpasses_key:
  assumes "valid_date to" "1 \<le> m" "m \<le> 12" "1 \<le> d" "d \<le> 31" "sign = 1 \<or> sign = -1"
  shows "iso_date_surpasses sign y m d to \<longleftrightarrow> 0 < sign * (date_key y m d - key to)"
  using assms(6)
proof
  assume "sign = 1"
  then show ?thesis using assms(2-5) valid_dateD [OF assms(1)] unfolding iso_date_surpasses_def Let_def key_def date_key_def
    by (simp split: if_splits) linarith
next
  assume "sign = -1"
  then show ?thesis using assms(2-5) valid_dateD [OF assms(1)] unfolding iso_date_surpasses_def Let_def key_def date_key_def
    by (simp split: if_splits) linarith
qed

lemma date_key_less:
  assumes "1 \<le> m" "m \<le> 12" "1 \<le> d" "d \<le> 31" "1 \<le> m'" "m' \<le> 12" "1 \<le> d'" "d' \<le> 31"
  shows "date_key y m d < date_key y' m' d' \<longleftrightarrow> y < y' \<or> y = y' \<and> (m < m' \<or> m = m' \<and> d < d')"
  using assms unfolding date_key_def
  by (cases y y' rule: linorder_cases; cases m m' rule: linorder_cases) auto

lemma compare_key:
  assumes "valid_date a" "valid_date b"
  shows "compare_iso_date a b = cmp (key a) (key b)"
proof -
  note v = valid_dateD [OF assms(1)] valid_dateD [OF assms(2)]
  have less: "compare_iso_date a b = Less \<longleftrightarrow> key a < key b"
    unfolding compare_iso_date_Less key_def using v by (subst date_key_less) simp_all
  have "compare_iso_date b a = Less \<longleftrightarrow> key b < key a"
    unfolding compare_iso_date_Less key_def using v by (subst date_key_less) simp_all
  then have greater: "compare_iso_date a b = Greater \<longleftrightarrow> key b < key a" by (simp only: compare_iso_date_Greater)
  show ?thesis
  proof (cases "compare_iso_date a b")
    case Equal
    then have "a = b" by (simp only: compare_iso_date_Equal)
    then show ?thesis using Equal by simp
  qed (use less greater in \<open>simp_all add: cmp_def\<close>)
qed

lemma days_le_key:
  assumes "valid_date a" "valid_date b"
  shows "iso_to_epoch_days a \<le> iso_to_epoch_days b \<longleftrightarrow> key a \<le> key b"
  using compare_iso_date_eq [OF assms] compare_key [OF assms] by (auto simp: cmp_def split: if_splits)

lemma in_range_year:
  assumes "valid_date a" "iso_date_in_range a"
  shows "\<bar>year a\<bar> \<le> 300000"
proof -
  have mono: "u \<le> v \<Longrightarrow> jan1 u \<le> jan1 v" for u v by (simp add: jan1_eq year_days_mono)
  have d: "- 100000001 \<le> iso_to_epoch_days a" "iso_to_epoch_days a \<le> 100000001"
    using assms(2) by (auto simp: iso_date_in_range_def Let_def MIN_EPOCH_DAYS_def MAX_EPOCH_DAYS_def)
  have "jan1 300000 > 100000001" "jan1 (- 299999) < - 100000001" by (simp_all add: jan1_eq year_days_def)
  then have "\<not> 300000 \<le> year a" "\<not> year a + 1 \<le> - 299999"
    using d jan1_bounds [OF assms(1)] mono [of 300000 "year a"] mono [of "year a + 1" "- 299999"] by linarith+
  then show ?thesis by linarith
qed

subsection \<open>Adding months\<close>

lemma balance_year_month_eq:
  assumes "\<bar>y\<bar> \<le> 1000000000" "\<bar>m\<bar> \<le> 1000000000" "balance_iso_year_month y m = (y', m')"
  shows "1 \<le> m'" "m' \<le> 12" "12 * y' + m' = 12 * y + m" "\<bar>y'\<bar> \<le> 2000000000"
proof -
  let ?q = "(m - 1) div 12" and ?r = "(m - 1) mod 12"
  have e: "12 * ?q + ?r = m - 1" "0 \<le> ?r" "?r < 12" by simp_all
  have "\<bar>y + ?q\<bar> \<le> 2000000000" using assms(1,2) e by linarith
  then have "y' = y + ?q" "m' = ?r + 1"
    using assms(3) e by (simp_all add: balance_iso_year_month_def Let_def as_i32_id as_u8_id abs_le_iff)
  then show "1 \<le> m'" "m' \<le> 12" "12 * y' + m' = 12 * y + m" "\<bar>y'\<bar> \<le> 2000000000"
    using e \<open>\<bar>y + ?q\<bar> \<le> 2000000000\<close> by simp_all
qed

lemma balance_year_month_key:
  assumes "\<bar>y\<bar> \<le> 1000000000" "\<bar>m\<bar> \<le> 1000000000" "balance_iso_year_month y m = (y', m')"
  shows "date_key y' m' d = date_key y m d"
  using balance_year_month_eq(3) [OF assms] by (simp add: date_key_def)

lemma constrain_month:
  assumes "1 \<le> m" "m \<le> 12" "1 \<le> d" "d \<le> 31"
  obtains mid where "regulate_iso_date y m d Constrain = Some mid" "valid_date mid" "year mid = y" "month mid = m"
    "day mid = min d (iso_days_in_month y m)"
proof -
  have "28 \<le> iso_days_in_month y m" "iso_days_in_month y m \<le> 31" using assms(1,2) unfolding iso_days_in_month_def
    by (simp_all) presburger+
  then show thesis
    using assms that [of "\<lparr>year = y, month = m, day = min d (iso_days_in_month y m)\<rparr>"]
    by (simp add: regulate_iso_date_def Let_def clamp_int_def as_u8_id valid_date_def min_def)
qed

lemma add_iso_date_days:
  assumes "balance_iso_year_month (year a + ys) (month a + ms) = (y, m)"
    "regulate_iso_date y m (day a) Constrain = Some mid" "valid_date to" "iso_date_in_range to"
    "ws * 7 + ds = iso_to_epoch_days to - iso_to_epoch_days mid"
  shows "add_iso_date a ys ms ws ds Constrain = Some to"
proof -
  have e: "iso_to_epoch_days mid + (ds + ws * 7) = iso_to_epoch_days to" using assms(5) by simp
  have "epoch_days_to_iso (iso_to_epoch_days to) = to"
    using in_range_year [OF assms(3,4)] assms(3) by (intro epoch_days_inverse) auto
  then show ?thesis using assms(1,2,4) by (simp add: add_iso_date_def Let_def e)
qed

lemma add_iso_date_only_days:
  assumes "valid_date a" "iso_date_in_range a" "valid_date to" "iso_date_in_range to"
    "ws * 7 + ds = iso_to_epoch_days to - iso_to_epoch_days a"
  shows "add_iso_date a 0 0 ws ds Constrain = Some to"
proof (rule add_iso_date_days)
  note v = valid_dateD [OF assms(1)]
  show "balance_iso_year_month (year a + 0) (month a + 0) = (year a, month a)"
    using v in_range_year [OF assms(1,2)] by (simp add: balance_iso_year_month_def Let_def as_i32_id as_u8_id)
  show "regulate_iso_date (year a) (month a) (day a) Constrain = Some a"
    using assms(1) v by (simp add: regulate_iso_date_def Let_def clamp_int_def as_u8_id valid_date_def)
qed (use assms in simp_all)

lemma sdiv_smod: "0 < b \<Longrightarrow> (a sdiv b) * b + a smod b = (a :: int)" "0 < b \<Longrightarrow> \<bar>a smod b\<bar> < b"
  "0 < b \<Longrightarrow> 0 \<le> sgn a * (a sdiv b)" "0 < b \<Longrightarrow> 0 \<le> sgn a * (a smod b)"
proof -
  assume b: "0 < b"
  have "b * (\<bar>a\<bar> div b) + \<bar>a\<bar> mod b = \<bar>a\<bar>" by simp
  then have "\<bar>a\<bar> div b * b * sgn a + \<bar>a\<bar> mod b * sgn a = a"
    by (metis abs_sgn distrib_right mult.commute mult_sgn_abs)
  then show "(a sdiv b) * b + a smod b = a"
    using b by (simp add: signed_divide_int_def signed_modulo_int_def mult_ac)
  show "\<bar>a smod b\<bar> < b" using b by (simp add: signed_modulo_int_def abs_mult)
  show "0 \<le> sgn a * (a sdiv b)" using b by (simp add: signed_divide_int_def sgn_if pos_imp_zdiv_nonneg_iff)
  show "0 \<le> sgn a * (a smod b)" using b by (simp add: signed_modulo_int_def sgn_if)
qed

subsection \<open>Differences\<close>

lemma whole_years:
  assumes "valid_date from" "valid_date to" and sign: "sign = 1 \<or> sign = -1" and A: "sign * (key from - key to) < 0"
  obtains ys where
    "most sign (year to - year from) (\<lambda>n. iso_date_surpasses sign (year from + n) (month from) (day from) to) = Some ys"
    "0 \<le> sign * ys" "sign * ys \<le> \<bar>year to - year from\<bar>" "sign * (384 * ys + (key from - key to)) \<le> 0"
    "0 < sign * (384 * (ys + sign) + (key from - key to))"
proof -
  note v = valid_dateD [OF assms(1)] and w = valid_dateD [OF assms(2)]
  define surp where "surp = (\<lambda>n. iso_date_surpasses sign (year from + n) (month from) (day from) to)"
  have surp: "surp n \<longleftrightarrow> 0 < sign * (384 * n + (key from - key to))" for n
    unfolding surp_def using surpasses_key [OF assms(2) v(1-4) sign, of "year from + n"] by (simp add: key_def date_key_def algebra_simps)
  define D where "D = \<bar>year to - year from\<bar>"
  have D: "year to - year from \<le> D" "year from - year to \<le> D" "0 \<le> D" by (simp_all add: D_def)
  define K where "K = nat (D + 1)"
  have "384 * (sign * sign * int K) + sign * (key from - key to) > 0"
    using sign v w D unfolding K_def key_def date_key_def by auto
  then have "surp (sign * int K)" unfolding surp by (simp add: algebra_simps)
  moreover have "\<not> surp 0" using A by (simp add: surp)
  moreover have "(year to - year from) * sign \<le> int K" using sign D unfolding K_def by auto
  ultimately obtain i where i: "i < K" "most sign (year to - year from) surp = Some (sign * int i)"
    "\<not> surp (sign * int i)" "surp (sign * int (Suc i))" using most_returns [OF sign] by metis
  have ss: "sign * (sign * int i) = int i" using sign by auto
  show thesis
  proof (rule that [of "sign * int i"])
    show "most sign (year to - year from) (\<lambda>n. iso_date_surpasses sign (year from + n) (month from) (day from) to) = Some (sign * int i)"
      using i(2) unfolding surp_def .
    show "0 \<le> sign * (sign * int i)" "sign * (sign * int i) \<le> \<bar>year to - year from\<bar>"
      using i(1) unfolding ss K_def D_def by simp_all
    show "sign * (384 * (sign * int i) + (key from - key to)) \<le> 0" using i(3) unfolding surp by simp
    show "0 < sign * (384 * (sign * int i + sign) + (key from - key to))" using i(4) unfolding surp by (simp add: algebra_simps)
  qed
qed

lemma whole_months:
  assumes "valid_date from" "valid_date to" and rng: "\<bar>year from\<bar> \<le> 300000" "\<bar>year to\<bar> \<le> 300000" "\<bar>ys\<bar> \<le> 600000"
    and sign: "sign = 1 \<or> sign = -1" and A: "sign * (384 * ys + (key from - key to)) \<le> 0"
  obtains ms y m where
    "most sign ((year to - year from - ys) * 12 + month to - month from)
       (\<lambda>n. case balance_iso_year_month (year from + ys) (month from + n) of
              (y, m) \<Rightarrow> iso_date_surpasses sign y m (day from) to) = Some ms"
    "0 \<le> sign * ms" "balance_iso_year_month (year from + ys) (month from + ms) = (y, m)"
    "1 \<le> m" "m \<le> 12" "sign * (date_key y m (day from) - key to) \<le> 0"
    "date_key y m (day from) - key to = 32 * ms + 384 * ys + (key from - key to)"
    "0 < sign * (32 * (ms + sign) + 384 * ys + (key from - key to))"
proof -
  note v = valid_dateD [OF assms(1)] and w = valid_dateD [OF assms(2)]
  define E where "E = (year to - year from - ys) * 12 + month to - month from"
  define surp where "surp = (\<lambda>n. case balance_iso_year_month (year from + ys) (month from + n) of
              (y, m) \<Rightarrow> iso_date_surpasses sign y m (day from) to)"
  have E: "\<bar>E\<bar> \<le> 20000000" unfolding E_def using rng v w unfolding abs_le_iff by (auto simp: algebra_simps)
  have bal: "1 \<le> m" "m \<le> 12" "date_key y m (day from) - key to = 32 * n + 384 * ys + (key from - key to)"
    if "\<bar>n\<bar> \<le> 20000001" "balance_iso_year_month (year from + ys) (month from + n) = (y, m)" for n y m
  proof -
    have b: "\<bar>year from + ys\<bar> \<le> 1000000000" "\<bar>month from + n\<bar> \<le> 1000000000" using that(1) rng v unfolding abs_le_iff by auto
    show "1 \<le> m" "m \<le> 12" using balance_year_month_eq [OF b that(2)] by simp_all
    show "date_key y m (day from) - key to = 32 * n + 384 * ys + (key from - key to)"
      using balance_year_month_key [OF b that(2), of "day from"] by (simp add: key_def date_key_def)
  qed
  have surp: "surp n \<longleftrightarrow> 0 < sign * (32 * n + 384 * ys + (key from - key to))" if "\<bar>n\<bar> \<le> 20000001" for n
  proof -
    obtain y m where ym: "balance_iso_year_month (year from + ys) (month from + n) = (y, m)" by fastforce
    show ?thesis by (simp only: surp_def ym prod.case surpasses_key [OF assms(2) bal(1,2) [OF that ym] v(3,4) sign] bal(3) [OF that ym])
  qed
  define K where "K = nat (\<bar>E\<bar> + 1)"
  have K: "\<bar>sign * int K\<bar> \<le> 20000001" "\<bar>0 :: int\<bar> \<le> 20000001" using E sign by (auto simp: K_def)
  have "0 < 32 * (sign * sign * int K) + sign * (384 * ys + (key from - key to))"
    using sign v w abs_ge_self [of E] abs_ge_minus_self [of E] unfolding K_def key_def date_key_def by (auto simp: E_def)
  then have "surp (sign * int K)" unfolding surp [OF K(1)] by (simp add: algebra_simps)
  moreover have "\<not> surp 0" using A unfolding surp [OF K(2)] by simp
  moreover have "E * sign \<le> int K" using sign unfolding K_def by auto
  ultimately obtain i where i: "i < K" "most sign E surp = Some (sign * int i)"
    "\<not> surp (sign * int i)" "surp (sign * int (Suc i))" using most_returns [OF sign] by metis
  have s: "\<bar>sign * int i\<bar> \<le> 20000001" "\<bar>sign * int (Suc i)\<bar> \<le> 20000001" using i(1) K(1) sign by auto
  have past: "0 < sign * (32 * (sign * int i + sign) + 384 * ys + (key from - key to))"
    using i(4) unfolding surp [OF s(2)] by (simp add: algebra_simps)
  obtain y m where ym: "balance_iso_year_month (year from + ys) (month from + sign * int i) = (y, m)" by fastforce
  note b = bal [OF s(1) ym]
  have "sign * (date_key y m (day from) - key to) \<le> 0" using i(3) unfolding surp [OF s(1)] b(3) by simp
  moreover have "0 \<le> sign * (sign * int i)" using sign by auto
  ultimately show thesis using that i(2) ym b past unfolding surp_def E_def by blast
qed

lemma not_past_constrained:
  assumes "valid_date to" "valid_date mid" "year mid = y" "month mid = m" "day mid = min d (iso_days_in_month y m)"
    and sign: "sign = 1 \<or> sign = -1" and le: "sign * (date_key y m d - key to) \<le> 0" and d: "1 \<le> d" "d \<le> 31"
  shows "0 \<le> sign * (iso_to_epoch_days to - iso_to_epoch_days mid)"
proof -
  note v = valid_dateD [OF assms(1)] and w = valid_dateD [OF assms(2)]
  from sign show ?thesis
  proof
    assume s: "sign = 1"
    have "key mid \<le> key to" using le s assms(3-5) by (simp add: key_def date_key_def)
    then show ?thesis using s days_le_key [OF assms(2,1)] by simp
  next
    assume s: "sign = -1"
    have "key to \<le> key mid"
    proof (cases "12 * y + m = 12 * year to + month to")
      case True
      then have "y = year to" using v w assms(4) by linarith
      moreover from this have "m = month to" using True by simp
      moreover have "day to \<le> iso_days_in_month (year to) (month to)" using assms(1) by (simp add: valid_date_def)
      ultimately show ?thesis using le s assms(3-5) by (simp add: key_def date_key_def)
    next
      case False
      then show ?thesis using le s assms(3-5) v w d unfolding key_def date_key_def by simp
    qed
    then show ?thesis using s days_le_key [OF assms(1,2)] by simp
  qed
qed

text \<open>Days count up through a month, and on into the next.\<close>

lemma days_in_month: "1 \<le> month a \<Longrightarrow> iso_to_epoch_days a = iso_to_epoch_days (a\<lparr>day := 1\<rparr>) + day a - 1"
  by (simp add: epoch_days_eq march_year_def march_month_def march_day_def)

lemma days_next_month:
  assumes "1 \<le> month a" "month a \<le> 12" "1 \<le> month b" "month b \<le> 12" "12 * year b + month b = 12 * year a + month a + 1"
  shows "iso_to_epoch_days (b\<lparr>day := 1\<rparr>) = iso_to_epoch_days (a\<lparr>day := 1\<rparr>) + iso_days_in_month (year a) (month a)"
proof (cases "month a = 12")
  case True
  then have "12 * (year b - (year a + 1)) = 1 - month b" using assms(5) by (simp add: algebra_simps)
  then have "year b = year a + 1" "month b = 1" using assms(3,4) by presburger+
  then show ?thesis using True by (simp add: epoch_days_eq march_year_def march_month_def march_day_def iso_days_in_month_def)
next
  case False
  have "12 * (year b - year a) = month a + 1 - month b" using assms(5) by (simp add: algebra_simps)
  then have b: "year b = year a" "month b = month a + 1" using assms(1-4) False by presburger+
  have "month a \<in> {1, 2, 3, 4, 5, 6, 7, 8, 9, 10, 11}" using assms(1,2) False unfolding insert_iff empty_iff by presburger
  then show ?thesis
    using year_days_Suc [of "year a - 1"]
    by (elim insertE emptyE)
       (simp_all add: b epoch_days_eq march_year_def march_month_def march_day_def iso_days_in_month_def iso_days_in_year_def)
qed

lemma month_length: "1 \<le> m \<Longrightarrow> m \<le> 12 \<Longrightarrow> iso_days_in_month y m \<le> 31"
  by (simp add: iso_days_in_month_def)

text \<open>Once no further month fits, less than a month of days is left.\<close>

lemma remaining_days:
  assumes "valid_date to" "valid_date mid" "day mid = min d (iso_days_in_month (year mid) (month mid))"
    and sign: "sign = 1 \<or> sign = -1" and d: "1 \<le> d" "d \<le> 31"
    and le: "sign * (date_key (year mid) (month mid) d - key to) \<le> 0"
    and past: "0 < sign * (date_key (year mid) (month mid) d + 32 * sign - key to)"
  shows "\<bar>iso_to_epoch_days to - iso_to_epoch_days mid\<bar> \<le> 30"
proof -
  note v = valid_dateD [OF assms(1)] and w = valid_dateD [OF assms(2)]
  note len = month_length [OF v(1,2), of "year to"] month_length [OF w(1,2), of "year mid"]
  have dt: "day to \<le> iso_days_in_month (year to) (month to)" using assms(1) by (simp add: valid_date_def)
  note e = days_in_month [OF v(1)] days_in_month [OF w(1)]
  define n where "n = 12 * year to + month to - (12 * year mid + month mid)"
  have k: "date_key (year mid) (month mid) d = key to + (d - day to - 32 * n)"
    by (simp add: n_def key_def date_key_def)
  have s: "sign = 1 \<Longrightarrow> d - day to - 32 * n \<le> 0 \<and> 0 < d - day to - 32 * n + 32"
    "sign = -1 \<Longrightarrow> 0 \<le> d - day to - 32 * n \<and> d - day to - 32 * n - 32 < 0"
    using le past unfolding k by simp_all
  have "n = 0 \<or> n = 1 \<and> day to < d \<or> n = -1 \<and> d < day to"
    using sign
  proof
    assume "sign = 1"
    then have "n = 0 \<or> n = 1" "32 * n < d - day to + 32" "d - day to \<le> 32 * n" using s(1) v(3,4) d by linarith+
    then show ?thesis by auto
  next
    assume "sign = -1"
    then have "n = 0 \<or> n = -1" "32 * n \<le> d - day to" "d - day to < 32 * n + 32" using s(2) v(3,4) d by linarith+
    then show ?thesis by auto
  qed
  then consider "n = 0" | "n = 1" "day to < d" | "n = -1" "d < day to" by blast
  then show ?thesis
  proof cases
    case 1
    then have "year to = year mid" using v w unfolding n_def by linarith
    moreover from this have "month to = month mid" using 1 by (simp add: n_def)
    ultimately have "to\<lparr>day := 1\<rparr> = mid\<lparr>day := 1\<rparr>" by simp
    then show ?thesis using e v w by simp
  next
    case 2
    then have "iso_to_epoch_days (to\<lparr>day := 1\<rparr>) = iso_to_epoch_days (mid\<lparr>day := 1\<rparr>) + iso_days_in_month (year mid) (month mid)"
      using v w by (intro days_next_month) (simp_all add: n_def)
    then show ?thesis using e v w 2 len assms(3) d by (auto simp: min_def split: if_splits)
  next
    case 3
    then have "iso_to_epoch_days (mid\<lparr>day := 1\<rparr>) = iso_to_epoch_days (to\<lparr>day := 1\<rparr>) + iso_days_in_month (year to) (month to)"
      using v w by (intro days_next_month) (simp_all add: n_def)
    then show ?thesis using e v w 3 len dt assms(3) d by (auto simp: min_def split: if_splits)
  qed
qed

text \<open>How far past \<open>to\<close>, in the direction of the difference, the day of \<open>from\<close> is some years and months on:
  positive when those no longer fit.\<close>

definition overshoot :: "int \<Rightarrow> iso_date \<Rightarrow> iso_date \<Rightarrow> int \<Rightarrow> int \<Rightarrow> int" where
  "overshoot sign from to ys ms = sign * (date_key (year from + ys) (month from + ms) (day from) - key to)"

lemma overshoot_eq: "overshoot sign from to ys ms = sign * (32 * ms + 384 * ys + (key from - key to))"
  by (simp add: overshoot_def key_def date_key_def algebra_simps)

lemma difference_whole_units:
  assumes v: "valid_date from" "valid_date to" and rng: "iso_date_in_range from" "iso_date_in_range to"
    and ne: "from \<noteq> to" and unit: "largest \<noteq> Day" "largest \<noteq> Week"
    and sign: "sign = (if compare_iso_date to from = Greater then 1 else -1)"
  obtains ys ms ds where "difference_iso_date from to largest = Some (ys, ms, 0, ds)"
    "add_iso_date from ys ms 0 ds Constrain = Some to" "0 \<le> sign * ys" "0 \<le> sign * ms" "0 \<le> sign * ds"
    "largest = Year \<Longrightarrow> sign * ms < 12" "\<bar>ds\<bar> \<le> 30" "largest = Month \<Longrightarrow> ys = 0"
    "overshoot sign from to ys ms \<le> 0" "0 < overshoot sign from to ys (ms + sign)"
    "largest = Year \<Longrightarrow> 0 < overshoot sign from to (ys + sign) 0"
proof -
  have pm: "sign = 1 \<or> sign = -1" using sign by simp
  note yr = in_range_year [OF v(1) rng(1)] in_range_year [OF v(2) rng(2)] and d = valid_dateD [OF v(1)]
  have A: "sign * (key from - key to) < 0"
    using compare_key [OF v(2,1)] compare_iso_date_Equal [of to "from"] ne sign by (auto simp: cmp_def split: if_splits)
  define yq where "yq = (if largest = Year
    then most sign (year to - year from) (\<lambda>n. iso_date_surpasses sign (year from + n) (month from) (day from) to) else Some 0)"
  have "\<exists>ys. yq = Some ys \<and> 0 \<le> sign * ys \<and> sign * ys \<le> \<bar>year to - year from\<bar> \<and> sign * (384 * ys + (key from - key to)) \<le> 0 \<and>
      (largest = Year \<longrightarrow> 0 < sign * (384 * (ys + sign) + (key from - key to))) \<and> (largest = Month \<longrightarrow> ys = 0)"
  proof (cases "largest = Year")
    case True
    then show ?thesis using whole_years [OF v pm A] unfolding yq_def by (metis (no_types, lifting) unit_kind.distinct(1))
  next
    case False
    then show ?thesis using A by (simp add: yq_def)
  qed
  then obtain ys where ys: "yq = Some ys" "0 \<le> sign * ys" "sign * ys \<le> \<bar>year to - year from\<bar>"
    "sign * (384 * ys + (key from - key to)) \<le> 0" "largest = Year \<Longrightarrow> 0 < sign * (384 * (ys + sign) + (key from - key to))"
    "largest = Month \<Longrightarrow> ys = 0" by blast
  have ysb: "\<bar>ys\<bar> \<le> 600000" using ys(2,3) yr pm by auto
  show thesis
  proof (rule whole_months [OF v yr ysb pm ys(4)])
    fix ms y m
    assume ms: "most sign ((year to - year from - ys) * 12 + month to - month from)
       (\<lambda>n. case balance_iso_year_month (year from + ys) (month from + n) of
              (y, m) \<Rightarrow> iso_date_surpasses sign y m (day from) to) = Some ms" "0 \<le> sign * ms"
      and ym: "balance_iso_year_month (year from + ys) (month from + ms) = (y, m)" "1 \<le> m" "m \<le> 12"
      and k: "sign * (date_key y m (day from) - key to) \<le> 0"
        "date_key y m (day from) - key to = 32 * ms + 384 * ys + (key from - key to)"
        "0 < sign * (32 * (ms + sign) + 384 * ys + (key from - key to))"
    obtain mid where mid: "regulate_iso_date y m (day from) Constrain = Some mid" "valid_date mid" "year mid = y" "month mid = m"
      "day mid = min (day from) (iso_days_in_month y m)" using constrain_month [OF ym(2,3) d(3,4)] by blast
    let ?ds = "iso_to_epoch_days to - iso_to_epoch_days mid"
    have "difference_iso_date from to largest = Some (ys, ms, 0, ?ds)"
      using unit ne ys(1) ms(1) ym(1) mid(1) compare_iso_date_Equal [of to "from"]
      by (simp add: difference_iso_date_def Let_def yq_def flip: sign)
    moreover have "add_iso_date from ys ms 0 ?ds Constrain = Some to"
      by (rule add_iso_date_days [OF ym(1) mid(1) v(2) rng(2)]) simp
    moreover have "0 \<le> sign * ?ds" using not_past_constrained [OF v(2) mid(2-5) pm k(1) d(3,4)] .
    moreover have "sign * ms < 12" if "largest = Year" using ys(5) [OF that] k pm by auto
    moreover have "0 < sign * (date_key y m (day from) + 32 * sign - key to)" using k(2,3) by (simp add: algebra_simps)
    then have "\<bar>?ds\<bar> \<le> 30" using remaining_days [OF v(2) mid(2) _ pm d(3,4)] mid(3-5) k(1) by simp
    moreover have "overshoot sign from to ys ms \<le> 0" "0 < overshoot sign from to ys (ms + sign)"
      "largest = Year \<Longrightarrow> 0 < overshoot sign from to (ys + sign) 0"
      using k ys(5) by (simp_all add: overshoot_eq)
    ultimately show thesis using that ys(2,6) ms(2) by blast
  qed
qed

lemma difference_days:
  assumes v: "valid_date from" "valid_date to" and rng: "iso_date_in_range from" "iso_date_in_range to"
    and unit: "largest = Day \<or> largest = Week"
  obtains ws ds where "difference_iso_date from to largest = Some (0, 0, ws, ds)"
    "add_iso_date from 0 0 ws ds Constrain = Some to" "largest = Week \<Longrightarrow> \<bar>ds\<bar> < 7" "largest = Day \<Longrightarrow> ws = 0"
    "0 \<le> sgn (iso_to_epoch_days to - iso_to_epoch_days from) * ws"
    "0 \<le> sgn (iso_to_epoch_days to - iso_to_epoch_days from) * ds"
proof -
  let ?D = "iso_to_epoch_days to - iso_to_epoch_days from"
  let ?w = "if largest = Week then ?D sdiv 7 else 0" and ?d = "if largest = Week then ?D smod 7 else ?D"
  have "add_iso_date from 0 0 ?w ?d Constrain = Some to"
    using sdiv_smod(1) [of 7 ?D] by (intro add_iso_date_only_days [OF v(1) rng(1) v(2) rng(2)]) simp
  moreover have "difference_iso_date from to largest = Some (0, 0, ?w, ?d)"
    using unit by (auto simp: difference_iso_date_def Let_def)
  moreover have "0 \<le> sgn ?D * ?w" "0 \<le> sgn ?D * ?d" "largest = Week \<Longrightarrow> \<bar>?d\<bar> < 7" "largest = Day \<Longrightarrow> ?w = 0"
    using sdiv_smod(2-4) [of 7 ?D] by (simp_all add: sgn_if)
  ultimately show thesis using that by blast
qed

text \<open>C26: \<open>difference_iso_date\<close> always returns: on valid dates of the supported range its two search loops end, whatever
  the largest unit. Adding the difference back with \<open>add_iso_date\<close> gives the second date, and no part of it has the
  opposite sign. In years and in months the parts are the largest that fit: the years and months do not pass the second
  date, one more month would, and in years one more year would; the months of a difference in years stay below 12 and
  at most 30 days are left. In weeks at most 6 days are left, and in weeks and days the larger parts are zero.\<close>

theorem difference_iso_date_correct:
  assumes "valid_date from" "valid_date to" "iso_date_in_range from" "iso_date_in_range to"
  shows "\<exists>ys ms ws ds. difference_iso_date from to largest = Some (ys, ms, ws, ds) \<and>
    add_iso_date from ys ms ws ds Constrain = Some to \<and>
    (let sign = sgn (iso_to_epoch_days to - iso_to_epoch_days from) in
      (\<forall>v \<in> {ys, ms, ws, ds}. 0 \<le> sign * v) \<and>
      (largest \<in> {Year, Month} \<and> from \<noteq> to \<longrightarrow> overshoot sign from to ys ms \<le> 0 \<and>
         0 < overshoot sign from to ys (ms + sign) \<and> \<bar>ds\<bar> \<le> 30 \<and> ws = 0) \<and>
      (largest = Year \<and> from \<noteq> to \<longrightarrow> 0 < overshoot sign from to (ys + sign) 0 \<and> \<bar>ms\<bar> < 12) \<and>
      (largest = Month \<longrightarrow> ys = 0) \<and>
      (largest = Week \<longrightarrow> ys = 0 \<and> ms = 0 \<and> \<bar>ds\<bar> < 7) \<and>
      (largest = Day \<longrightarrow> ys = 0 \<and> ms = 0 \<and> ws = 0))"
proof -
  define sign where "sign = (if compare_iso_date to from = Greater then 1 else (-1 :: int))"
  consider "largest = Day \<or> largest = Week" | "largest \<noteq> Day" "largest \<noteq> Week" "from = to"
    | "largest \<noteq> Day" "largest \<noteq> Week" "from \<noteq> to" by blast
  then show ?thesis
  proof cases
    case 1
    show ?thesis unfolding Let_def by (rule difference_days [OF assms 1]) (use 1 in auto)
  next
    case 2
    then have "difference_iso_date from to largest = Some (0, 0, 0, 0)"
      using compare_iso_date_Equal [of to "from"] by (simp add: difference_iso_date_def)
    moreover have "add_iso_date from 0 0 0 0 Constrain = Some to"
      using add_iso_date_only_days [OF assms(1,3,2,4), of 0 0] 2 by simp
    ultimately show ?thesis using 2 by (auto simp: Let_def)
  next
    case 3
    have s: "sgn (iso_to_epoch_days to - iso_to_epoch_days from) = sign"
      using compare_iso_date_eq [OF assms(2,1)] compare_iso_date_Equal [of to "from"] 3(3)
      by (auto simp: sign_def cmp_def split: if_splits)
    have pm: "sign = 1 \<or> sign = -1" by (simp add: sign_def)
    show ?thesis unfolding s Let_def
      by (rule difference_whole_units [OF assms 3(3,1,2) sign_def]) (use pm 3 in auto)
  qed
qed

theorem difference_iso_date_correct_witness:
  "\<exists>ws ds. difference_iso_date \<lparr>year = 2024, month = 1, day = 31\<rparr> \<lparr>year = 2023, month = 2, day = 28\<rparr> Year = Some (0, -11, ws, ds) \<and>
     add_iso_date \<lparr>year = 2024, month = 1, day = 31\<rparr> 0 (-11) ws ds Constrain = Some \<lparr>year = 2023, month = 2, day = 28\<rparr>"
proof -
  let ?a = "\<lparr>year = 2024, month = 1, day = 31\<rparr>" and ?b = "\<lparr>year = 2023, month = 2, day = 28\<rparr>"
  have v: "valid_date ?a" "valid_date ?b" by (simp_all add: valid_date_def iso_days_in_month_def leap_year)
  have e: "iso_to_epoch_days ?a = 19753" "iso_to_epoch_days ?b = 19416"
    by (simp_all add: epoch_days_eq year_days_def march_year_def march_day_def march_month_def)
  have r: "iso_date_in_range ?a" "iso_date_in_range ?b"
    by (simp_all add: iso_date_in_range_def e MIN_EPOCH_DAYS_def MAX_EPOCH_DAYS_def)
  have s: "sgn (iso_to_epoch_days ?b - iso_to_epoch_days ?a) = -1" by (simp add: e)
  have k: "key ?a - key ?b = 355" by (simp add: key_def date_key_def)
  obtain ys ms ws ds where d: "difference_iso_date ?a ?b Year = Some (ys, ms, ws, ds)"
    "add_iso_date ?a ys ms ws ds Constrain = Some ?b" "0 \<le> - ys" "0 \<le> - ms" "\<bar>ms\<bar> < 12"
    "overshoot (-1) ?a ?b ys ms \<le> 0" "0 < overshoot (-1) ?a ?b ys (ms + -1)" "0 < overshoot (-1) ?a ?b (ys + -1) 0"
    using difference_iso_date_correct [OF v r, of Year] unfolding s Let_def by auto
  have lin: "0 \<le> 32 * ms + 384 * ys + 355" "32 * ms + 384 * ys + 323 < 0" "384 * ys < 29" "-12 < ms" "ms \<le> 0" "ys \<le> 0"
    using d(3-8) unfolding overshoot_eq k by (simp_all add: abs_less_iff)
  have "- 1 < ys" using lin(1,5) by linarith
  then have "ys = 0" using lin(6) by linarith
  moreover from this have "ms = -11" using lin(1,2,4,5) by presburger
  ultimately show ?thesis using d(1,2) by blast
qed

end
