(* ===== verification/TemporalDuration.thy ===== *)
theory TemporalDuration
  imports TemporalDays
begin

text \<open>
  Durations: balancing a nanosecond count into fields, and the validity check with its overflow-checked sum.
\<close>

subsection \<open>Balancing a duration\<close>

lemma set_field_spec:
  assumes "set_field sign r per active = (f, r')" "0 \<le> r" "0 < per" "sign = 1 \<or> sign = 0 \<or> sign = -1"
  shows "f * per + sign * r' = sign * r" "0 \<le> sign * f" "0 \<le> r'" "r' \<le> r" "active \<Longrightarrow> r' < per" "\<not> active \<Longrightarrow> f = 0"
    "\<bar>f\<bar> * per \<le> r"
proof -
  have e: "r div per * per + r mod per = r" "0 \<le> r mod per" "r mod per < per" "r mod per \<le> r" "0 \<le> r div per"
    using assms(2,3) by (simp_all add: pos_imp_zdiv_nonneg_iff zmod_le_nonneg_dividend)
  have c: "(f, r') = (if active then (r div per * sign, r mod per) else (0, r))"
    using assms(1-3) by (auto simp: set_field_def sdiv_pos smod_pos)
  show "f * per + sign * r' = sign * r"
  proof (cases active)
    case True
    define q t where "q = r div per" and "t = r mod per"
    have "r = q * per + t" "f = q * sign" "r' = t" using c True e(1) by (simp_all add: q_def t_def)
    then show ?thesis by (simp add: algebra_simps)
  qed (use c in simp)
  show "0 \<le> sign * f" "0 \<le> r'" "r' \<le> r" "active \<Longrightarrow> r' < per" "\<not> active \<Longrightarrow> f = 0"
    using c e assms(2,4) by (auto split: if_splits)
  define q where "q = r div per"
  have "q * per \<le> r" "0 \<le> q" using e(1,2,5) unfolding q_def by linarith+
  moreover have "f = (if active then q * sign else 0)" using c by (simp add: q_def split: if_splits)
  ultimately show "\<bar>f\<bar> * per \<le> r" using assms(2,4) by auto
qed

definition balanced :: "unit_kind \<Rightarrow> duration_fields \<Rightarrow> bool" where
  "balanced largest d = (
     (if largest \<le> Hour then \<bar>minutes d\<bar> < 60 else hours d = 0) \<and>
     (if largest \<le> Minute then \<bar>seconds d\<bar> < 60 else minutes d = 0) \<and>
     (if largest \<le> Second then \<bar>milliseconds d\<bar> < 1000 else seconds d = 0) \<and>
     (if largest \<le> Millisecond then \<bar>microseconds d\<bar> < 1000 else milliseconds d = 0) \<and>
     (if largest \<le> Microsecond then \<bar>nanoseconds d\<bar> < 1000 else microseconds d = 0) \<and>
     years d = 0 \<and> months d = 0 \<and> weeks d = 0 \<and> days d = 0)"

subsection \<open>Valid durations\<close>

lemma one_sign_pm: "s = 1 \<or> s = -1 \<Longrightarrow> one_sign s vs \<longleftrightarrow> (\<forall>v \<in> set vs. 0 \<le> s * v)"
  by (induction vs) (auto simp: sgn_if)

lemma one_sign_iff: "one_sign 0 vs \<longleftrightarrow> (\<exists>s \<in> {1, -1}. \<forall>v \<in> set vs. 0 \<le> s * v)"
proof (induction vs)
  case (Cons v vs)
  consider "v = 0" | "0 < v" | "v < 0" by linarith
  then show ?case
    by cases (use Cons one_sign_pm [of 1 vs] one_sign_pm [of "-1" vs] in auto)
qed (auto intro: exI [of _ 1])

definition total_of :: "(int \<times> int) list \<Rightarrow> int" where
  "total_of vs = sum_list (map (\<lambda>(v, m). v * m) vs)"

lemma checked_total_spec:
  assumes "s = 1 \<or> s = (-1 :: int)" "0 \<le> s * acc" "\<forall>(v, m) \<in> set vs. 0 \<le> s * v \<and> 0 \<le> m"
  shows "(case checked_total acc vs of Some t \<Rightarrow> t = acc + total_of vs | None \<Rightarrow> 2 ^ 127 \<le> \<bar>acc + total_of vs\<bar>) \<and>
    s * acc \<le> s * (acc + total_of vs)"
  using assms(2,3)
proof (induction vs arbitrary: acc)
  case (Cons p vs)
  obtain v m where p: "p = (v, m)" by fastforce
  have vm: "0 \<le> s * (v * m)" using Cons.prems(2) p by (simp add: mult.assoc [symmetric])
  have IH: "case checked_total (acc + v * m) vs of Some t \<Rightarrow> t = acc + v * m + total_of vs
      | None \<Rightarrow> 2 ^ 127 \<le> \<bar>acc + v * m + total_of vs\<bar>" "s * (acc + v * m) \<le> s * (acc + v * m + total_of vs)"
    using Cons.IH [of "acc + v * m"] Cons.prems vm by (auto simp: algebra_simps p)
  have tot: "acc + total_of (p # vs) = acc + v * m + total_of vs" by (simp add: total_of_def p)
  have mono: "s * acc \<le> s * (acc + v * m)" "s * (v * m) \<le> s * (acc + v * m)" using vm Cons.prems(1) by (simp_all add: algebra_simps)
  have big: "2 ^ 127 \<le> \<bar>acc + v * m + total_of vs\<bar>" if "\<not> i128_range x" "s * x \<le> s * (acc + v * m)" "0 \<le> s * x" for x
    using that IH(2) assms(1) unfolding i128_range_def by auto
  have "2 ^ 127 \<le> \<bar>acc + v * m + total_of vs\<bar>" if "\<not> i128_range (v * m) \<or> \<not> i128_range (acc + v * m)"
    using that big [of "v * m"] big [of "acc + v * m"] vm mono Cons.prems(1) by auto
  then show ?case unfolding tot using IH mono by (auto simp: p)
qed (simp add: total_of_def)

text \<open>The nanoseconds of the time fields, and of days and time, as integers.\<close>

definition nanos_sum :: "duration_fields \<Rightarrow> int" where
  "nanos_sum d = hours d * NS_PER_HOUR + minutes d * NS_PER_MINUTE + seconds d * NS_PER_SEC +
     milliseconds d * 1000000 + microseconds d * 1000 + nanoseconds d"

definition day_time_total :: "duration_fields \<Rightarrow> int" where
  "day_time_total d = days d * NS_PER_DAY + nanos_sum d"

lemma out_of_i128: "\<not> i128_range x \<Longrightarrow> s = 1 \<or> s = -1 \<Longrightarrow> 0 \<le> s * x \<Longrightarrow> s * x \<le> s * y \<Longrightarrow> 2 ^ 127 \<le> \<bar>y\<bar>"
  by (auto simp: i128_range_def)

lemma time_nanos_spec:
  assumes s: "s = 1 \<or> s = (-1 :: int)" and pos: "\<forall>v \<in> set (fields d). 0 \<le> s * v"
  shows "case time_nanos d of Some t \<Rightarrow> t = nanos_sum d | None \<Rightarrow> 2 ^ 127 \<le> \<bar>nanos_sum d\<bar>"
proof -
  let ?h = "hours d * NS_PER_HOUR"
  let ?vs = "[(minutes d, NS_PER_MINUTE), (seconds d, NS_PER_SEC), (milliseconds d, 1000000), (microseconds d, 1000)]"
  have tot: "?h + total_of ?vs + nanoseconds d = nanos_sum d" by (simp add: total_of_def nanos_sum_def)
  have pre: "\<forall>(v, m) \<in> set ?vs. 0 \<le> s * v \<and> 0 \<le> m" using pos by (simp add: fields_def ns_consts)
  have h: "0 \<le> s * ?h" and n: "0 \<le> s * nanoseconds d" using pos by (simp_all add: fields_def ns_consts)
  note c = checked_total_spec [OF s h pre]
  have mono: "s * ?h \<le> s * (?h + total_of ?vs)" "s * (?h + total_of ?vs) \<le> s * nanos_sum d"
    using conjunct2 [OF c] n by (simp_all add: distrib_left flip: tot)
  show ?thesis
  proof (cases "i128_range ?h")
    case True
    show ?thesis
    proof (cases "checked_total ?h ?vs")
      case None
      then have "2 ^ 127 \<le> \<bar>?h + total_of ?vs\<bar>" using conjunct1 [OF c] by simp
      then have "2 ^ 127 \<le> \<bar>nanos_sum d\<bar>" using mono h s by auto
      then show ?thesis using True None by (simp add: time_nanos_def i128_def del: checked_total.simps)
    next
      case (Some t)
      then have t: "t + nanoseconds d = nanos_sum d" using conjunct1 [OF c] tot by simp
      show ?thesis
      proof (cases "i128_range (nanos_sum d)")
        case False
        then show ?thesis using True Some out_of_i128 [OF False s _ order_refl] mono h
          by (simp add: time_nanos_def i128_def t del: checked_total.simps)
      qed (use True Some in \<open>simp add: time_nanos_def i128_def t del: checked_total.simps\<close>)
    qed
  next
    case False
    then have "2 ^ 127 \<le> \<bar>nanos_sum d\<bar>" using out_of_i128 [OF False s h] mono by auto
    then show ?thesis using False by (simp add: time_nanos_def i128_def)
  qed
qed

lemma too_large_eq: "\<forall>v \<in> set vs. i128_range \<bar>v\<bar> \<Longrightarrow> too_large vs = Some (\<exists>v \<in> set vs. 2 ^ 32 \<le> \<bar>v\<bar>)"
  by (induction vs) (auto simp: i128_def)

lemma duration_is_valid_iff:
  assumes "\<forall>v \<in> {years d, months d, weeks d}. i128_range \<bar>v\<bar>"
  shows "duration_is_valid d = Some ((\<exists>s \<in> {1, -1}. \<forall>v \<in> set (fields d). 0 \<le> s * v) \<and>
     \<bar>years d\<bar> < 2 ^ 32 \<and> \<bar>months d\<bar> < 2 ^ 32 \<and> \<bar>weeks d\<bar> < 2 ^ 32 \<and> \<bar>day_time_total d\<bar> < 2 ^ 53 * NS_PER_SEC)"
proof (cases "one_sign 0 (fields d)")
  case True
  then obtain s where s: "s = 1 \<or> s = (-1 :: int)" "\<forall>v \<in> set (fields d). 0 \<le> s * v" unfolding one_sign_iff by blast
  let ?vs = "[(days d, NS_PER_DAY), (hours d, NS_PER_HOUR), (minutes d, NS_PER_MINUTE),
             (seconds d, NS_PER_SEC), (milliseconds d, 1000000), (microseconds d, 1000), (nanoseconds d, 1)]"
  have tot: "total_of ?vs = day_time_total d" by (simp add: total_of_def day_time_total_def nanos_sum_def)
  have pre: "\<forall>(v, m) \<in> set ?vs. 0 \<le> s * v \<and> 0 \<le> m" using s(2) by (simp add: fields_def ns_consts)
  have z: "0 \<le> s * 0" by simp
  note c = conjunct1 [OF checked_total_spec [OF s(1) z pre], unfolded tot add_0_left]
  have sd: "\<bar>t sdiv NS_PER_SEC\<bar> < 2 ^ 53 \<longleftrightarrow> \<bar>t\<bar> < 2 ^ 53 * NS_PER_SEC" for t :: int
  proof -
    have "\<bar>t sdiv NS_PER_SEC\<bar> = \<bar>t\<bar> div NS_PER_SEC"
      by (cases "t = 0") (simp_all add: signed_divide_int_def ns_consts abs_mult pos_imp_zdiv_nonneg_iff)
    moreover have "NS_PER_SEC * (\<bar>t\<bar> div NS_PER_SEC) + \<bar>t\<bar> mod NS_PER_SEC = \<bar>t\<bar>" "0 \<le> \<bar>t\<bar> mod NS_PER_SEC" "\<bar>t\<bar> mod NS_PER_SEC < NS_PER_SEC"
      by (simp_all add: ns_consts)
    ultimately show ?thesis unfolding ns_consts by linarith
  qed
  have "(case q of None \<Rightarrow> Some False | Some t \<Rightarrow> Some (\<bar>t sdiv NS_PER_SEC\<bar> < 2 ^ 53)) = Some (\<bar>day_time_total d\<bar> < 2 ^ 53 * NS_PER_SEC)"
    if "case q of Some t \<Rightarrow> t = day_time_total d | None \<Rightarrow> 2 ^ 127 \<le> \<bar>day_time_total d\<bar>" for q
    using that sd by (cases q) (simp_all add: ns_consts)
  note q = this [OF c]
  have "too_large [years d, months d, weeks d] = Some (\<exists>v \<in> {years d, months d, weeks d}. 2 ^ 32 \<le> \<bar>v\<bar>)"
    using too_large_eq [of "[years d, months d, weeks d]"] assms by simp
  then show ?thesis using True unfolding duration_is_valid_def q one_sign_iff
    by (auto simp: not_le simp del: checked_total.simps too_large.simps)
qed (simp add: duration_is_valid_def one_sign_iff)

lemma balance_time_duration_spec:
  assumes "i128_range n" "n \<noteq> - (2 ^ 127)"
  shows "\<exists>d. balance_time_duration n largest = Some d \<and> time_nanos d = Some n \<and>
    (\<forall>v \<in> set (fields d). 0 \<le> sgn n * v) \<and> balanced largest d"
proof -
  have abs: "i128 \<bar>n\<bar> = Some \<bar>n\<bar>" using assms by (auto simp: i128_def i128_range_def)
  obtain h r1 where 1: "set_field (sgn n) \<bar>n\<bar> NS_PER_HOUR (largest \<le> Hour) = (h, r1)" by fastforce
  obtain mi r2 where 2: "set_field (sgn n) r1 NS_PER_MINUTE (largest \<le> Minute) = (mi, r2)" by fastforce
  obtain s r3 where 3: "set_field (sgn n) r2 NS_PER_SEC (largest \<le> Second) = (s, r3)" by fastforce
  obtain ms r4 where 4: "set_field (sgn n) r3 1000000 (largest \<le> Millisecond) = (ms, r4)" by fastforce
  obtain us r5 where 5: "set_field (sgn n) r4 1000 (largest \<le> Microsecond) = (us, r5)" by fastforce
  define d where "d = default_duration\<lparr>hours := h, minutes := mi, seconds := s, milliseconds := ms, microseconds := us,
      nanoseconds := r5 * sgn n\<rparr>"
  have code: "balance_time_duration n largest = Some d"
    unfolding balance_time_duration_def abs bind.bind_lunit Let_def 1 2 3 4 5 prod.case d_def ..
  have sg: "sgn n = 1 \<or> sgn n = 0 \<or> sgn n = -1" by (auto simp: sgn_if)
  have pos: "0 < NS_PER_HOUR" "0 < NS_PER_MINUTE" "0 < NS_PER_SEC" by (simp_all add: ns_consts)
  note A = set_field_spec [OF 1 abs_ge_zero pos(1) sg]
  note B = set_field_spec [OF 2 A(3) pos(2) sg]
  note C = set_field_spec [OF 3 B(3) pos(3) sg]
  note D = set_field_spec [OF 4 C(3) zero_less_numeral sg]
  note E = set_field_spec [OF 5 D(3) zero_less_numeral sg]
  have "sgn n * \<bar>n\<bar> = n" by (simp add: sgn_mult_abs)
  then have sum: "nanos_sum d = n" using A(1) B(1) C(1) D(1) E(1) by (simp add: d_def nanos_sum_def mult.commute)
  have "0 \<le> sgn n * (r5 * sgn n)" using sg E(3) by auto
  then have sgns: "\<forall>v \<in> set (fields d). 0 \<le> sgn n * v"
    using A(2) B(2) C(2) D(2) E(2) by (simp add: d_def fields_def default_duration_def)
  obtain s' where s': "s' = 1 \<or> s' = (-1 :: int)" "\<forall>v \<in> set (fields d). 0 \<le> s' * v"
  proof (cases "n = 0")
    case True
    then have "fields d = replicate 10 0"
      using 1 2 3 4 5 by (auto simp: d_def fields_def default_duration_def set_field_def numeral_eq_Suc split: if_splits)
    then show thesis using that [of 1] by simp
  next
    case False
    then have "sgn n = 1 \<or> sgn n = -1" by (simp add: sgn_if)
    then show thesis using that sgns by blast
  qed
  have "time_nanos d = Some n"
    using time_nanos_spec [OF s'] assms sum by (auto simp: i128_range_def split: option.splits)
  moreover have "balanced largest d"
  proof -
    have "largest \<le> Hour \<Longrightarrow> \<bar>mi\<bar> < 60" "largest \<le> Minute \<Longrightarrow> \<bar>s\<bar> < 60" "largest \<le> Second \<Longrightarrow> \<bar>ms\<bar> < 1000"
      "largest \<le> Millisecond \<Longrightarrow> \<bar>us\<bar> < 1000" "largest \<le> Microsecond \<Longrightarrow> \<bar>r5 * sgn n\<bar> < 1000"
      using A(5) B(5,7) C(5,7) D(5,7) E(5,7) sg E(3) unfolding ns_consts by auto
    then show ?thesis using A(6) B(6) C(6) D(6) E(6) by (simp add: balanced_def d_def default_duration_def)
  qed
  ultimately show ?thesis using code sgns by blast
qed

text \<open>C35: \<open>balance_time_duration\<close> spreads a signed nanosecond count over the units from the largest one down. For every
  count an \<open>i128\<close> holds but the least (whose absolute value overflows, a panic) it returns fields that add up to the count,
  in \<open>time_nanos\<close> without overflow; none has the opposite sign, each field below the largest unit is less than one of
  the next larger unit, and the fields above it are 0.\<close>

theorem balance_time_duration_correct:
  assumes "i128_range n"
  shows "(n = - (2 ^ 127) \<longrightarrow> balance_time_duration n largest = None) \<and>
    (n \<noteq> - (2 ^ 127) \<longrightarrow> (\<exists>d. balance_time_duration n largest = Some d \<and> time_nanos d = Some n \<and>
      (\<forall>v \<in> set (fields d). 0 \<le> sgn n * v) \<and> balanced largest d))"
  using balance_time_duration_spec [OF assms] by (simp add: balance_time_duration_def i128_def i128_range_def)

theorem balance_time_duration_correct_witness:
  "\<exists>d. balance_time_duration (-3661000000001) Minute = Some d \<and> time_nanos d = Some (-3661000000001) \<and> minutes d \<le> 0"
  using balance_time_duration_correct [of "-3661000000001" Minute] by (auto simp: fields_def i128_range_def)

text \<open>The test \<open>is_valid\<close> accepts exactly the durations of one sign whose years, months and weeks are below \<open>2 ^ 32\<close> and
  whose days and time come to less than \<open>2 ^ 53\<close> seconds, unless one of those three fields is the least \<open>i128\<close>. The
  checked arithmetic never rejects such a duration, and an overflow of the sum only ever happens beyond the limit.\<close>

lemma duration_is_valid_correct:
  assumes "\<forall>v \<in> {years d, months d, weeks d}. i128_range \<bar>v\<bar>"
  shows "duration_is_valid d = Some ((\<exists>s \<in> {1, -1}. \<forall>v \<in> set (fields d). 0 \<le> s * v) \<and>
     \<bar>years d\<bar> < 2 ^ 32 \<and> \<bar>months d\<bar> < 2 ^ 32 \<and> \<bar>weeks d\<bar> < 2 ^ 32 \<and> \<bar>day_time_total d\<bar> < 2 ^ 53 * NS_PER_SEC)"
  by (rule duration_is_valid_iff [OF assms])

theorem duration_is_valid_correct_witness:
  "duration_is_valid (default_duration\<lparr>days := -1, nanoseconds := -1\<rparr>) = Some True \<and>
   duration_is_valid (default_duration\<lparr>days := 1, nanoseconds := -1\<rparr>) = Some False \<and>
   duration_is_valid (default_duration\<lparr>hours := 2 ^ 120\<rparr>) = Some False"
  using duration_is_valid_correct [of "default_duration\<lparr>days := -1, nanoseconds := -1\<rparr>"]
    duration_is_valid_correct [of "default_duration\<lparr>days := 1, nanoseconds := -1\<rparr>"]
    duration_is_valid_correct [of "default_duration\<lparr>hours := 2 ^ 120\<rparr>"]
  by (simp add: fields_def default_duration_def day_time_total_def nanos_sum_def ns_consts i128_range_def)

end
