(* ===== verification/ProbeTable.thy ===== *)
theory ProbeTable
  imports Prelude
begin

text \<open>
  Linear probing. The loops of the engine's open-addressing tables walk from a key's home slot with
  \<open>(i + 1) & mask\<close>; \<open>probe\<close> is that walk, and the locale \<open>probing\<close>, over the home function, holds what makes the
  tables correct: a walk ends where there is an empty slot, finds an entry whose run of used slots is unbroken, and
  a deletion that shifts entries back keeps the runs unbroken.
\<close>

unbundle bit_operations_syntax

text \<open>The step of every probe loop, \<open>(i + 1) & mask\<close>, until \<open>stop\<close> holds; \<open>None\<close> when it never does.\<close>

partial_function (option) probe :: "nat \<Rightarrow> (nat \<Rightarrow> bool) \<Rightarrow> nat \<Rightarrow> nat option" where
  "probe m stop i = (if stop i then Some i else probe m stop ((i + 1) AND m))"

subsection \<open>Powers of two\<close>

fun next_power_from :: "nat \<Rightarrow> nat \<Rightarrow> nat \<Rightarrow> nat" where
  "next_power_from 0 p n = p"
| "next_power_from (Suc f) p n = (if n \<le> p then p else next_power_from f (2 * p) n)"

text \<open>\<open>usize::next_power_of_two\<close>; \<open>n\<close> doublings of 1 always reach \<open>n\<close>.\<close>

definition next_power_of_two :: "nat \<Rightarrow> nat" where
  "next_power_of_two n = next_power_from n 1 n"

lemma next_power_from: "\<exists>e. next_power_from f (2 ^ k) n = 2 ^ e \<and> (n \<le> 2 ^ (k + f) \<longrightarrow> n \<le> 2 ^ e)"
proof (induction f arbitrary: k)
  case (Suc f)
  from Suc [of "Suc k"] show ?case by (cases "n \<le> 2 ^ k") (auto simp: numeral_2_eq_2 [symmetric])
qed auto

lemma next_power_of_two: obtains e where "next_power_of_two n = 2 ^ e" "n \<le> 2 ^ e"
proof -
  have "n \<le> 2 ^ (0 + n)" using less_exp [of n] by simp
  then show thesis using next_power_from [of n 0 n] that by (auto simp: next_power_of_two_def)
qed

subsection \<open>Cyclic positions\<close>

definition dist :: "nat \<Rightarrow> nat \<Rightarrow> nat \<Rightarrow> nat" where
  "dist n a b = (if a \<le> b then b - a else n + b - a)"

definition nxt :: "nat \<Rightarrow> nat \<Rightarrow> nat" where
  "nxt n i = (if Suc i = n then 0 else Suc i)"

lemma and_mask: "(i :: nat) AND (2 ^ k - 1) = i mod 2 ^ k"
  by (metis mask_eq_exp_minus_1 take_bit_eq_mask take_bit_eq_mod)

lemma nat_and_le: "(a :: nat) AND b \<le> b"
  using AND_upper2 [of "int b" "int a"] by (metis of_nat_0_le_iff of_nat_and_eq of_nat_le_iff)

lemma nxt_and: "i < 2 ^ k \<Longrightarrow> (i + 1) AND (2 ^ k - 1) = nxt (2 ^ k) i"
  unfolding and_mask nxt_def by auto

lemma nxt_less: "i < n \<Longrightarrow> nxt n i < n" by (auto simp: nxt_def)

lemma dist_nxt: "i < n \<Longrightarrow> z < n \<Longrightarrow> i \<noteq> z \<Longrightarrow> dist n i z = Suc (dist n (nxt n i) z)"
  by (auto simp: dist_def nxt_def)

lemma dist_less: "a < n \<Longrightarrow> b < n \<Longrightarrow> dist n a b < n" by (auto simp: dist_def)

lemma dist_0 [simp]: "dist n a a = 0" by (simp add: dist_def)

lemma dist_0_iff: "a < n \<Longrightarrow> b < n \<Longrightarrow> dist n a b = 0 \<longleftrightarrow> a = b" by (auto simp: dist_def)

lemma dist_inj: "a < n \<Longrightarrow> b < n \<Longrightarrow> c < n \<Longrightarrow> dist n a b = dist n a c \<Longrightarrow> b = c"
  unfolding dist_def by (simp split: if_splits; linarith)

lemma dist_add: "h < n \<Longrightarrow> m < n \<Longrightarrow> i < n \<Longrightarrow> dist n h m + dist n m i < n \<Longrightarrow> dist n h i = dist n h m + dist n m i"
  unfolding dist_def by (simp split: if_splits; linarith)

lemma dist_split: "h < n \<Longrightarrow> m < n \<Longrightarrow> i < n \<Longrightarrow> dist n h m \<le> dist n h i \<Longrightarrow> dist n h i = dist n h m + dist n m i"
  unfolding dist_def by (simp split: if_splits; linarith)

lemma dist_Suc: "h < n \<Longrightarrow> j < n \<Longrightarrow> nxt n j \<noteq> h \<Longrightarrow> dist n h (nxt n j) = Suc (dist n h j)"
  unfolding dist_def nxt_def by (auto split: if_splits)

lemma dist_beyond:
  assumes "h < n" "hole < n" "i < n" "j < n" "dist n h hole < dist n h i" "dist n hole j < dist n hole i" "i \<noteq> nxt n j" "nxt n j \<noteq> hole"
  shows "dist n h (nxt n j) < dist n h i"
proof -
  have i: "dist n h i = dist n h hole + dist n hole i" using assms(1-3,5) by (intro dist_split) auto
  have "dist n hole (nxt n j) \<le> dist n hole i" using dist_Suc [OF assms(2,4,8)] assms(6) by simp
  moreover have "dist n hole (nxt n j) \<noteq> dist n hole i" using dist_inj [OF assms(2) nxt_less [OF assms(4)] assms(3)] assms(7) by metis
  ultimately have lt: "dist n hole (nxt n j) < dist n hole i" by simp
  then have "dist n h hole + dist n hole (nxt n j) < n" using i dist_less [OF assms(1,3)] by simp
  then have "dist n h (nxt n j) = dist n h hole + dist n hole (nxt n j)"
    using dist_add [OF assms(1,2) nxt_less [OF assms(4)]] by simp
  then show ?thesis using i lt by simp
qed

lemma probe_ends:
  assumes "m = 2 ^ k - 1" "i < 2 ^ k" "z < 2 ^ k" "stop z"
  shows "\<exists>j < 2 ^ k. probe m stop i = Some j \<and> stop j \<and> (\<forall>p < 2 ^ k. dist (2 ^ k) i p < dist (2 ^ k) i j \<longrightarrow> \<not> stop p)"
  using assms(2)
proof (induction "dist (2 ^ k) i z" arbitrary: i rule: less_induct)
  case less
  let ?n = "2 ^ k :: nat"
  show ?case
  proof (cases "stop i")
    case True
    then show ?thesis using less.prems probe.simps [of m stop i] by auto
  next
    case False
    then have ne: "i \<noteq> z" using assms(4) by blast
    let ?i = "nxt ?n i"
    have "dist ?n ?i z < dist ?n i z" using dist_nxt [OF less.prems assms(3) ne] by simp
    then obtain j where j: "j < ?n" "probe m stop ?i = Some j" "stop j"
      "\<forall>p < ?n. dist ?n ?i p < dist ?n ?i j \<longrightarrow> \<not> stop p"
      using less.hyps [of ?i] nxt_less [OF less.prems] by blast
    have "i \<noteq> j" using False j(3) by blast
    have "\<not> stop p" if "p < ?n" "dist ?n i p < dist ?n i j" for p
      using that j(4) False dist_nxt [OF less.prems that(1)] dist_nxt [OF less.prems j(1) \<open>i \<noteq> j\<close>] by (cases "p = i") auto
    moreover have "probe m stop i = Some j"
      using False j(2) probe.simps [of m stop i] nxt_and [OF less.prems] assms(1) by simp
    ultimately show ?thesis using j by blast
  qed
qed

subsection \<open>Probe runs\<close>

text \<open>
  A table of \<open>n\<close> slots, seen through the slots in use (\<open>occ\<close>, also those of removed entries) and the keys of the live
  entries (\<open>ent\<close>). \<open>reach\<close>: from the home slot of a key to its entry every slot is in use.
\<close>

definition on_path :: "nat \<Rightarrow> nat \<Rightarrow> nat \<Rightarrow> nat \<Rightarrow> bool" where
  "on_path n a b p \<longleftrightarrow> p < n \<and> dist n a p < dist n a b"

definition reach :: "('k \<Rightarrow> nat \<Rightarrow> nat) \<Rightarrow> nat \<Rightarrow> (nat \<Rightarrow> bool) \<Rightarrow> (nat \<Rightarrow> 'k option) \<Rightarrow> bool" where
  "reach home n occ ent \<longleftrightarrow> (\<forall>j < n. \<forall>k. ent j = Some k \<longrightarrow> occ j \<and> (\<forall>p. on_path n (home k (n - 1)) j p \<longrightarrow> occ p))"

lemma reachD: "reach home n occ ent \<Longrightarrow> j < n \<Longrightarrow> ent j = Some k \<Longrightarrow> occ j"
  "reach home n occ ent \<Longrightarrow> j < n \<Longrightarrow> ent j = Some k \<Longrightarrow> on_path n (home k (n - 1)) j p \<Longrightarrow> occ p"
  by (auto simp: reach_def)

locale probing =
  fixes home :: "'k \<Rightarrow> nat \<Rightarrow> nat"
  assumes home_le: "home k m \<le> m"
begin

lemma home_less: "home k (2 ^ e - 1) < 2 ^ e"
  using home_le [of k "2 ^ e - 1"] by (metis le_less_trans diff_less zero_less_numeral zero_less_one zero_less_power)

lemma probe_find:
  assumes "reach home (2 ^ e) occ ent" "z < 2 ^ e" "\<not> occ z"
  shows "\<exists>i < 2 ^ e. probe (2 ^ e - 1) (\<lambda>i. \<not> occ i \<or> match i) (home k (2 ^ e - 1)) = Some i \<and>
    (\<forall>p. on_path (2 ^ e) (home k (2 ^ e - 1)) i p \<longrightarrow> occ p \<and> \<not> match p) \<and> (occ i \<longrightarrow> match i) \<and>
    (\<not> occ i \<longrightarrow> (\<forall>j < 2 ^ e. ent j = Some k \<longrightarrow> \<not> match j))"
proof -
  let ?n = "2 ^ e :: nat" and ?h = "home k (2 ^ e - 1)"
  obtain i where i: "i < ?n" "probe (?n - 1) (\<lambda>i. \<not> occ i \<or> match i) ?h = Some i" "\<not> occ i \<or> match i"
    "\<forall>p < ?n. dist ?n ?h p < dist ?n ?h i \<longrightarrow> occ p \<and> \<not> match p"
    using probe_ends [OF refl home_less assms(2), of "\<lambda>i. \<not> occ i \<or> match i" k] assms(3) by auto
  have "\<not> match j" if "\<not> occ i" "j < ?n" "ent j = Some k" for j
  proof
    assume m: "match j"
    have "\<not> on_path ?n ?h j i" using reachD(2) [OF assms(1) that(2,3)] that(1) by blast
    then have "dist ?n ?h j \<le> dist ?n ?h i" using i(1) by (simp add: on_path_def)
    moreover have "dist ?n ?h j \<noteq> dist ?n ?h i"
      using reachD(1) [OF assms(1) that(2,3)] that(1) dist_inj [OF home_less that(2) i(1)] by blast
    ultimately show False using i(4) that(2) m by auto
  qed
  then show ?thesis using i by (auto simp: on_path_def)
qed

lemma reach_insert:
  assumes "reach home n occ ent" "i < n" "\<forall>p. on_path n (home k (n - 1)) i p \<longrightarrow> occ p"
  shows "reach home n (occ(i := True)) (ent(i := Some k))"
  using assms unfolding reach_def by simp

lemma reach_remove: "reach home n occ ent \<Longrightarrow> reach home n occ (ent(i := None))"
  unfolding reach_def by simp

lemma reach_empty: "reach home n occ (\<lambda>_. None)"
  by (simp add: reach_def)

end

subsection \<open>Backward-shift deletion\<close>

text \<open>\<open>hole\<close> is the slot vacated last, \<open>j\<close> the slot examined last.\<close>

definition shift_inv :: "('k \<Rightarrow> nat \<Rightarrow> nat) \<Rightarrow> nat \<Rightarrow> (nat \<Rightarrow> 'k option) \<Rightarrow> nat \<Rightarrow> nat \<Rightarrow> bool" where
  "shift_inv home n ent hole j \<longleftrightarrow> hole < n \<and> j < n \<and> ent hole = None \<and>
     (\<forall>i < n. \<forall>k. ent i = Some k \<longrightarrow>
        (\<forall>p. on_path n (home k (n - 1)) i p \<longrightarrow> ent p \<noteq> None \<or> p = hole \<and> dist n hole j < dist n hole i))"

definition movable :: "nat \<Rightarrow> nat \<Rightarrow> nat \<Rightarrow> bool" where
  "movable hole j h = (if hole \<le> j then h \<le> hole \<or> j < h else h \<le> hole \<and> j < h)"

lemma movable_iff: "h < n \<Longrightarrow> j < n \<Longrightarrow> hole < n \<Longrightarrow> hole \<noteq> j \<Longrightarrow> movable hole j h \<longleftrightarrow> dist n h hole < dist n h j"
  by (auto simp: movable_def dist_def)

context probing
begin

lemma shift_start:
  assumes "reach home n (\<lambda>i. ent i \<noteq> None) ent" "hole < n"
  shows "shift_inv home n (ent(hole := None)) hole hole"
proof -
  have "0 < dist n hole i" if "i < n" "i \<noteq> hole" for i using that assms(2) dist_0_iff [of hole n i] by auto
  then show ?thesis using assms unfolding shift_inv_def reach_def by auto
qed

lemma shift_stop:
  assumes "shift_inv home n ent hole j" "ent (nxt n j) = None" "nxt n j \<noteq> hole" "\<And>k. home k (n - 1) < n"
  shows "reach home n (\<lambda>i. ent i \<noteq> None) ent"
proof -
  have "ent p \<noteq> None" if i: "i < n" "ent i = Some k" and p: "on_path n (home k (n - 1)) i p" for i k p
  proof (rule ccontr)
    assume "\<not> ent p \<noteq> None"
    then have P: "p = hole" "dist n hole j < dist n hole i" using assms(1) that unfolding shift_inv_def by blast+
    have b: "hole < n" "j < n" using assms(1) by (auto simp: shift_inv_def)
    have ne: "i \<noteq> nxt n j" using assms(2) i(2) by auto
    have "on_path n (home k (n - 1)) i (nxt n j)"
      using dist_beyond [OF assms(4) b(1) i(1) b(2) _ P(2) ne assms(3)] p nxt_less [OF b(2)] unfolding on_path_def P(1) by blast
    then show False using assms(1,2,3) i unfolding shift_inv_def by blast
  qed
  then show ?thesis using assms(1) unfolding reach_def by auto
qed

lemma shift_keep:
  assumes "shift_inv home n ent hole j" "ent (nxt n j) = Some k" "\<not> movable hole (nxt n j) (home k (n - 1))"
    "\<And>k. home k (n - 1) < n"
  shows "shift_inv home n ent hole (nxt n j)"
proof -
  have b: "hole < n" "j < n" "nxt n j < n" "nxt n j \<noteq> hole" using assms(1,2) by (auto simp: shift_inv_def nxt_less)
  have far: "dist n hole (nxt n j) = Suc (dist n hole j)" using b by (auto simp: dist_def nxt_def split: if_splits)
  have "ent p \<noteq> None \<or> p = hole \<and> dist n hole (nxt n j) < dist n hole i"
    if "i < n" "ent i = Some k'" "on_path n (home k' (n - 1)) i p" for i k' p
  proof (cases "ent p = None")
    case True
    then have P: "p = hole" "dist n hole j < dist n hole i" using assms(1) that unfolding shift_inv_def by blast+
    have "i \<noteq> nxt n j"
    proof
      assume e: "i = nxt n j"
      then have "k' = k" using that(2) assms(2) by simp
      then show False using that(3) P(1) e assms(3) movable_iff [of "home k (n - 1)" n "nxt n j" hole] b assms(4) [of k]
        by (auto simp: on_path_def)
    qed
    then have "dist n hole i \<noteq> dist n hole (nxt n j)" using that(1) b by (auto simp: dist_def split: if_splits)
    then show ?thesis using P far by simp
  qed simp
  then show ?thesis using assms(1) b unfolding shift_inv_def by blast
qed

lemma shift_move:
  assumes "shift_inv home n ent hole j" "ent (nxt n j) = Some k" "movable hole (nxt n j) (home k (n - 1))"
    "\<And>k. home k (n - 1) < n"
  shows "shift_inv home n (ent(hole := Some k, nxt n j := None)) (nxt n j) (nxt n j)"
proof -
  let ?j = "nxt n j" and ?e = "ent(hole := Some k, nxt n j := None)"
  have b: "hole < n" "j < n" "?j < n" "?j \<noteq> hole" using assms(1,2) by (auto simp: shift_inv_def nxt_less)
  have pos: "0 < dist n ?j i" if "i < n" "i \<noteq> ?j" for i using that b dist_0_iff [of ?j n i] by auto
  have h: "dist n (home k (n - 1)) hole < dist n (home k (n - 1)) ?j"
    using movable_iff [of "home k (n - 1)" n ?j hole] assms(3) assms(4) [of k] b by auto
  have "?e p \<noteq> None \<or> p = ?j \<and> dist n ?j ?j < dist n ?j i"
    if i: "i < n" "?e i = Some k'" and p: "on_path n (home k' (n - 1)) i p" for i k' p
  proof (cases "i = hole")
    case True
    then have k: "k' = k" using i b by (auto split: if_splits)
    have "on_path n (home k (n - 1)) ?j p" using p h unfolding on_path_def k True by simp
    moreover have "p \<noteq> hole" "p \<noteq> ?j" using p h unfolding on_path_def k True by auto
    ultimately show ?thesis using assms(1,2) b unfolding shift_inv_def by auto
  next
    case False
    then have "i \<noteq> ?j" "ent i = Some k'" using i by (auto split: if_splits)
    then have "ent p \<noteq> None \<or> p = hole" using assms(1) i(1) p unfolding shift_inv_def by blast
    then show ?thesis using pos [OF i(1) \<open>i \<noteq> ?j\<close>] b by auto
  qed
  then show ?thesis using b unfolding shift_inv_def by auto
qed

end

end
