(* ===== verification/HandleMap.thy ===== *)
theory HandleMap
  imports ProbeTable
begin

text \<open>
  The handle-keyed side table of \<open>realm/handle_map.rs\<close>: an open-addressing table with backward-shift deletion, a
  bitset over slot indices that answers most misses, and an optional log of inserted keys. The closure of \<open>retain\<close>
  is a function of the key and value.
\<close>

record 'v handle_keyed_map =
  bits :: "u64 list"
  index :: "(u64 \<times> 'v) option list"
  map_len :: nat
  fresh :: "u64 list option"

definition slot_of :: "u64 \<Rightarrow> nat" where
  "slot_of raw = unat (raw AND 0xffffffff)"

definition bucket :: "u64 \<Rightarrow> nat \<Rightarrow> nat" where
  "bucket raw m = unat (drop_bit 32 (raw * 0x9e3779b97f4a7c15)) AND m"

definition new_map :: "'v handle_keyed_map" where
  "new_map = \<lparr>bits = [], index = [], map_len = 0, fresh = None\<rparr>"

definition new_logged :: "'v handle_keyed_map" where
  "new_logged = new_map\<lparr>fresh := Some []\<rparr>"

definition fresh_keys :: "'v handle_keyed_map \<Rightarrow> u64 list" where
  "fresh_keys m = (case fresh m of None \<Rightarrow> [] | Some f \<Rightarrow> f)"

definition take_fresh :: "'v handle_keyed_map \<Rightarrow> u64 list \<times> 'v handle_keyed_map" where
  "take_fresh m = (fresh_keys m, m\<lparr>fresh := map_option (\<lambda>_. []) (fresh m)\<rparr>)"

definition clear_fresh :: "'v handle_keyed_map \<Rightarrow> 'v handle_keyed_map" where
  "clear_fresh m = m\<lparr>fresh := map_option (\<lambda>_. []) (fresh m)\<rparr>"

text \<open>The stopping slot of the loops in \<open>find\<close> and \<open>index_put\<close>: empty, or holding the key.\<close>

definition stops :: "(u64 \<times> 'v) option list \<Rightarrow> u64 \<Rightarrow> nat \<Rightarrow> bool" where
  "stops idx raw i = (case idx ! i of None \<Rightarrow> True | Some (k, _) \<Rightarrow> k = raw)"

text \<open>A loop that does not end is \<open>None\<close>; the found bucket is the inner option.\<close>

definition find_bucket :: "(u64 \<times> 'v) option list \<Rightarrow> u64 \<Rightarrow> nat option option" where
  "find_bucket idx raw =
     (if idx = [] then Some None
      else let m = length idx - 1 in
        map_option (\<lambda>i. if idx ! i = None then None else Some i) (probe m (stops idx raw) (bucket raw m)))"

fun place_all :: "nat \<Rightarrow> (u64 \<times> 'v) list \<Rightarrow> (u64 \<times> 'v) option list \<Rightarrow> (u64 \<times> 'v) option list option" where
  "place_all m [] idx = Some idx"
| "place_all m ((raw, v) # es) idx =
     Option.bind (probe m (\<lambda>i. idx ! i = None) (bucket raw m)) (\<lambda>i. place_all m es (idx[i := Some (raw, v)]))"

text \<open>\<open>into_iter().flatten()\<close>: the entries in table order.\<close>

definition flatten :: "'a option list \<Rightarrow> 'a list" where
  "flatten idx = map the (filter (\<lambda>e. e \<noteq> None) idx)"

definition rebuild_index :: "'v handle_keyed_map \<Rightarrow> nat \<Rightarrow> 'v handle_keyed_map option" where
  "rebuild_index m min_buckets =
     (let n = next_power_of_two (max (max min_buckets (map_len m * 2)) 16) in
      map_option (\<lambda>idx. m\<lparr>index := idx\<rparr>) (place_all (n - 1) (flatten (index m)) (replicate n None)))"

definition index_put :: "'v handle_keyed_map \<Rightarrow> u64 \<Rightarrow> 'v \<Rightarrow> ('v option \<times> 'v handle_keyed_map) option" where
  "index_put m0 raw v =
     Option.bind (if length (index m0) < (map_len m0 + 1) * 2 then rebuild_index m0 ((map_len m0 + 1) * 2) else Some m0) (\<lambda>m.
       let mk = length (index m) - 1 in
       map_option (\<lambda>i. case index m ! i of
           None \<Rightarrow> (None, m\<lparr>index := (index m)[i := Some (raw, v)], map_len := map_len m + 1\<rparr>)
         | Some (_, old) \<Rightarrow> (Some old, m\<lparr>index := (index m)[i := Some (raw, v)]\<rparr>))
         (probe mk (stops (index m) raw) (bucket raw mk)))"

partial_function (option) shift_back :: "nat \<Rightarrow> nat \<Rightarrow> nat \<Rightarrow> (u64 \<times> 'v) option list \<Rightarrow> (u64 \<times> 'v) option list option" where
  "shift_back m hole j0 idx =
     (let j = (j0 + 1) AND m in
      case idx ! j of
        None \<Rightarrow> Some idx
      | Some (k, v) \<Rightarrow>
          if movable hole j (bucket k m) then shift_back m j j (idx[hole := Some (k, v), j := None])
          else shift_back m hole j idx)"

definition index_remove :: "'v handle_keyed_map \<Rightarrow> u64 \<Rightarrow> ('v option \<times> 'v handle_keyed_map) option" where
  "index_remove m raw =
     Option.bind (find_bucket (index m) raw) (\<lambda>f. case f of
         None \<Rightarrow> Some (None, m)
       | Some hole \<Rightarrow>
           let old = map_option snd (index m ! hole) in
           map_option (\<lambda>idx. (old, m\<lparr>index := idx, map_len := map_len m - 1\<rparr>))
             (shift_back (length (index m) - 1) hole hole ((index m)[hole := None])))"

definition reserve :: "'v handle_keyed_map \<Rightarrow> nat \<Rightarrow> 'v handle_keyed_map option" where
  "reserve m additional =
     (let want = (map_len m + additional) * 2 in
      if length (index m) < want then rebuild_index m want else Some m)"

definition may_contain :: "'v handle_keyed_map \<Rightarrow> u64 \<Rightarrow> bool" where
  "may_contain m raw =
     (let i = slot_of raw in
      case get_opt (bits m) (i div 64) of None \<Rightarrow> False | Some w \<Rightarrow> drop_bit (i mod 64) w AND 1 \<noteq> 0)"

definition mark_bit :: "'v handle_keyed_map \<Rightarrow> u64 \<Rightarrow> 'v handle_keyed_map" where
  "mark_bit m raw =
     (let i = slot_of raw; w = i div 64;
          bs = (if length (bits m) \<le> w then bits m @ replicate (w + 1 - length (bits m)) 0 else bits m)
      in m\<lparr>bits := bs[w := bs ! w OR push_bit (i mod 64) 1]\<rparr>)"

definition map_get :: "'v handle_keyed_map \<Rightarrow> u64 \<Rightarrow> 'v option option" where
  "map_get m raw =
     (if \<not> may_contain m raw then Some None
      else map_option (\<lambda>f. case f of None \<Rightarrow> None | Some i \<Rightarrow> map_option snd (index m ! i)) (find_bucket (index m) raw))"

definition contains_key :: "'v handle_keyed_map \<Rightarrow> u64 \<Rightarrow> bool option" where
  "contains_key m raw =
     (if \<not> may_contain m raw then Some False else map_option (\<lambda>f. f \<noteq> None) (find_bucket (index m) raw))"

definition map_insert :: "'v handle_keyed_map \<Rightarrow> u64 \<Rightarrow> 'v \<Rightarrow> ('v option \<times> 'v handle_keyed_map) option" where
  "map_insert m raw v =
     index_put (mark_bit (m\<lparr>fresh := map_option (\<lambda>f. f @ [raw]) (fresh m)\<rparr>) raw) raw v"

definition map_remove :: "'v handle_keyed_map \<Rightarrow> u64 \<Rightarrow> ('v option \<times> 'v handle_keyed_map) option" where
  "map_remove m raw = (if \<not> may_contain m raw then Some (None, m) else index_remove m raw)"

text \<open>\<open>retain\<close>: the closure sees the key and may change the value of an entry it keeps.\<close>

definition retain_slot :: "(u64 \<Rightarrow> 'v \<Rightarrow> bool \<times> 'v) \<Rightarrow> (u64 \<times> 'v) option \<Rightarrow> (u64 \<times> 'v) option" where
  "retain_slot f e = (case e of None \<Rightarrow> None | Some (k, v) \<Rightarrow> case f k v of (keep, v') \<Rightarrow> if keep then Some (k, v') else None)"

definition retain :: "'v handle_keyed_map \<Rightarrow> (u64 \<Rightarrow> 'v \<Rightarrow> bool \<times> 'v) \<Rightarrow> 'v handle_keyed_map option" where
  "retain m f =
     (let idx = map (retain_slot f) (index m);
          dropped = length (filter (\<lambda>(e, e'). e \<noteq> None \<and> e' = None) (zip (index m) idx))
      in rebuild_index (m\<lparr>index := idx, map_len := map_len m - dropped\<rparr>) 0)"

definition map_values :: "'v handle_keyed_map \<Rightarrow> 'v list" where
  "map_values m = map snd (flatten (index m))"

definition swap_entries :: "'v handle_keyed_map \<Rightarrow> u64 \<Rightarrow> u64 \<Rightarrow> 'v handle_keyed_map option" where
  "swap_entries m a b =
     Option.bind (map_remove m a) (\<lambda>(va, m1).
     Option.bind (map_remove m1 b) (\<lambda>(vb, m2).
     Option.bind (case vb of None \<Rightarrow> Some m2 | Some v \<Rightarrow> map_option snd (map_insert m2 a v)) (\<lambda>m3.
       case va of None \<Rightarrow> Some m3 | Some v \<Rightarrow> map_option snd (map_insert m3 b v))))"

end
