(* ===== verification/HandleMapLaws.thy ===== *)
theory HandleMapLaws
  imports HandleMap "HOL-Library.Multiset"
begin

text \<open>
  The handle-keyed table refines a finite map. The entries of a table are a multiset, its map is read off them, and
  each operation is shown to keep the invariant \<open>map_inv\<close> and to act on the map; \<open>keyed_store\<close> is the contract the
  compound operations rely on.
\<close>

interpretation hm: probing bucket
  by unfold_locales (simp add: bucket_def nat_and_le)

subsection \<open>The entries of a table\<close>

abbreviation entries :: "'a option list \<Rightarrow> 'a multiset" where
  "entries idx \<equiv> mset (flatten idx)"

lemma entries_eq: "entries idx = image_mset the (filter_mset (\<lambda>e. e \<noteq> None) (mset idx))"
  by (simp add: flatten_def)

lemma entries_fill: "i < length idx \<Longrightarrow> idx ! i = None \<Longrightarrow> entries (idx[i := Some e]) = add_mset e (entries idx)"
  by (simp add: entries_eq mset_update filter_diff_mset nth_mem_mset)

lemma entries_split:
  assumes "i < length idx" "idx ! i = Some e"
  shows "entries idx = add_mset e (entries (idx[i := None]))"
proof -
  have "idx[i := Some e] = idx" using assms(2) by (metis list_update_id)
  then show ?thesis using entries_fill [of i "idx[i := None]" e] assms(1) by simp
qed

lemma entries_iff: "e \<in># entries idx \<longleftrightarrow> (\<exists>i < length idx. idx ! i = Some e)"
  by (force simp: flatten_def in_set_conv_nth)

lemma entries_empty [simp]: "entries (replicate n None) = {#}"
  by (simp add: flatten_def)

lemma free_slot:
  assumes "size (entries idx) < length idx"
  obtains z where "z < length idx" "idx ! z = None"
proof -
  have "\<exists>z < length idx. idx ! z = None"
  proof (rule ccontr)
    assume "\<not> ?thesis"
    then have "filter (\<lambda>e. e \<noteq> None) idx = idx" by (auto simp: filter_id_conv in_set_conv_nth)
    then show False using assms by (simp add: flatten_def)
  qed
  then show thesis using that by blast
qed

text \<open>The map a table stands for, and the shape of a table that answers correctly.\<close>

definition table_map :: "(u64 \<times> 'v) option list \<Rightarrow> u64 \<rightharpoonup> 'v" where
  "table_map idx = map_of (flatten idx)"

definition table_reach :: "(u64 \<times> 'v) option list \<Rightarrow> bool" where
  "table_reach idx = reach bucket (length idx) (\<lambda>i. idx ! i \<noteq> None) (\<lambda>i. map_option fst (idx ! i))"

definition keys_distinct :: "(u64 \<times> 'v) option list \<Rightarrow> bool" where
  "keys_distinct idx = distinct (map fst (flatten idx))"

lemma table_map_iff: "keys_distinct idx \<Longrightarrow> table_map idx k = Some v \<longleftrightarrow> (k, v) \<in># entries idx"
  by (simp add: table_map_def keys_distinct_def map_of_eq_Some_iff)

lemma table_map_None: "table_map idx k = None \<longleftrightarrow> k \<notin> fst ` set_mset (entries idx)"
  by (simp add: table_map_def map_of_eq_None_iff)

lemma table_map_ext:
  assumes "keys_distinct idx" "\<And>x w. (x, w) \<in># entries idx \<longleftrightarrow> M x = Some w"
  shows "table_map idx = M"
proof
  fix x
  have "table_map idx x = Some w \<longleftrightarrow> M x = Some w" for w using table_map_iff [OF assms(1)] assms(2) by simp
  then show "table_map idx x = M x" by (metis not_None_eq)
qed

lemma keys_distinct_add_iff:
  assumes "entries idx' = add_mset (k, v) (entries idx)"
  shows "keys_distinct idx' \<longleftrightarrow> keys_distinct idx \<and> k \<notin> fst ` set_mset (entries idx)"
proof -
  have "mset (map fst (flatten idx')) = mset (k # map fst (flatten idx))" using assms by simp
  then show ?thesis using mset_eq_imp_distinct_iff [of "map fst (flatten idx')" "k # map fst (flatten idx)"]
    unfolding keys_distinct_def by auto
qed

lemma table_map_add:
  assumes "keys_distinct idx'" "entries idx' = add_mset (k, v) (entries idx)"
  shows "table_map idx' = (table_map idx)(k \<mapsto> v)" "table_map idx = (table_map idx')(k := None)"
proof -
  have d: "keys_distinct idx" "k \<notin> fst ` set_mset (entries idx)" using keys_distinct_add_iff [OF assms(2)] assms(1) by blast+
  have m: "(x, w) \<in># entries idx' \<longleftrightarrow> (x = k \<and> w = v) \<or> (x, w) \<in># entries idx" for x w using assms(2) by simp
  have n: "(k, w) \<notin># entries idx" for w using d(2) by force
  show "table_map idx' = (table_map idx)(k \<mapsto> v)"
    by (rule table_map_ext [OF assms(1)]) (use m n table_map_iff [OF d(1)] in auto)
  show "table_map idx = (table_map idx')(k := None)"
    by (rule table_map_ext [OF d(1)]) (use m n table_map_iff [OF assms(1)] in auto)
qed

subsection \<open>Searching and filling\<close>

lemma stops_iff: "stops idx raw = (\<lambda>i. \<not> idx ! i \<noteq> None \<or> (\<exists>v. idx ! i = Some (raw, v)))"
  by (rule ext) (auto simp: stops_def split: option.split)

lemma probe_key:
  assumes "length idx = 2 ^ e" "table_reach idx" "z < length idx" "idx ! z = None"
  obtains i where "i < length idx" "probe (length idx - 1) (stops idx raw) (bucket raw (length idx - 1)) = Some i"
    "\<And>p. on_path (length idx) (bucket raw (length idx - 1)) i p \<Longrightarrow> idx ! p \<noteq> None"
    "idx ! i = None \<and> raw \<notin> fst ` set_mset (entries idx) \<or> (\<exists>v. idx ! i = Some (raw, v))"
proof -
  let ?m = "\<lambda>i. \<exists>v. idx ! i = Some (raw, v)"
  obtain i where i: "i < 2 ^ e" "probe (2 ^ e - 1) (stops idx raw) (bucket raw (2 ^ e - 1)) = Some i"
    "\<forall>p. on_path (2 ^ e) (bucket raw (2 ^ e - 1)) i p \<longrightarrow> idx ! p \<noteq> None \<and> \<not> ?m p" "idx ! i \<noteq> None \<longrightarrow> ?m i"
    "\<not> idx ! i \<noteq> None \<longrightarrow> (\<forall>j < 2 ^ e. map_option fst (idx ! j) = Some raw \<longrightarrow> \<not> ?m j)"
    using hm.probe_find [of e "\<lambda>i. idx ! i \<noteq> None" "\<lambda>i. map_option fst (idx ! i)" z ?m raw] assms
    unfolding table_reach_def stops_iff by auto
  have "raw \<notin> fst ` set_mset (entries idx)" if "idx ! i = None"
  proof
    assume "raw \<in> fst ` set_mset (entries idx)"
    then obtain v where "(raw, v) \<in># entries idx" by auto
    then obtain j where "j < length idx" "idx ! j = Some (raw, v)" unfolding entries_iff by blast
    then show False using i(5) that assms(1) by auto
  qed
  then have "idx ! i = None \<and> raw \<notin> fst ` set_mset (entries idx) \<or> ?m i" using i(4) by blast
  then show thesis using that [of i] i(1-3) unfolding assms(1) by blast
qed

lemma occ_update: "i < length idx \<Longrightarrow> reach bucket (length idx) ((\<lambda>i. idx ! i \<noteq> None)(i := x \<noteq> None))
    ((\<lambda>i. map_option fst (idx ! i))(i := map_option fst x)) \<Longrightarrow> table_reach (idx[i := x])"
  unfolding table_reach_def reach_def by (auto simp: nth_list_update on_path_def)

lemma table_reach_fill:
  assumes "table_reach idx" "i < length idx" "\<And>p. on_path (length idx) (bucket k (length idx - 1)) i p \<Longrightarrow> idx ! p \<noteq> None"
  shows "table_reach (idx[i := Some (k, v)])"
  using hm.reach_insert [of "length idx" "\<lambda>i. idx ! i \<noteq> None" "\<lambda>i. map_option fst (idx ! i)" i k] assms
  by (intro occ_update) (simp_all add: table_reach_def)

lemma fill_table:
  assumes "length idx = 2 ^ e" "table_reach idx" "keys_distinct idx" "z < length idx" "idx ! z = None"
  obtains i where "i < length idx" "probe (length idx - 1) (stops idx raw) (bucket raw (length idx - 1)) = Some i"
    "table_reach (idx[i := Some (raw, v)])" "keys_distinct (idx[i := Some (raw, v)])"
    "table_map (idx[i := Some (raw, v)]) = (table_map idx)(raw \<mapsto> v)" "map_option snd (idx ! i) = table_map idx raw"
    "size (entries (idx[i := Some (raw, v)])) = (if table_map idx raw = None then Suc (size (entries idx)) else size (entries idx))"
    "set_mset (entries (idx[i := Some (raw, v)])) \<subseteq> insert (raw, v) (set_mset (entries idx))"
proof (rule probe_key [OF assms(1,2,4,5), of raw])
  fix i
  assume i: "i < length idx" "probe (length idx - 1) (stops idx raw) (bucket raw (length idx - 1)) = Some i"
    and path: "\<And>p. on_path (length idx) (bucket raw (length idx - 1)) i p \<Longrightarrow> idx ! p \<noteq> None"
    and c: "idx ! i = None \<and> raw \<notin> fst ` set_mset (entries idx) \<or> (\<exists>v. idx ! i = Some (raw, v))"
  let ?idx = "idx[i := Some (raw, v)]"
  note r = table_reach_fill [OF assms(2) i(1) path, where v = v]
  from c show thesis
  proof
    assume a: "idx ! i = None \<and> raw \<notin> fst ` set_mset (entries idx)"
    then have e: "entries ?idx = add_mset (raw, v) (entries idx)" using entries_fill [OF i(1)] by blast
    then have d: "keys_distinct ?idx" using keys_distinct_add_iff [OF e] assms(3) a by blast
    have "table_map idx raw = None" using a by (simp add: table_map_None)
    then show thesis using that [OF i r d table_map_add(1) [OF d e]] a e by auto
  next
    assume "\<exists>v. idx ! i = Some (raw, v)"
    then obtain w where w: "idx ! i = Some (raw, w)" by blast
    have e: "entries ?idx = add_mset (raw, v) (entries (idx[i := None]))"
      using entries_fill [of i "idx[i := None]" "(raw, v)"] i(1) by simp
    have e0: "entries idx = add_mset (raw, w) (entries (idx[i := None]))"
      using i(1) w by (rule entries_split)
    have d: "keys_distinct ?idx" using assms(3) keys_distinct_add_iff [OF e] keys_distinct_add_iff [OF e0] by blast
    have "table_map ?idx = (table_map idx)(raw \<mapsto> v)"
      using table_map_add(1) [OF d e] table_map_add(2) [OF assms(3) e0] by auto
    moreover have "table_map idx raw = Some w" using table_map_iff [OF assms(3)] e0 by simp
    ultimately show thesis using that [OF i r d] w e e0 by auto
  qed
qed

subsection \<open>Rebuilding\<close>

lemma place_all_spec:
  assumes "length idx = 2 ^ e" "table_reach idx" "keys_distinct idx"
    "distinct (map fst es)" "fst ` set es \<inter> fst ` set_mset (entries idx) = {}" "size (entries idx) + length es < 2 ^ e"
  shows "\<exists>idx'. place_all (2 ^ e - 1) es idx = Some idx' \<and> length idx' = 2 ^ e \<and> table_reach idx' \<and> keys_distinct idx' \<and>
    entries idx' = mset es + entries idx"
  using assms
proof (induction es arbitrary: idx)
  case (Cons e1 es)
  obtain raw v where e1: "e1 = (raw, v)" by fastforce
  have "size (entries idx) < length idx" using Cons.prems(1,6) by simp
  then obtain z where z: "z < length idx" "idx ! z = None" by (rule free_slot)
  have raw: "raw \<notin> fst ` set_mset (entries idx)" using Cons.prems(5) e1 by auto
  have no: "idx ! i \<noteq> Some (raw, w)" if "i < length idx" for i w
    using raw that entries_iff [of "(raw, w)" idx] by force
  obtain i where i: "i < length idx" "probe (length idx - 1) (stops idx raw) (bucket raw (length idx - 1)) = Some i"
    "\<And>p. on_path (length idx) (bucket raw (length idx - 1)) i p \<Longrightarrow> idx ! p \<noteq> None" "idx ! i = None"
    using probe_key [OF Cons.prems(1,2) z, of raw] no by metis
  have p: "probe (2 ^ e - 1) (\<lambda>i. idx ! i = None) (bucket raw (2 ^ e - 1)) = Some i"
  proof -
    obtain j where j: "j < 2 ^ e" "probe (2 ^ e - 1) (\<lambda>i. idx ! i = None) (bucket raw (2 ^ e - 1)) = Some j" "idx ! j = None"
      "\<forall>p < 2 ^ e. dist (2 ^ e) (bucket raw (2 ^ e - 1)) p < dist (2 ^ e) (bucket raw (2 ^ e - 1)) j \<longrightarrow> idx ! p \<noteq> None"
      using probe_ends [OF refl hm.home_less, of z e "\<lambda>i. idx ! i = None" raw] z Cons.prems(1) by auto
    have "\<not> dist (2 ^ e) (bucket raw (2 ^ e - 1)) j < dist (2 ^ e) (bucket raw (2 ^ e - 1)) i"
      using i(3) [of j] j(1,3) Cons.prems(1) by (auto simp: on_path_def)
    then have "dist (2 ^ e) (bucket raw (2 ^ e - 1)) j = dist (2 ^ e) (bucket raw (2 ^ e - 1)) i"
      using j(4) i(1,4) Cons.prems(1) by (metis linorder_neqE_nat)
    then show ?thesis using dist_inj [OF hm.home_less j(1)] i(1) j(2) Cons.prems(1) by metis
  qed
  let ?idx = "idx[i := Some (raw, v)]"
  have e: "entries ?idx = add_mset (raw, v) (entries idx)" using i(1,4) by (rule entries_fill)
  have "\<exists>idx'. place_all (2 ^ e - 1) es ?idx = Some idx' \<and> length idx' = 2 ^ e \<and> table_reach idx' \<and> keys_distinct idx' \<and>
    entries idx' = mset es + entries ?idx"
  proof (rule Cons.IH)
    show "table_reach ?idx" by (rule table_reach_fill [OF Cons.prems(2) i(1,3)])
    show "keys_distinct ?idx" using keys_distinct_add_iff [OF e] Cons.prems(3) raw by blast
  qed (use Cons.prems e e1 in \<open>auto simp: rev_image_eqI\<close>)
  then show ?case using p e e1 by auto
qed simp

subsection \<open>Removing\<close>

abbreviation slot_keys :: "(u64 \<times> 'v) option list \<Rightarrow> nat \<Rightarrow> u64 option" where
  "slot_keys idx \<equiv> (\<lambda>i. map_option fst (idx ! i))"

lemma shift_inv_cong:
  assumes "\<And>i. i < n \<Longrightarrow> f i = g i" "shift_inv home n f hole j"
  shows "shift_inv home n g hole j"
  using assms unfolding shift_inv_def on_path_def by auto

lemma shift_back_spec:
  assumes "length idx = 2 ^ e" "shift_inv bucket (2 ^ e) (slot_keys idx) hole j" "z < 2 ^ e" "idx ! z = None"
    "dist (2 ^ e) hole j < dist (2 ^ e) hole z"
  shows "\<exists>idx'. shift_back (2 ^ e - 1) hole j idx = Some idx' \<and> length idx' = 2 ^ e \<and> table_reach idx' \<and> entries idx' = entries idx"
  using assms
proof (induction "dist (2 ^ e) j z" arbitrary: j hole idx rule: less_induct)
  case less
  let ?n = "2 ^ e :: nat" and ?j = "nxt (2 ^ e) j"
  have b: "hole < ?n" "j < ?n" "idx ! hole = None" using less.prems(2) by (auto simp: shift_inv_def)
  have jz: "j \<noteq> z" using less.prems(5) by auto
  have jb: "?j < ?n" using b(2) by (rule nxt_less)
  have jh: "?j \<noteq> hole"
  proof
    assume h: "?j = hole"
    have "dist ?n hole j = dist ?n ?j z + dist ?n z j" using dist_split [of hole ?n z j] h b jb less.prems(3,5)
      dist_nxt [OF b(2) less.prems(3) jz] by (auto simp: dist_def nxt_def split: if_splits)
    then show False using less.prems(5) h by simp
  qed
  have and_j: "(j + 1) AND (?n - 1) = ?j" using b(2) by (rule nxt_and)
  note unf = shift_back.simps [of "?n - 1" hole j idx, unfolded and_j Let_def]
  have hom: "\<And>k. bucket k (?n - 1) < ?n" by (rule hm.home_less)
  show ?case
  proof (cases "idx ! ?j")
    case None
    have "reach bucket ?n (\<lambda>i. slot_keys idx i \<noteq> None) (slot_keys idx)"
      using hm.shift_stop [OF less.prems(2) _ jh hom] None by simp
    then have "table_reach idx" using less.prems(1) by (simp add: table_reach_def)
    moreover have "shift_back (?n - 1) hole j idx = Some idx"
      by (simp only: unf None option.case)
    ultimately show ?thesis using less.prems(1) by blast
  next
    case (Some kv)
    obtain k v where kv: "kv = (k, v)" by fastforce
    have zj: "z \<noteq> ?j" "z \<noteq> hole" using Some less.prems(4,5) by auto
    have dec: "dist ?n ?j z < dist ?n j z" using dist_nxt [OF b(2) less.prems(3) jz] by simp
    have step: "dist ?n hole ?j = Suc (dist ?n hole j)" using dist_Suc [OF b(1,2) jh] .
    show ?thesis
    proof (cases "movable hole ?j (bucket k (?n - 1))")
      case True
      let ?idx = "idx[hole := Some (k, v), ?j := None]"
      have code: "shift_back (?n - 1) hole j idx = shift_back (?n - 1) ?j ?j ?idx"
        by (simp only: unf Some kv True option.case prod.case if_True)
      have inv: "shift_inv bucket ?n (slot_keys ?idx) ?j ?j"
      proof (rule shift_inv_cong)
        show "shift_inv bucket ?n ((slot_keys idx)(hole := Some k, ?j := None)) ?j ?j"
          by (rule hm.shift_move [OF less.prems(2) _ True hom]) (simp add: Some kv)
        show "((slot_keys idx)(hole := Some k, ?j := None)) i = slot_keys ?idx i" if "i < ?n" for i
          using that less.prems(1) by (simp add: nth_list_update)
      qed
      have "entries idx = entries ?idx"
      proof -
        have "entries idx = add_mset (k, v) (entries (idx[?j := None]))" using Some kv jb less.prems(1) by (intro entries_split) auto
        moreover have "entries (idx[?j := None, hole := Some (k, v)]) = add_mset (k, v) (entries (idx[?j := None]))"
          using b less.prems(1) jh by (intro entries_fill) auto
        ultimately show ?thesis using jh by (simp add: list_update_swap)
      qed
      moreover have "0 < dist ?n ?j z" using zj(1) jb less.prems(3) by (metis dist_0_iff gr0I)
      ultimately show ?thesis using less.hyps [OF dec _ inv less.prems(3)] less.prems(1,4) zj code by auto
    next
      case False
      have code: "shift_back (?n - 1) hole j idx = shift_back (?n - 1) hole ?j idx"
        by (simp only: unf Some kv False option.case prod.case if_False)
      have inv: "shift_inv bucket ?n (slot_keys idx) hole ?j"
        using hm.shift_keep [OF less.prems(2) _ False hom] Some kv by simp
      have "dist ?n hole ?j \<noteq> dist ?n hole z" using dist_inj [OF b(1) jb less.prems(3)] zj(1) by metis
      then have "dist ?n hole ?j < dist ?n hole z" using step less.prems(5) by simp
      then show ?thesis using less.hyps [OF dec less.prems(1) inv less.prems(3,4)] code by simp
    qed
  qed
qed

subsection \<open>The slot bitset\<close>

lemma bit_test: "drop_bit n w AND 1 \<noteq> 0 \<longleftrightarrow> bit w n" for w :: "'a :: len word"
  by (simp add: and_one_eq odd_iff_mod_2_eq_one flip: bit_iff_odd_drop_bit) (simp add: bit_iff_odd_drop_bit odd_iff_mod_2_eq_one)

lemma may_contain_iff: "may_contain m raw \<longleftrightarrow> slot_of raw div 64 < length (bits m) \<and> bit (bits m ! (slot_of raw div 64)) (slot_of raw mod 64)"
  by (simp add: may_contain_def Let_def bit_test get_opt_def)

lemma mark_bit_spec:
  "may_contain (mark_bit m raw) k \<longleftrightarrow> may_contain m k \<or> slot_of k = slot_of raw"
proof -
  let ?w = "slot_of raw div 64" and ?i = "slot_of raw mod 64"
  define bs where "bs = (if length (bits m) \<le> ?w then bits m @ replicate (?w + 1 - length (bits m)) 0 else bits m)"
  have l: "?w < length bs" "length (bits m) \<le> length bs" by (auto simp: bs_def)
  have n: "j < length bs \<Longrightarrow> bs ! j = (if j < length (bits m) then bits m ! j else 0)" for j
    by (auto simp: bs_def nth_append)
  have m: "bits (mark_bit m raw) = bs[?w := bs ! ?w OR push_bit ?i 1]" by (simp add: mark_bit_def Let_def bs_def)
  have same: "slot_of k = slot_of raw \<longleftrightarrow> slot_of k div 64 = ?w \<and> slot_of k mod 64 = ?i" by (metis div_mult_mod_eq)
  show ?thesis
  proof (cases "slot_of k div 64 = ?w")
    case True
    have "slot_of k mod 64 < 64" by simp
    then have "bit (push_bit ?i (1 :: u64)) (slot_of k mod 64) \<longleftrightarrow> slot_of k mod 64 = ?i"
      by (auto simp: bit_push_bit_iff bit_1_iff simp del: push_bit_of_1)
    then show ?thesis using True l n [OF l(1)] unfolding may_contain_iff m same
      by (auto simp: bit_or_iff simp del: push_bit_of_1)
  next
    case False
    show ?thesis
    proof (cases "slot_of k div 64 < length bs")
      case True
      then show ?thesis using False n [OF True] unfolding may_contain_iff m same by auto
    next
      case lt: False
      then show ?thesis using False l unfolding may_contain_iff m same by auto
    qed
  qed
qed

lemma mark_bit_other [simp]: "index (mark_bit m raw) = index m" "map_len (mark_bit m raw) = map_len m" "fresh (mark_bit m raw) = fresh m"
  by (simp_all add: mark_bit_def Let_def)

subsection \<open>The invariant and the operations\<close>

definition map_inv :: "'v handle_keyed_map \<Rightarrow> bool" where
  "map_inv m \<longleftrightarrow> (index m = [] \<or> (\<exists>e. length (index m) = 2 ^ e)) \<and> table_reach (index m) \<and> keys_distinct (index m) \<and>
     map_len m = size (entries (index m)) \<and> 2 * map_len m \<le> length (index m) \<and>
     (\<forall>k \<in> fst ` set_mset (entries (index m)). may_contain m k)"

abbreviation contents :: "'v handle_keyed_map \<Rightarrow> u64 \<rightharpoonup> 'v" where
  "contents m \<equiv> table_map (index m)"

lemma map_inv_bits: "map_inv m \<Longrightarrow> \<not> may_contain m k \<Longrightarrow> contents m k = None"
  by (auto simp: map_inv_def table_map_None)

lemma may_contain_cong: "bits m = bits m' \<Longrightarrow> may_contain m = may_contain m'"
  by (rule ext) (simp add: may_contain_def)

lemma find_bucket_spec:
  assumes "map_inv m"
  shows "\<exists>f. find_bucket (index m) raw = Some f \<and>
    (case f of None \<Rightarrow> contents m raw = None
     | Some i \<Rightarrow> i < length (index m) \<and> (\<exists>v. index m ! i = Some (raw, v) \<and> contents m raw = Some v))"
proof (cases "index m = []")
  case True
  then show ?thesis by (simp add: find_bucket_def table_map_def flatten_def)
next
  case False
  obtain e where e: "length (index m) = 2 ^ e" using assms False by (auto simp: map_inv_def)
  have "0 < length (index m)" using False by simp
  then have "size (entries (index m)) < length (index m)" using assms unfolding map_inv_def by linarith
  then obtain z where z: "z < length (index m)" "index m ! z = None" by (rule free_slot)
  have r: "table_reach (index m)" "keys_distinct (index m)" using assms by (auto simp: map_inv_def)
  show ?thesis
  proof (rule probe_key [OF e r(1) z, of raw])
    fix i assume i: "i < length (index m)" "probe (length (index m) - 1) (stops (index m) raw) (bucket raw (length (index m) - 1)) = Some i"
      "index m ! i = None \<and> raw \<notin> fst ` set_mset (entries (index m)) \<or> (\<exists>v. index m ! i = Some (raw, v))"
    have "contents m raw = Some v" if "index m ! i = Some (raw, v)" for v
      using that i(1) table_map_iff [OF r(2), of raw v] entries_iff [of "(raw, v)" "index m"] by blast
    moreover have "find_bucket (index m) raw = Some (if index m ! i = None then None else Some i)"
      using False i(2) by (simp add: find_bucket_def Let_def)
    ultimately show ?thesis using i(1,3) table_map_None [of "index m" raw] by auto
  qed
qed

lemma flatten_replicate [simp]: "flatten (replicate n None) = []" by (simp add: flatten_def)

lemma rebuild_index_spec:
  assumes "keys_distinct (index m)" "map_len m = size (entries (index m))"
  obtains idx e where "rebuild_index m b = Some (m\<lparr>index := idx\<rparr>)" "length idx = 2 ^ e" "table_reach idx" "keys_distinct idx"
    "entries idx = entries (index m)" "table_map idx = contents m" "2 * map_len m \<le> length idx" "b \<le> length idx" "16 \<le> length idx"
proof (rule next_power_of_two)
  fix e assume e: "next_power_of_two (max (max b (map_len m * 2)) 16) = 2 ^ e" "max (max b (map_len m * 2)) 16 \<le> (2 :: nat) ^ e"
  have "\<exists>idx'. place_all (2 ^ e - 1) (flatten (index m)) (replicate (2 ^ e) None) = Some idx' \<and> length idx' = 2 ^ e \<and>
      table_reach idx' \<and> keys_distinct idx' \<and> entries idx' = mset (flatten (index m)) + entries (replicate (2 ^ e) None :: (u64 \<times> 'a) option list)"
    by (rule place_all_spec) (use assms e in \<open>auto simp: table_reach_def reach_def keys_distinct_def\<close>)
  then obtain idx where idx: "place_all (2 ^ e - 1) (flatten (index m)) (replicate (2 ^ e) None) = Some idx" "length idx = 2 ^ e"
    "table_reach idx" "keys_distinct idx" "entries idx = entries (index m)" by auto
  have "table_map idx = contents m"
    by (rule table_map_ext [OF idx(4)]) (simp only: idx(5) table_map_iff [OF assms(1)])
  then show thesis using that [of idx e] idx e by (simp add: rebuild_index_def Let_def)
qed

lemma index_put_spec:
  assumes "map_inv m" "may_contain m raw"
  obtains m' where "index_put m raw v = Some (contents m raw, m')" "map_inv m'" "contents m' = (contents m)(raw \<mapsto> v)"
    "fresh m' = fresh m" "bits m' = bits m"
proof -
  have d: "keys_distinct (index m)" "map_len m = size (entries (index m))" using assms(1) by (auto simp: map_inv_def)
  have "\<exists>idx e. (if length (index m) < (map_len m + 1) * 2 then rebuild_index m ((map_len m + 1) * 2) else Some m) = Some (m\<lparr>index := idx\<rparr>) \<and>
      length idx = 2 ^ e \<and> table_reach idx \<and> keys_distinct idx \<and> entries idx = entries (index m) \<and> table_map idx = contents m \<and>
      (map_len m + 1) * 2 \<le> length idx"
  proof (cases "length (index m) < (map_len m + 1) * 2")
    case True
    show ?thesis by (rule rebuild_index_spec [OF d, of "(map_len m + 1) * 2"]) (use True in auto)
  next
    case False
    then have "index m \<noteq> []" by auto
    then show ?thesis using assms(1) False by (auto simp: map_inv_def intro!: exI [of _ "index m"])
  qed
  then obtain idx e where R: "(if length (index m) < (map_len m + 1) * 2 then rebuild_index m ((map_len m + 1) * 2) else Some m) = Some (m\<lparr>index := idx\<rparr>)"
    and idx: "length idx = 2 ^ e" "table_reach idx" "keys_distinct idx" "entries idx = entries (index m)" "table_map idx = contents m"
      "(map_len m + 1) * 2 \<le> length idx" by blast
  have "size (entries idx) < length idx" using idx(4,6) d(2) by simp
  then obtain z where z: "z < length idx" "idx ! z = None" by (rule free_slot)
  show thesis
  proof (rule fill_table [OF idx(1-3) z, of raw v])
    fix i
    assume i: "i < length idx" "probe (length idx - 1) (stops idx raw) (bucket raw (length idx - 1)) = Some i"
      and t: "table_reach (idx[i := Some (raw, v)])" "keys_distinct (idx[i := Some (raw, v)])"
        "table_map (idx[i := Some (raw, v)]) = (table_map idx)(raw \<mapsto> v)" "map_option snd (idx ! i) = table_map idx raw"
        "size (entries (idx[i := Some (raw, v)])) = (if table_map idx raw = None then Suc (size (entries idx)) else size (entries idx))"
        "set_mset (entries (idx[i := Some (raw, v)])) \<subseteq> insert (raw, v) (set_mset (entries idx))"
    define m' where "m' = m\<lparr>index := idx[i := Some (raw, v)], map_len := map_len m + (if idx ! i = None then 1 else 0)\<rparr>"
    have "index_put m raw v = Some (contents m raw, m')"
      unfolding index_put_def R using i(2) t(4) idx(5)
      by (cases "idx ! i") (auto simp: Let_def m'_def split: prod.split)
    moreover have "map_inv m'"
    proof -
      have b: "may_contain m' = may_contain m" by (rule may_contain_cong) (simp add: m'_def)
      have keys: "fst ` set_mset (entries (index m')) \<subseteq> insert raw (fst ` set_mset (entries (index m)))"
        using t(6) idx(4) by (auto simp: m'_def)
      have "map_len m' = size (entries (index m'))" using t(4) [symmetric] t(5) d(2) idx(4) by (cases "idx ! i") (auto simp: m'_def)
      moreover have "2 * map_len m' \<le> length (index m')" using idx(6) by (auto simp: m'_def)
      moreover have "\<forall>k \<in> fst ` set_mset (entries (index m')). may_contain m' k"
        unfolding b using keys assms unfolding map_inv_def by blast
      moreover have "index m' = idx[i := Some (raw, v)]" by (simp add: m'_def)
      ultimately show ?thesis using t(1,2) idx(1) unfolding map_inv_def by (metis length_list_update)
    qed
    ultimately show thesis using that [of m'] t(3) idx(5) by (simp add: m'_def)
  qed
qed

lemma index_remove_spec:
  assumes "map_inv m"
  obtains m' where "index_remove m raw = Some (contents m raw, m')" "map_inv m'" "contents m' = (contents m)(raw := None)"
    "fresh m' = fresh m"
proof -
  obtain f where f: "find_bucket (index m) raw = Some f"
    "case f of None \<Rightarrow> contents m raw = None
     | Some i \<Rightarrow> i < length (index m) \<and> (\<exists>v. index m ! i = Some (raw, v) \<and> contents m raw = Some v)"
    using find_bucket_spec [OF assms] by blast
  show thesis
  proof (cases f)
    case None
    then have "contents m = (contents m)(raw := None)" using f(2) by auto
    then show thesis using that [of m] None f assms by (simp add: index_remove_def)
  next
    case (Some hole)
    then obtain v where v: "hole < length (index m)" "index m ! hole = Some (raw, v)" "contents m raw = Some v" using f(2) by auto
    obtain e where e: "length (index m) = 2 ^ e" using assms v(1) by (auto simp: map_inv_def)
    have inv: "table_reach (index m)" "keys_distinct (index m)" "map_len m = size (entries (index m))" "2 * map_len m \<le> length (index m)"
      "\<forall>k \<in> fst ` set_mset (entries (index m)). may_contain m k" using assms by (auto simp: map_inv_def)
    let ?idx = "(index m)[hole := None]"
    have es: "entries (index m) = add_mset (raw, v) (entries ?idx)" using v(1,2) by (rule entries_split)
    have "size (entries (index m)) < length (index m)" using inv(3,4) v(1) by linarith
    then obtain z where z: "z < length (index m)" "index m ! z = None" by (rule free_slot)
    have zh: "z \<noteq> hole" using z(2) v(2) by auto
    have start: "shift_inv bucket (2 ^ e) (slot_keys ?idx) hole hole"
    proof (rule shift_inv_cong)
      show "shift_inv bucket (2 ^ e) ((slot_keys (index m))(hole := None)) hole hole"
        using inv(1) e v(1) by (intro hm.shift_start) (auto simp: table_reach_def)
      show "((slot_keys (index m))(hole := None)) i = slot_keys ?idx i" if "i < 2 ^ e" for i
        using that e by (simp add: nth_list_update)
    qed
    have "0 < dist (2 ^ e) hole z" using zh z(1) v(1) e by (metis dist_0_iff gr0I)
    then obtain idx' where idx': "shift_back (2 ^ e - 1) hole hole ?idx = Some idx'" "length idx' = 2 ^ e" "table_reach idx'"
      "entries idx' = entries ?idx"
      using shift_back_spec [OF _ start, of z] e z zh by auto
    have es': "entries (index m) = add_mset (raw, v) (entries idx')" using es idx'(4) by simp
    define m' where "m' = m\<lparr>index := idx', map_len := map_len m - 1\<rparr>"
    have "index_remove m raw = Some (contents m raw, m')"
      using f(1) Some idx'(1) v(2,3) e by (simp add: index_remove_def Let_def m'_def)
    moreover have "contents m' = (contents m)(raw := None)" using table_map_add(2) [OF inv(2) es'] by (simp add: m'_def)
    moreover have "map_inv m'"
    proof -
      have b: "may_contain m' = may_contain m" by (rule may_contain_cong) (simp add: m'_def)
      have "set_mset (entries idx') \<subseteq> set_mset (entries (index m))" using es' by auto
      then have "\<forall>k \<in> fst ` set_mset (entries idx'). may_contain m k" using inv(5) by blast
      moreover have "keys_distinct idx'" using keys_distinct_add_iff [OF es'] inv(2) by blast
      moreover have "map_len m - 1 = size (entries idx')" using inv(3) es' by simp
      ultimately show ?thesis using idx' inv(4) e unfolding map_inv_def b by (auto simp: m'_def)
    qed
    ultimately show thesis using that [of m'] by (simp add: m'_def)
  qed
qed

lemma map_get_spec:
  assumes "map_inv m"
  shows "map_get m raw = Some (contents m raw)" "contains_key m raw = Some (contents m raw \<noteq> None)"
proof -
  obtain f where f: "find_bucket (index m) raw = Some f"
    "case f of None \<Rightarrow> contents m raw = None
     | Some i \<Rightarrow> i < length (index m) \<and> (\<exists>v. index m ! i = Some (raw, v) \<and> contents m raw = Some v)"
    using find_bucket_spec [OF assms] by blast
  then show "map_get m raw = Some (contents m raw)" "contains_key m raw = Some (contents m raw \<noteq> None)"
    using map_inv_bits [OF assms, of raw] by (cases f; auto simp: map_get_def contains_key_def)+
qed

lemma map_insert_spec:
  assumes "map_inv m"
  obtains m' where "map_insert m raw v = Some (contents m raw, m')" "map_inv m'" "contents m' = (contents m)(raw \<mapsto> v)"
    "fresh m' = map_option (\<lambda>f. f @ [raw]) (fresh m)"
proof -
  let ?m = "mark_bit (m\<lparr>fresh := map_option (\<lambda>f. f @ [raw]) (fresh m)\<rparr>) raw"
  have c: "may_contain (m\<lparr>fresh := map_option (\<lambda>f. f @ [raw]) (fresh m)\<rparr>) = may_contain m" by (rule may_contain_cong) simp
  have "map_inv ?m" using assms unfolding map_inv_def by (auto simp: mark_bit_spec c)
  moreover have "may_contain ?m raw" by (simp add: mark_bit_spec)
  ultimately obtain m' where "index_put ?m raw v = Some (contents ?m raw, m')" "map_inv m'" "contents m' = (contents ?m)(raw \<mapsto> v)"
    "fresh m' = fresh ?m" by (rule index_put_spec)
  then show thesis using that [of m'] by (simp add: map_insert_def)
qed

lemma map_remove_spec:
  assumes "map_inv m"
  obtains m' where "map_remove m raw = Some (contents m raw, m')" "map_inv m'" "contents m' = (contents m)(raw := None)"
    "fresh m' = fresh m"
proof (cases "may_contain m raw")
  case True
  show thesis by (rule index_remove_spec [OF assms, of raw]) (use that True in \<open>auto simp: map_remove_def\<close>)
next
  case False
  then have "contents m raw = None" using map_inv_bits [OF assms] by blast
  then have "contents m = (contents m)(raw := None)" by auto
  then show thesis using that [of m] False assms \<open>contents m raw = None\<close> by (simp add: map_remove_def)
qed

lemma map_inv_rebuild:
  assumes "keys_distinct (index m)" "map_len m = size (entries (index m))" "\<forall>k \<in> fst ` set_mset (entries (index m)). may_contain m k"
  obtains m' where "rebuild_index m b = Some m'" "map_inv m'" "contents m' = contents m" "fresh m' = fresh m"
proof (rule rebuild_index_spec [OF assms(1,2), of b])
  fix idx e
  assume r: "rebuild_index m b = Some (m\<lparr>index := idx\<rparr>)" "length idx = 2 ^ e" "table_reach idx" "keys_distinct idx"
    "entries idx = entries (index m)" "table_map idx = contents m" "2 * map_len m \<le> length idx"
  have "may_contain (m\<lparr>index := idx\<rparr>) = may_contain m" by (rule may_contain_cong) simp
  then have "map_inv (m\<lparr>index := idx\<rparr>)" using r assms(2,3) unfolding map_inv_def by simp
  then show thesis using that r by simp
qed

lemma reserve_spec:
  assumes "map_inv m"
  obtains m' where "reserve m n = Some m'" "map_inv m'" "contents m' = contents m" "fresh m' = fresh m"
proof (cases "length (index m) < (map_len m + n) * 2")
  case True
  show thesis by (rule map_inv_rebuild [of m "(map_len m + n) * 2"])
    (use assms that True in \<open>auto simp: map_inv_def reserve_def Let_def\<close>)
next
  case False
  then show thesis using that assms by (simp add: reserve_def Let_def)
qed

lemma flatten_simps [simp]: "flatten [] = []" "flatten (None # idx) = flatten idx" "flatten (Some e # idx) = e # flatten idx"
  by (simp_all add: flatten_def)

lemma flatten_retain:
  "flatten (map (retain_slot f) idx) = map (\<lambda>(k, v). (k, snd (f k v))) (filter (\<lambda>(k, v). fst (f k v)) (flatten idx))"
  by (induction idx) (auto simp: retain_slot_def split: option.split prod.split)

lemma retain_count:
  "length (flatten (map (retain_slot f) idx)) + length (filter (\<lambda>(e, e'). e \<noteq> None \<and> e' = None) (zip idx (map (retain_slot f) idx))) =
     length (flatten idx)"
  by (induction idx) (auto simp: retain_slot_def split: option.split prod.split)

definition retain_map :: "(u64 \<Rightarrow> 'v \<Rightarrow> bool \<times> 'v) \<Rightarrow> (u64 \<rightharpoonup> 'v) \<Rightarrow> u64 \<rightharpoonup> 'v" where
  "retain_map f M = (\<lambda>k. case M k of None \<Rightarrow> None | Some v \<Rightarrow> if fst (f k v) then Some (snd (f k v)) else None)"

lemma retain_spec:
  assumes "map_inv m"
  obtains m' where "retain m f = Some m'" "map_inv m'" "contents m' = retain_map f (contents m)" "fresh m' = fresh m"
proof -
  define idx where "idx = map (retain_slot f) (index m)"
  define m1 where "m1 = m\<lparr>index := idx, map_len := length (flatten idx)\<rparr>"
  have inv: "keys_distinct (index m)" "map_len m = length (flatten (index m))" "\<forall>k \<in> fst ` set (flatten (index m)). may_contain m k"
    using assms by (auto simp: map_inv_def)
  have fl: "flatten idx = map (\<lambda>(k, v). (k, snd (f k v))) (filter (\<lambda>(k, v). fst (f k v)) (flatten (index m)))"
    by (simp add: idx_def flatten_retain)
  have fst: "map fst (flatten idx) = map fst (filter (\<lambda>(k, v). fst (f k v)) (flatten (index m)))" by (simp add: fl case_prod_beta comp_def)
  have d: "keys_distinct idx" using inv(1) unfolding keys_distinct_def fst by (simp add: distinct_map_filter)
  have code: "retain m f = rebuild_index m1 0"
    by (simp only: retain_def Let_def m1_def idx_def inv(2) retain_count [of f "index m", symmetric] diff_add_inverse2)
  have c: "may_contain m1 = may_contain m" by (rule may_contain_cong) (simp add: m1_def)
  have "table_map idx = retain_map f (contents m)"
  proof (rule table_map_ext [OF d])
    fix x w
    have "(x, w) \<in># entries idx \<longleftrightarrow> (\<exists>v. (x, v) \<in># entries (index m) \<and> fst (f x v) \<and> w = snd (f x v))" by (auto simp: fl)
    also have "\<dots> \<longleftrightarrow> (\<exists>v. contents m x = Some v \<and> fst (f x v) \<and> w = snd (f x v))" by (simp only: table_map_iff [OF inv(1)])
    also have "\<dots> \<longleftrightarrow> retain_map f (contents m) x = Some w" by (auto simp: retain_map_def split: option.split)
    finally show "(x, w) \<in># entries idx \<longleftrightarrow> retain_map f (contents m) x = Some w" .
  qed
  then have cm: "contents m1 = retain_map f (contents m)" by (simp add: m1_def)
  have k: "\<forall>k \<in> fst ` set_mset (entries (index m1)). may_contain m1 k" using inv(3) unfolding c by (force simp: m1_def fl)
  have d1: "keys_distinct (index m1)" "map_len m1 = size (entries (index m1))" "fresh m1 = fresh m" using d by (simp_all add: m1_def)
  from d1(1,2) k obtain m' where "rebuild_index m1 0 = Some m'" "map_inv m'" "contents m' = contents m1" "fresh m' = fresh m1"
    by (rule map_inv_rebuild)
  then show thesis using that [of m'] by (simp only: code cm d1(3))
qed

subsection \<open>A keyed store\<close>

text \<open>What the clients of a keyed table rely on: insertion and removal always return, and act as on a map.\<close>

locale keyed_store =
  fixes inv :: "'s \<Rightarrow> bool" and abs :: "'s \<Rightarrow> 'k \<rightharpoonup> 'v"
    and ins :: "'s \<Rightarrow> 'k \<Rightarrow> 'v \<Rightarrow> ('v option \<times> 's) option" and rem :: "'s \<Rightarrow> 'k \<Rightarrow> ('v option \<times> 's) option"
  assumes ins: "inv s \<Longrightarrow> \<exists>s'. ins s k v = Some (abs s k, s') \<and> inv s' \<and> abs s' = (abs s)(k \<mapsto> v)"
    and rem: "inv s \<Longrightarrow> \<exists>s'. rem s k = Some (abs s k, s') \<and> inv s' \<and> abs s' = (abs s)(k := None)"
begin

lemma put_back:
  assumes "inv s"
  shows "\<exists>s'. (case ov of None \<Rightarrow> Some s | Some v \<Rightarrow> map_option snd (ins s k v)) = Some s' \<and> inv s' \<and>
    abs s' = (case ov of None \<Rightarrow> abs s | Some v \<Rightarrow> (abs s)(k \<mapsto> v))"
  using assms ins [OF assms, of k] by (cases ov) fastforce+

text \<open>Taking two entries out and putting them back under each other's key.\<close>

lemma exchange:
  assumes "inv s"
  shows "\<exists>s'. Option.bind (rem s a) (\<lambda>(va, s1). Option.bind (rem s1 b) (\<lambda>(vb, s2).
      Option.bind (case vb of None \<Rightarrow> Some s2 | Some v \<Rightarrow> map_option snd (ins s2 a v)) (\<lambda>s3.
        case va of None \<Rightarrow> Some s3 | Some v \<Rightarrow> map_option snd (ins s3 b v)))) = Some s' \<and> inv s' \<and>
    abs s' = (abs s)(a := abs s b, b := abs s a)"
proof -
  obtain s1 where 1: "rem s a = Some (abs s a, s1)" "inv s1" "abs s1 = (abs s)(a := None)" using rem [OF assms] by blast
  obtain s2 where 2: "rem s1 b = Some (abs s1 b, s2)" "inv s2" "abs s2 = (abs s1)(b := None)" using rem [OF 1(2)] by blast
  obtain s3 where 3: "(case abs s1 b of None \<Rightarrow> Some s2 | Some v \<Rightarrow> map_option snd (ins s2 a v)) = Some s3" "inv s3"
    "abs s3 = (case abs s1 b of None \<Rightarrow> abs s2 | Some v \<Rightarrow> (abs s2)(a \<mapsto> v))" using put_back [OF 2(2)] by blast
  obtain s4 where 4: "(case abs s a of None \<Rightarrow> Some s3 | Some v \<Rightarrow> map_option snd (ins s3 b v)) = Some s4" "inv s4"
    "abs s4 = (case abs s a of None \<Rightarrow> abs s3 | Some v \<Rightarrow> (abs s3)(b \<mapsto> v))" using put_back [OF 3(2)] by blast
  have "abs s4 = (abs s)(a := abs s b, b := abs s a)"
    unfolding 4(3) 3(3) 2(3) 1(3) by (auto split: option.splits)
  then show ?thesis using 1(1) 2(1) 3(1) 4(1,2) by auto
qed

end

interpretation handles: keyed_store map_inv contents map_insert map_remove
  by unfold_locales (metis map_insert_spec, metis map_remove_spec)

lemma swap_entries_spec:
  assumes "map_inv m"
  obtains m' where "swap_entries m a b = Some m'" "map_inv m'" "contents m' = (contents m)(a := contents m b, b := contents m a)"
  using handles.exchange [OF assms, of a b] unfolding swap_entries_def by blast

subsection \<open>Sequences of operations\<close>

datatype 'v map_op = Get u64 | ContainsKey u64 | Insert u64 'v | Remove u64 | Retain "u64 \<Rightarrow> 'v \<Rightarrow> bool \<times> 'v"
  | SwapEntries u64 u64 | Reserve nat | TakeFresh | ClearFresh

datatype 'v reply = Val "'v option" | Flag bool | Unit

fun run_op :: "'v map_op \<Rightarrow> 'v handle_keyed_map \<Rightarrow> ('v reply \<times> 'v handle_keyed_map) option" where
  "run_op (Get k) m = map_option (\<lambda>r. (Val r, m)) (map_get m k)"
| "run_op (ContainsKey k) m = map_option (\<lambda>b. (Flag b, m)) (contains_key m k)"
| "run_op (Insert k v) m = map_option (\<lambda>(r, m'). (Val r, m')) (map_insert m k v)"
| "run_op (Remove k) m = map_option (\<lambda>(r, m'). (Val r, m')) (map_remove m k)"
| "run_op (Retain f) m = map_option (Pair Unit) (retain m f)"
| "run_op (SwapEntries a b) m = map_option (Pair Unit) (swap_entries m a b)"
| "run_op (Reserve n) m = map_option (Pair Unit) (reserve m n)"
| "run_op TakeFresh m = Some (Unit, snd (take_fresh m))"
| "run_op ClearFresh m = Some (Unit, clear_fresh m)"

fun spec_op :: "'v map_op \<Rightarrow> (u64 \<rightharpoonup> 'v) \<Rightarrow> 'v reply \<times> (u64 \<rightharpoonup> 'v)" where
  "spec_op (Get k) M = (Val (M k), M)"
| "spec_op (ContainsKey k) M = (Flag (M k \<noteq> None), M)"
| "spec_op (Insert k v) M = (Val (M k), M(k \<mapsto> v))"
| "spec_op (Remove k) M = (Val (M k), M(k := None))"
| "spec_op (Retain f) M = (Unit, retain_map f M)"
| "spec_op (SwapEntries a b) M = (Unit, M(a := M b, b := M a))"
| "spec_op (Reserve n) M = (Unit, M)"
| "spec_op TakeFresh M = (Unit, M)"
| "spec_op ClearFresh M = (Unit, M)"

fun run_ops :: "'v map_op list \<Rightarrow> 'v handle_keyed_map \<Rightarrow> ('v reply list \<times> 'v handle_keyed_map) option" where
  "run_ops [] m = Some ([], m)"
| "run_ops (x # xs) m = Option.bind (run_op x m) (\<lambda>(r, m'). map_option (\<lambda>(rs, m2). (r # rs, m2)) (run_ops xs m'))"

fun spec_ops :: "'v map_op list \<Rightarrow> (u64 \<rightharpoonup> 'v) \<Rightarrow> 'v reply list \<times> (u64 \<rightharpoonup> 'v)" where
  "spec_ops [] M = ([], M)"
| "spec_ops (x # xs) M = (case spec_op x M of (r, M') \<Rightarrow> case spec_ops xs M' of (rs, M2) \<Rightarrow> (r # rs, M2))"

lemma map_inv_fresh: "map_inv m \<Longrightarrow> map_inv (m\<lparr>fresh := f\<rparr>)"
  using may_contain_cong [of "m\<lparr>fresh := f\<rparr>" m] by (simp add: map_inv_def)

lemma map_inv_new: "map_inv new_map" "contents new_map = (\<lambda>_. None)"
  by (simp_all add: map_inv_def new_map_def table_reach_def reach_def keys_distinct_def table_map_def fun_eq_iff)

lemma run_op_simulates:
  assumes "map_inv m"
  shows "\<exists>m'. run_op x m = Some (fst (spec_op x (contents m)), m') \<and> map_inv m' \<and> contents m' = snd (spec_op x (contents m))"
proof (cases x)
  case (Insert k v)
  show ?thesis by (rule map_insert_spec [OF assms, of k v]) (simp add: Insert)
next
  case (Remove k)
  show ?thesis by (rule map_remove_spec [OF assms, of k]) (simp add: Remove)
next
  case (Retain f)
  show ?thesis by (rule retain_spec [OF assms, of f]) (simp add: Retain)
next
  case (SwapEntries a b)
  show ?thesis by (rule swap_entries_spec [OF assms, of a b]) (simp add: SwapEntries)
next
  case (Reserve n)
  show ?thesis by (rule reserve_spec [OF assms, of n]) (simp add: Reserve)
qed (use assms in \<open>simp_all add: map_get_spec take_fresh_def clear_fresh_def map_inv_fresh\<close>)

lemma run_ops_simulates:
  assumes "map_inv m"
  shows "\<exists>m'. run_ops xs m = Some (fst (spec_ops xs (contents m)), m') \<and> map_inv m' \<and> contents m' = snd (spec_ops xs (contents m))"
  using assms
proof (induction xs arbitrary: m)
  case (Cons x xs)
  obtain m1 where 1: "run_op x m = Some (fst (spec_op x (contents m)), m1)" "map_inv m1" "contents m1 = snd (spec_op x (contents m))"
    using run_op_simulates [OF Cons.prems] by blast
  obtain m2 where 2: "run_ops xs m1 = Some (fst (spec_ops xs (contents m1)), m2)" "map_inv m2" "contents m2 = snd (spec_ops xs (contents m1))"
    using Cons.IH [OF 1(2)] by blast
  show ?case using 1 2 by (auto simp: case_prod_beta)
qed simp

lemma map_values_ran: "keys_distinct (index m) \<Longrightarrow> set (map_values m) = ran (contents m)"
  by (simp add: map_values_def table_map_def keys_distinct_def ran_distinct)

text \<open>C11: every sequence of operations on a new handle-keyed map, logged or not, returns (each probe loop ends), gives the
  answers of a plain finite map and leaves the contents of that map: through growth, the backward-shift deletion,
  \<open>retain\<close> and the bitset that answers most misses. The values it iterates over are the values of the map.\<close>

theorem handle_map_refines_map:
  "\<exists>m. run_ops xs (if logged then new_logged else new_map) = Some (fst (spec_ops xs (\<lambda>_. None)), m) \<and>
     contents m = snd (spec_ops xs (\<lambda>_. None)) \<and> set (map_values m) = ran (snd (spec_ops xs (\<lambda>_. None)))"
proof -
  let ?m = "if logged then new_logged else new_map"
  have m: "map_inv ?m" "contents ?m = (\<lambda>_. None)"
    by (simp_all add: new_logged_def map_inv_new map_inv_fresh)
  then show ?thesis using run_ops_simulates [OF m(1), of xs] map_values_ran
    unfolding m(2) map_inv_def by metis
qed

end
