(* ===== verification/CollIndex.thy ===== *)
theory CollIndex
  imports ProbeTable "HOL-Library.Multiset"
begin

text \<open>
  The lookup index of \<open>Map\<close> and \<open>Set\<close> objects, \<open>realm/coll_index.rs\<close>: an open-addressing table of packed words,
  a key hash and an entry position, with tombstones. It records a multiset of hash and position pairs.
\<close>

definition GONE :: u64 where "GONE = 0xFFFFFFFFFFFFFFFF"
definition MIN_SLOTS :: nat where "MIN_SLOTS = 8"

record coll_index =
  slots :: "u64 list"
  used :: nat
  gone :: nat
  head :: u32

definition default_index :: coll_index where
  "default_index = \<lparr>slots = [], used = 0, gone = 0, head = 0\<rparr>"

definition fold_hash :: "u64 \<Rightarrow> u32" where
  "fold_hash h = ucast (drop_bit 32 h) XOR ucast h"

definition home :: "u32 \<Rightarrow> nat \<Rightarrow> nat" where
  "home h m = unat (h * 0x9E3779B9) AND m"

text \<open>\<open>while n < limit { n *= 2 }\<close>; from a positive start at most \<open>limit\<close> doublings are made.\<close>

fun double_until :: "nat \<Rightarrow> nat \<Rightarrow> nat \<Rightarrow> nat" where
  "double_until 0 n limit = n"
| "double_until (Suc f) n limit = (if n < limit then double_until f (2 * n) limit else n)"

definition with_capacity :: "nat \<Rightarrow> coll_index" where
  "with_capacity n =
     (let limit = min (n * 2) (2 ^ 64 - 1)
      in \<lparr>slots = replicate (double_until limit MIN_SLOTS limit) 0, used = 0, gone = 0, head = 0\<rparr>)"

definition slot_hash :: "u64 \<Rightarrow> u32" where "slot_hash s = ucast (drop_bit 32 s)"

definition slot_pos :: "u64 \<Rightarrow> nat" where "slot_pos s = unat (ucast s - 1 :: u32)"

definition packed_slot :: "u32 \<Rightarrow> nat \<Rightarrow> u64" where
  "packed_slot h pos = push_bit 32 (ucast h) OR (of_nat pos + 1)"

definition coll_find :: "coll_index \<Rightarrow> u64 \<Rightarrow> (nat \<Rightarrow> bool) \<Rightarrow> nat option option" where
  "coll_find ix hash is_key =
     (if slots ix = [] then Some None
      else let h = fold_hash hash; m = length (slots ix) - 1;
               hit = (\<lambda>s. s \<noteq> GONE \<and> slot_hash s = h \<and> is_key (slot_pos s)) in
        map_option (\<lambda>i. if slots ix ! i = 0 then None else Some (slot_pos (slots ix ! i)))
          (probe m (\<lambda>i. slots ix ! i = 0 \<or> hit (slots ix ! i)) (home h m)))"

fun replace_all :: "nat \<Rightarrow> u64 list \<Rightarrow> u64 list \<Rightarrow> u64 list option" where
  "replace_all m [] ss = Some ss"
| "replace_all m (s # old) ss =
     (if s = 0 \<or> s = GONE then replace_all m old ss
      else Option.bind (probe m (\<lambda>i. ss ! i = 0) (home (slot_hash s) m)) (\<lambda>i. replace_all m old (ss[i := s])))"

definition grow :: "coll_index \<Rightarrow> coll_index option" where
  "grow ix =
     (let limit = (used ix + 1) * 4; len = double_until limit (max (length (slots ix)) MIN_SLOTS) limit
      in map_option (\<lambda>ss. ix\<lparr>slots := ss, gone := 0\<rparr>) (replace_all (len - 1) (slots ix) (replicate len 0)))"

definition coll_insert :: "coll_index \<Rightarrow> u64 \<Rightarrow> nat \<Rightarrow> coll_index option" where
  "coll_insert ix0 hash pos =
     Option.bind (if length (slots ix0) < (used ix0 + gone ix0 + 1) * 2 then grow ix0 else Some ix0) (\<lambda>ix.
       let h = fold_hash hash; m = length (slots ix) - 1 in
       map_option (\<lambda>i. ix\<lparr>slots := (slots ix)[i := packed_slot h pos], used := used ix + 1,
           gone := (if slots ix ! i = GONE then gone ix - 1 else gone ix)\<rparr>)
         (probe m (\<lambda>i. slots ix ! i = 0 \<or> slots ix ! i = GONE) (home h m)))"

definition coll_remove :: "coll_index \<Rightarrow> u64 \<Rightarrow> nat \<Rightarrow> coll_index option" where
  "coll_remove ix hash pos =
     (if slots ix = [] then Some ix
      else let h = fold_hash hash; m = length (slots ix) - 1 in
        map_option (\<lambda>i. if slots ix ! i = 0 then ix
            else ix\<lparr>slots := (slots ix)[i := GONE], used := used ix - 1, gone := gone ix + 1\<rparr>)
          (probe m (\<lambda>i. slots ix ! i = 0 \<or> slots ix ! i = packed_slot h pos) (home h m)))"

interpretation coll: probing home
  by unfold_locales (simp add: home_def nat_and_le)

subsection \<open>Packed slots\<close>

definition live :: "u64 \<Rightarrow> bool" where "live s \<longleftrightarrow> s \<noteq> 0 \<and> s \<noteq> GONE"

lemma packed_slot_parts:
  assumes "pos < 2 ^ 32 - 2"
  shows "slot_hash (packed_slot h pos) = h" "slot_pos (packed_slot h pos) = pos" "live (packed_slot h pos)"
proof -
  define w where "w = (of_nat pos + 1 :: u64)"
  have w: "unat w = pos + 1" using assms by (simp add: w_def unat_word_ariths unat_of_nat)
  have "unat (take_bit 32 w) = unat w" using w assms by (simp add: unsigned_take_bit_eq take_bit_nat_eq_self)
  then have "take_bit 32 w = w" by (simp only: unat_inject)
  then have hi: "bit w n \<Longrightarrow> n < 32" for n by (metis bit_take_bit_iff)
  show "slot_hash (packed_slot h pos) = h"
    unfolding slot_hash_def packed_slot_def w_def [symmetric]
    by (rule bit_word_eqI) (use hi in \<open>auto simp: bit_simps\<close>)
  have lo: "ucast (packed_slot h pos) = (ucast w :: u32)"
    unfolding packed_slot_def w_def [symmetric] by (rule bit_word_eqI) (auto simp: bit_simps)
  have u: "unat (ucast w :: u32) = pos + 1" using w assms by (simp add: unsigned_ucast_eq take_bit_nat_eq_self)
  then have "slot_pos (packed_slot h pos) = unat ((ucast w :: u32) - 1)" by (simp add: slot_pos_def lo)
  also have "\<dots> = pos" using u by (simp add: unat_sub word_le_nat_alt)
  finally show "slot_pos (packed_slot h pos) = pos" .
  have "unat (ucast (packed_slot h pos) :: u32) \<noteq> 0" "unat (ucast (packed_slot h pos) :: u32) \<noteq> 2 ^ 32 - 1"
    using u assms by (simp_all add: lo)
  then show "live (packed_slot h pos)" by (auto simp: live_def GONE_def)
qed

lemma slot_eqI:
  assumes "slot_hash s = slot_hash t" "slot_pos s = slot_pos t"
  shows "s = t"
proof (rule bit_word_eqI)
  fix n assume n: "n < LENGTH(64)"
  have "(ucast s :: u32) - 1 = ucast t - 1" using assms(2) by (simp add: slot_pos_def)
  then have lo: "(ucast s :: u32) = ucast t" by simp
  show "bit s n = bit t n"
  proof (cases "n < 32")
    case True
    have "bit (ucast s :: u32) n = bit (ucast t :: u32) n" by (simp add: lo)
    then show ?thesis using True by (simp add: bit_simps)
  next
    case False
    have "bit (slot_hash s) (n - 32) = bit (slot_hash t) (n - 32)" by (simp add: assms(1))
    moreover have "n - 32 < 32" using False n by simp
    ultimately show ?thesis using False n by (simp add: slot_hash_def bit_simps)
  qed
qed

subsection \<open>The recorded positions\<close>

definition live_slots :: "u64 list \<Rightarrow> u64 multiset" where
  "live_slots ss = filter_mset live (mset ss)"

definition recorded :: "u64 list \<Rightarrow> (u32 \<times> nat) multiset" where
  "recorded ss = image_mset (\<lambda>s. (slot_hash s, slot_pos s)) (live_slots ss)"

definition slot_ent :: "u64 list \<Rightarrow> nat \<Rightarrow> u32 option" where
  "slot_ent ss i = (if live (ss ! i) then Some (slot_hash (ss ! i)) else None)"

definition index_reach :: "u64 list \<Rightarrow> bool" where
  "index_reach ss = reach home (length ss) (\<lambda>i. ss ! i \<noteq> 0) (slot_ent ss)"

definition index_inv :: "coll_index \<Rightarrow> bool" where
  "index_inv ix \<longleftrightarrow> (slots ix = [] \<or> (\<exists>e. length (slots ix) = 2 ^ e)) \<and> index_reach (slots ix) \<and>
     used ix = size (live_slots (slots ix)) \<and> gone ix = count (mset (slots ix)) GONE \<and>
     2 * (used ix + gone ix) \<le> length (slots ix)"

lemma live_slots_update:
  assumes "i < length ss"
  shows "live_slots (ss[i := s]) = (if live s then {#s#} else {#}) + (live_slots ss - (if live (ss ! i) then {#ss ! i#} else {#}))"
  using assms by (simp add: live_slots_def mset_update filter_diff_mset)

lemma count_update:
  "i < length ss \<Longrightarrow> count (mset (ss[i := s])) g = (if s = g then 1 else 0) + (count (mset ss) g - (if ss ! i = g then 1 else 0))"
  by (simp add: mset_update)

lemma live_slots_mem: "s \<in># live_slots ss \<longleftrightarrow> live s \<and> (\<exists>i < length ss. ss ! i = s)"
  by (auto simp: live_slots_def in_set_conv_nth)

lemma recorded_iff: "(h, p) \<in># recorded ss \<longleftrightarrow> (\<exists>i < length ss. live (ss ! i) \<and> slot_hash (ss ! i) = h \<and> slot_pos (ss ! i) = p)"
  unfolding recorded_def by (auto simp: live_slots_mem intro!: image_eqI)

lemma size_slots: "length ss = size (live_slots ss) + count (mset ss) GONE + count (mset ss) 0"
proof (induction ss)
  case (Cons s ss)
  then show ?case by (auto simp: live_slots_def live_def GONE_def)
qed (simp add: live_slots_def)

lemma empty_slot:
  assumes "size (live_slots ss) + count (mset ss) GONE < length ss"
  obtains z where "z < length ss" "ss ! z = 0"
proof -
  have "0 < count (mset ss) 0" using assms size_slots [of ss] by simp
  then have "0 \<in> set ss" by (simp add: count_greater_zero_iff)
  then show thesis using that by (auto simp: in_set_conv_nth)
qed

lemma index_reach_put:
  assumes "index_reach ss" "i < length ss" "s \<noteq> 0"
    "live s \<Longrightarrow> \<forall>p. on_path (length ss) (home (slot_hash s) (length ss - 1)) i p \<longrightarrow> ss ! p \<noteq> 0"
  shows "index_reach (ss[i := s])"
  using assms unfolding index_reach_def reach_def slot_ent_def by (auto simp: nth_list_update on_path_def)

subsection \<open>Growing\<close>

lemma double_until_spec:
  "\<exists>e. double_until f (2 ^ k) n = 2 ^ e \<and> k \<le> e \<and> (n \<le> 2 ^ (k + f) \<longrightarrow> n \<le> 2 ^ e)"
proof (induction f arbitrary: k)
  case (Suc f)
  from Suc [of "Suc k"] show ?case by (cases "2 ^ k < n") (auto simp: Suc_le_eq intro: less_imp_le)
qed auto

lemma double_until_power: "\<exists>e. double_until n (2 ^ k) n = 2 ^ e \<and> n \<le> 2 ^ e"
proof -
  have "n < 2 ^ n" by (rule less_exp)
  also have "(2 :: nat) ^ n \<le> 2 ^ (k + n)" by (rule power_increasing) simp_all
  finally have "n \<le> 2 ^ (k + n)" by simp
  then show ?thesis using double_until_spec [of n k n] by blast
qed

lemma replace_all_spec:
  assumes "length ss = 2 ^ e" "index_reach ss" "GONE \<notin> set ss" "size (live_slots old) + size (live_slots ss) < 2 ^ e"
  shows "\<exists>ss'. replace_all (2 ^ e - 1) old ss = Some ss' \<and> length ss' = 2 ^ e \<and> index_reach ss' \<and> GONE \<notin> set ss' \<and>
    live_slots ss' = live_slots old + live_slots ss"
  using assms
proof (induction old arbitrary: ss)
  case (Cons s old)
  show ?case
  proof (cases "live s")
    case False
    then have "live_slots (s # old) = live_slots old" by (simp add: live_slots_def)
    then show ?thesis using False Cons by (auto simp: live_def)
  next
    case True
    have l: "live_slots (s # old) = add_mset s (live_slots old)" using True by (simp add: live_slots_def)
    have "count (mset ss) GONE = 0" using Cons.prems(3) by (metis count_eq_zero_iff set_mset_mset)
    then have "size (live_slots ss) + count (mset ss) GONE < length ss" using Cons.prems(1,4) by linarith
    then obtain z where z: "z < length ss" "ss ! z = 0" by (rule empty_slot)
    let ?h = "home (slot_hash s) (2 ^ e - 1)"
    obtain i where i: "i < 2 ^ e" "probe (2 ^ e - 1) (\<lambda>i. ss ! i = 0) ?h = Some i" "ss ! i = 0"
      "\<forall>p < 2 ^ e. dist (2 ^ e) ?h p < dist (2 ^ e) ?h i \<longrightarrow> ss ! p \<noteq> 0"
      using probe_ends [OF refl coll.home_less, of z e "\<lambda>i. ss ! i = 0" "slot_hash s"] z Cons.prems(1) by auto
    let ?ss = "ss[i := s]"
    have r: "index_reach ?ss" using Cons.prems(1,2) i True by (intro index_reach_put) (auto simp: on_path_def live_def)
    have ls: "live_slots ?ss = add_mset s (live_slots ss)" using i True Cons.prems(1) live_slots_update [of i ss s] by (simp add: live_def)
    have g: "GONE \<notin> set ?ss" using Cons.prems(3) True set_update_subset_insert [of ss i s] by (auto simp: live_def)
    have "\<exists>ss'. replace_all (2 ^ e - 1) old ?ss = Some ss' \<and> length ss' = 2 ^ e \<and> index_reach ss' \<and> GONE \<notin> set ss' \<and>
        live_slots ss' = live_slots old + live_slots ?ss"
      using Cons.prems(1,4) l ls r g by (intro Cons.IH) simp_all
    then show ?thesis using True i(2) l ls by (auto simp: live_def)
  qed
qed (simp add: live_slots_def)

lemma grow_spec:
  assumes "index_inv ix"
  obtains ix' e where "grow ix = Some ix'" "index_inv ix'" "length (slots ix') = 2 ^ e" "live_slots (slots ix') = live_slots (slots ix)"
    "(used ix' + gone ix' + 1) * 4 \<le> length (slots ix')" "used ix' = used ix" "head ix' = head ix"
proof -
  let ?lim = "(used ix + 1) * 4"
  have "\<exists>k. max (length (slots ix)) MIN_SLOTS = 2 ^ k"
  proof (cases "length (slots ix) \<le> 8")
    case True
    then show ?thesis by (intro exI [of _ 3]) (simp add: MIN_SLOTS_def max_def)
  next
    case False
    then show ?thesis using assms by (auto simp: index_inv_def MIN_SLOTS_def max_def)
  qed
  then obtain k where k: "max (length (slots ix)) MIN_SLOTS = 2 ^ k" by blast
  obtain e where e: "double_until ?lim (2 ^ k) ?lim = 2 ^ e" "?lim \<le> 2 ^ e" using double_until_power by blast
  have z: "index_reach (replicate (2 ^ e) 0)" "live_slots (replicate (2 ^ e) 0) = {#}" "GONE \<notin> set (replicate (2 ^ e) 0)"
    by (auto simp: index_reach_def reach_def slot_ent_def live_slots_def live_def GONE_def)
  have "size (live_slots (slots ix)) + size (live_slots (replicate (2 ^ e) 0)) < 2 ^ e"
    using e(2) assms by (simp add: z(2) index_inv_def)
  then obtain ss where ss: "replace_all (2 ^ e - 1) (slots ix) (replicate (2 ^ e) 0) = Some ss" "length ss = 2 ^ e" "index_reach ss"
    "GONE \<notin> set ss" "live_slots ss = live_slots (slots ix)"
    using replace_all_spec [OF _ z(1,3), where old = "slots ix"] z(2) by auto
  let ?ix = "ix\<lparr>slots := ss, gone := 0\<rparr>"
  have g: "grow ix = Some ?ix" unfolding grow_def Let_def k e(1) ss(1) by simp
  have u: "used ix = size (live_slots (slots ix))" using assms by (simp add: index_inv_def)
  have "count (mset ss) GONE = 0" using ss(4) by (metis count_eq_zero_iff set_mset_mset)
  then have "index_inv ?ix" using ss u e(2) by (simp add: index_inv_def)
  then show thesis using that [OF g, of e] ss(2,5) e(2) by simp
qed

subsection \<open>Find, insert and remove\<close>

lemma half_less: "0 < n \<Longrightarrow> 2 * a \<le> n \<Longrightarrow> a < (n :: nat)" by simp

lemma index_free:
  assumes "index_inv ix" "slots ix \<noteq> []"
  obtains z e where "z < length (slots ix)" "slots ix ! z = 0" "length (slots ix) = 2 ^ e"
proof -
  have "0 < length (slots ix)" using assms(2) by simp
  moreover have "2 * (used ix + gone ix) \<le> length (slots ix)" using assms(1) by (simp add: index_inv_def)
  ultimately have "used ix + gone ix < length (slots ix)" by (rule half_less)
  moreover have "used ix = size (live_slots (slots ix))" "gone ix = count (mset (slots ix)) GONE"
    using assms(1) by (simp_all add: index_inv_def)
  ultimately have "size (live_slots (slots ix)) + count (mset (slots ix)) GONE < length (slots ix)" by (simp only:)
  then obtain z where "z < length (slots ix)" "slots ix ! z = 0" by (rule empty_slot)
  then show thesis using that assms by (auto simp: index_inv_def)
qed

lemma probe_index:
  assumes "index_inv ix" "slots ix \<noteq> []"
  obtains i where "i < length (slots ix)"
    "probe (length (slots ix) - 1) (\<lambda>i. slots ix ! i = 0 \<or> match i) (home h (length (slots ix) - 1)) = Some i"
    "\<forall>p. on_path (length (slots ix)) (home h (length (slots ix) - 1)) i p \<longrightarrow> slots ix ! p \<noteq> 0 \<and> \<not> match p"
    "slots ix ! i \<noteq> 0 \<longrightarrow> match i"
    "slots ix ! i = 0 \<longrightarrow> (\<forall>j < length (slots ix). live (slots ix ! j) \<and> slot_hash (slots ix ! j) = h \<longrightarrow> \<not> match j)"
proof (rule index_free [OF assms])
  fix z e assume z: "z < length (slots ix)" "slots ix ! z = 0" "length (slots ix) = 2 ^ e"
  have "reach home (2 ^ e) (\<lambda>i. slots ix ! i \<noteq> 0) (slot_ent (slots ix))" using assms(1) z(3) by (simp add: index_inv_def index_reach_def)
  from coll.probe_find [OF this, of z match h] z that show thesis by (auto simp: slot_ent_def)
qed

lemma coll_find_spec:
  assumes "index_inv ix"
  shows "\<exists>r. coll_find ix hash is_key = Some r \<and>
    (case r of Some p \<Rightarrow> (fold_hash hash, p) \<in># recorded (slots ix) \<and> is_key p
     | None \<Rightarrow> \<forall>p. (fold_hash hash, p) \<in># recorded (slots ix) \<longrightarrow> \<not> is_key p)"
proof (cases "slots ix = []")
  case True
  then show ?thesis by (simp add: coll_find_def recorded_def live_slots_def)
next
  case False
  let ?hit = "\<lambda>s. s \<noteq> GONE \<and> slot_hash s = fold_hash hash \<and> is_key (slot_pos s)"
  show ?thesis
  proof (rule probe_index [OF assms False, where match = "\<lambda>i. ?hit (slots ix ! i)" and h = "fold_hash hash"])
    fix i
    assume i: "i < length (slots ix)"
      "probe (length (slots ix) - 1) (\<lambda>i. slots ix ! i = 0 \<or> ?hit (slots ix ! i)) (home (fold_hash hash) (length (slots ix) - 1)) = Some i"
      "slots ix ! i \<noteq> 0 \<longrightarrow> ?hit (slots ix ! i)"
      "slots ix ! i = 0 \<longrightarrow> (\<forall>j < length (slots ix). live (slots ix ! j) \<and> slot_hash (slots ix ! j) = fold_hash hash \<longrightarrow> \<not> ?hit (slots ix ! j))"
    have code: "coll_find ix hash is_key = Some (if slots ix ! i = 0 then None else Some (slot_pos (slots ix ! i)))"
      unfolding coll_find_def Let_def using False i(2) by simp
    show ?thesis unfolding code using i(1,3,4) by (auto simp: recorded_iff live_def)
  qed
qed

lemma coll_insert_spec:
  assumes "index_inv ix" "pos < 2 ^ 32 - 2"
  obtains ix' where "coll_insert ix hash pos = Some ix'" "index_inv ix'"
    "recorded (slots ix') = add_mset (fold_hash hash, pos) (recorded (slots ix))"
proof -
  have "\<exists>ix1. (if length (slots ix) < (used ix + gone ix + 1) * 2 then grow ix else Some ix) = Some ix1 \<and> index_inv ix1 \<and>
      live_slots (slots ix1) = live_slots (slots ix) \<and> (used ix1 + gone ix1 + 1) * 2 \<le> length (slots ix1)"
  proof (cases "length (slots ix) < (used ix + gone ix + 1) * 2")
    case True
    show ?thesis
    proof (rule grow_spec [OF assms(1)])
      fix ix' e
      assume "grow ix = Some ix'" "index_inv ix'" "live_slots (slots ix') = live_slots (slots ix)"
        "(used ix' + gone ix' + 1) * 4 \<le> length (slots ix')"
      then show ?thesis using True by auto
    qed
  qed (use assms(1) in auto)
  then obtain ix1 where g: "(if length (slots ix) < (used ix + gone ix + 1) * 2 then grow ix else Some ix) = Some ix1"
    and ix1: "index_inv ix1" "live_slots (slots ix1) = live_slots (slots ix)" "(used ix1 + gone ix1 + 1) * 2 \<le> length (slots ix1)" by blast
  have ne: "slots ix1 \<noteq> []" using ix1(3) by auto
  let ?s = "packed_slot (fold_hash hash) pos"
  note pk = packed_slot_parts [OF assms(2), of "fold_hash hash"]
  show thesis
  proof (rule probe_index [OF ix1(1) ne, where match = "\<lambda>i. slots ix1 ! i = GONE" and h = "fold_hash hash"])
    fix i
    assume i: "i < length (slots ix1)"
      "probe (length (slots ix1) - 1) (\<lambda>i. slots ix1 ! i = 0 \<or> slots ix1 ! i = GONE) (home (fold_hash hash) (length (slots ix1) - 1)) = Some i"
      "\<forall>p. on_path (length (slots ix1)) (home (fold_hash hash) (length (slots ix1) - 1)) i p \<longrightarrow> slots ix1 ! p \<noteq> 0 \<and> slots ix1 ! p \<noteq> GONE"
      "slots ix1 ! i \<noteq> 0 \<longrightarrow> slots ix1 ! i = GONE"
    let ?ss = "(slots ix1)[i := ?s]"
    let ?ix = "ix1\<lparr>slots := ?ss, used := used ix1 + 1, gone := (if slots ix1 ! i = GONE then gone ix1 - 1 else gone ix1)\<rparr>"
    have code: "coll_insert ix hash pos = Some ?ix" unfolding coll_insert_def g using i(2) by (simp add: Let_def)
    have nl: "\<not> live (slots ix1 ! i)" using i(4) by (auto simp: live_def)
    have ls: "live_slots ?ss = add_mset ?s (live_slots (slots ix1))" using live_slots_update [OF i(1), of ?s] nl pk(3) by simp
    have r: "index_reach ?ss"
      using ix1(1) i(1,3) pk by (intro index_reach_put) (auto simp: index_inv_def live_def)
    have inv1: "used ix1 = size (live_slots (slots ix1))" "gone ix1 = count (mset (slots ix1)) GONE" using ix1(1) by (auto simp: index_inv_def)
    have c: "count (mset ?ss) GONE = gone ix1 - (if slots ix1 ! i = GONE then 1 else 0)"
      using count_update [OF i(1), of ?s GONE] pk(3) inv1(2) by (auto simp: live_def)
    have "index_inv ?ix" using ix1(1,3) r ls c inv1 by (auto simp: index_inv_def)
    moreover have "recorded ?ss = add_mset (fold_hash hash, pos) (recorded (slots ix))"
      using ls pk ix1(2) by (simp add: recorded_def)
    ultimately show thesis using that [OF code] by simp
  qed
qed

lemma coll_remove_spec:
  assumes "index_inv ix" "pos < 2 ^ 32 - 2"
  obtains ix' where "coll_remove ix hash pos = Some ix'" "index_inv ix'"
    "recorded (slots ix') = recorded (slots ix) - {#(fold_hash hash, pos)#}"
proof (cases "slots ix = []")
  case True
  then show thesis using that [of ix] assms(1) by (simp add: coll_remove_def recorded_def live_slots_def)
next
  case False
  let ?s = "packed_slot (fold_hash hash) pos"
  note pk = packed_slot_parts [OF assms(2), of "fold_hash hash"]
  show thesis
  proof (rule probe_index [OF assms(1) False, where match = "\<lambda>i. slots ix ! i = ?s" and h = "fold_hash hash"])
    fix i
    assume i: "i < length (slots ix)"
      "probe (length (slots ix) - 1) (\<lambda>i. slots ix ! i = 0 \<or> slots ix ! i = ?s) (home (fold_hash hash) (length (slots ix) - 1)) = Some i"
      "slots ix ! i \<noteq> 0 \<longrightarrow> slots ix ! i = ?s"
      "slots ix ! i = 0 \<longrightarrow> (\<forall>j < length (slots ix). live (slots ix ! j) \<and> slot_hash (slots ix ! j) = fold_hash hash \<longrightarrow> slots ix ! j \<noteq> ?s)"
    show thesis
    proof (cases "slots ix ! i = 0")
      case True
      have "(fold_hash hash, pos) \<notin># recorded (slots ix)"
        using i(4) True pk slot_eqI unfolding recorded_iff by metis
      then have "recorded (slots ix) = recorded (slots ix) - {#(fold_hash hash, pos)#}" by (simp add: diff_single_trivial)
      moreover have "coll_remove ix hash pos = Some ix" using i(2) True False by (simp add: coll_remove_def Let_def)
      ultimately show thesis using that [of ix] assms(1) by simp
    next
      case nz: False
      then have s: "slots ix ! i = ?s" using i(3) by simp
      let ?ss = "(slots ix)[i := GONE]"
      let ?ix = "ix\<lparr>slots := ?ss, used := used ix - 1, gone := gone ix + 1\<rparr>"
      have code: "coll_remove ix hash pos = Some ?ix" using i(2) nz False by (simp add: coll_remove_def Let_def)
      have ls: "live_slots ?ss = live_slots (slots ix) - {#?s#}" using live_slots_update [OF i(1), of GONE] s pk(3) by (simp add: live_def)
      have m: "?s \<in># live_slots (slots ix)" using i(1) s pk(3) by (auto simp: live_slots_mem)
      have r: "index_reach ?ss" using assms(1) i(1) by (intro index_reach_put) (auto simp: index_inv_def GONE_def live_def)
      have inv1: "used ix = size (live_slots (slots ix))" "gone ix = count (mset (slots ix)) GONE" using assms(1) by (auto simp: index_inv_def)
      have c: "count (mset ?ss) GONE = gone ix + 1" using count_update [OF i(1), of GONE GONE] s pk(3) inv1(2) by (auto simp: live_def)
      have "0 < size (live_slots (slots ix))" using m by (metis empty_not_add_mset nonempty_has_size multi_member_split)
      then have "index_inv ?ix" using assms(1) r ls m c inv1 by (auto simp: index_inv_def size_Diff_singleton)
      moreover have "recorded ?ss = recorded (slots ix) - {#(fold_hash hash, pos)#}"
        using ls m pk by (simp add: recorded_def image_mset_Diff)
      ultimately show thesis using that [OF code] by simp
    qed
  qed
qed

subsection \<open>Sequences of operations\<close>

datatype coll_op = CollInsert u64 nat | CollRemove u64 nat

fun op_pos :: "coll_op \<Rightarrow> nat" where
  "op_pos (CollInsert hash pos) = pos" | "op_pos (CollRemove hash pos) = pos"

fun run_coll :: "coll_op list \<Rightarrow> coll_index \<Rightarrow> coll_index option" where
  "run_coll [] ix = Some ix"
| "run_coll (CollInsert hash pos # xs) ix = Option.bind (coll_insert ix hash pos) (run_coll xs)"
| "run_coll (CollRemove hash pos # xs) ix = Option.bind (coll_remove ix hash pos) (run_coll xs)"

fun spec_coll :: "coll_op list \<Rightarrow> (u32 \<times> nat) multiset \<Rightarrow> (u32 \<times> nat) multiset" where
  "spec_coll [] M = M"
| "spec_coll (CollInsert hash pos # xs) M = spec_coll xs (add_mset (fold_hash hash, pos) M)"
| "spec_coll (CollRemove hash pos # xs) M = spec_coll xs (M - {#(fold_hash hash, pos)#})"

lemma index_inv_start:
  "index_inv default_index" "recorded (slots default_index) = {#}" "index_inv (with_capacity n)" "recorded (slots (with_capacity n)) = {#}"
proof -
  show "index_inv default_index" "recorded (slots default_index) = {#}"
    by (simp_all add: index_inv_def default_index_def index_reach_def reach_def live_slots_def recorded_def)
  define lim where "lim = min (n * 2) (2 ^ 64 - 1)"
  obtain e where e: "double_until lim (2 ^ 3) lim = 2 ^ e" using double_until_power by blast
  then have e8: "double_until lim 8 lim = 2 ^ e" by simp
  have w: "with_capacity n = \<lparr>slots = replicate (2 ^ e) 0, used = 0, gone = 0, head = 0\<rparr>"
    by (simp only: with_capacity_def Let_def MIN_SLOTS_def lim_def [symmetric] e8)
  have l: "live_slots (replicate (2 ^ e) 0) = {#}" "count (mset (replicate (2 ^ e) 0)) GONE = 0"
    by (simp_all add: live_slots_def live_def GONE_def)
  then show "index_inv (with_capacity n)" "recorded (slots (with_capacity n)) = {#}"
    unfolding w by (auto simp: index_inv_def index_reach_def reach_def slot_ent_def recorded_def live_def)
qed

lemma run_coll_simulates:
  assumes "index_inv ix" "\<forall>x \<in> set xs. op_pos x < 2 ^ 32 - 2"
  shows "\<exists>ix'. run_coll xs ix = Some ix' \<and> index_inv ix' \<and> recorded (slots ix') = spec_coll xs (recorded (slots ix))"
  using assms
proof (induction xs arbitrary: ix)
  case (Cons x xs)
  show ?case
  proof (cases x)
    case (CollInsert hash pos)
    then have p: "pos < 2 ^ 32 - 2" using Cons.prems(2) by simp
    show ?thesis
    proof (rule coll_insert_spec [OF Cons.prems(1) p, of hash])
      fix ix' assume "coll_insert ix hash pos = Some ix'" "index_inv ix'"
        "recorded (slots ix') = add_mset (fold_hash hash, pos) (recorded (slots ix))"
      then show ?thesis using Cons.IH [of ix'] Cons.prems(2) CollInsert by simp
    qed
  next
    case (CollRemove hash pos)
    then have p: "pos < 2 ^ 32 - 2" using Cons.prems(2) by simp
    show ?thesis
    proof (rule coll_remove_spec [OF Cons.prems(1) p, of hash])
      fix ix' assume "coll_remove ix hash pos = Some ix'" "index_inv ix'"
        "recorded (slots ix') = recorded (slots ix) - {#(fold_hash hash, pos)#}"
      then show ?thesis using Cons.IH [of ix'] Cons.prems(2) CollRemove by simp
    qed
  qed
qed simp

text \<open>C12: after any sequence of insertions and removals of positions below \<open>2 ^ 32 - 2\<close>, from an empty index or one
  with a capacity, each operation has returned and the index records exactly the inserted and not removed
  positions: a lookup ends, returns a recorded position with the hash that satisfies the caller's equality, and
  misses only when there is none, with tombstones, reused slots and growth in between.\<close>

theorem coll_index_correct:
  assumes "\<forall>x \<in> set xs. op_pos x < 2 ^ 32 - 2" "ix = default_index \<or> ix = with_capacity n"
  shows "\<exists>ix' r. run_coll xs ix = Some ix' \<and> recorded (slots ix') = spec_coll xs {#} \<and> coll_find ix' hash is_key = Some r \<and>
    (case r of Some p \<Rightarrow> (fold_hash hash, p) \<in># spec_coll xs {#} \<and> is_key p
     | None \<Rightarrow> \<forall>p. (fold_hash hash, p) \<in># spec_coll xs {#} \<longrightarrow> \<not> is_key p)"
proof -
  have "index_inv ix" "recorded (slots ix) = {#}" using assms(2) index_inv_start by auto
  then obtain ix' where i: "run_coll xs ix = Some ix'" "index_inv ix'" "recorded (slots ix') = spec_coll xs {#}"
    using run_coll_simulates [OF _ assms(1), of ix] by auto
  from coll_find_spec [OF i(2), of hash is_key] show ?thesis unfolding i(3) using i(1,3) by blast
qed

theorem coll_index_correct_witness:
  "\<exists>ix' r. run_coll [CollInsert 7 0, CollInsert 7 1, CollRemove 7 0] (with_capacity 2) = Some ix' \<and>
     recorded (slots ix') = {#(7, 1)#} \<and> coll_find ix' 7 (\<lambda>p. p = 1) = Some r"
proof -
  have f: "fold_hash 7 = 7" by (simp add: fold_hash_def)
  show ?thesis
    using coll_index_correct [of "[CollInsert 7 0, CollInsert 7 1, CollRemove 7 0]" "with_capacity 2" 2 7 "\<lambda>p. p = 1"] f by auto
qed

end
