(* ===== verification/Bytes.thy ===== *)
theory Bytes
  imports Prelude
begin

text \<open>Little-endian bytes of words, as the standard library's \<open>to_le_bytes\<close> and \<open>from_le_bytes\<close>.\<close>

unbundle bit_operations_syntax

text \<open>\<open>to_le_bytes\<close> of a word of \<open>n\<close> bytes and \<open>from_le_bytes\<close>.\<close>

fun to_le_bytes :: "nat \<Rightarrow> 'a :: len word \<Rightarrow> u8 list" where
  "to_le_bytes 0 w = []"
| "to_le_bytes (Suc n) w = ucast w # to_le_bytes n (drop_bit 8 w)"

fun from_le_bytes :: "u8 list \<Rightarrow> 'a :: len word" where
  "from_le_bytes [] = 0"
| "from_le_bytes (b # bs) = ucast b OR push_bit 8 (from_le_bytes bs)"

lemma length_to_le_bytes [simp]: "length (to_le_bytes n w) = n"
  by (induction n arbitrary: w) simp_all

lemma from_to_le_bytes: "from_le_bytes (to_le_bytes n w) = take_bit (8 * n) w"
proof (induction n arbitrary: w)
  case (Suc n)
  show ?case unfolding to_le_bytes.simps from_le_bytes.simps Suc
  proof (rule bit_word_eqI)
    fix i assume "i < LENGTH('a)"
    then show "bit (ucast (ucast w :: u8) OR push_bit 8 (take_bit (8 * n) (drop_bit 8 w))) i =
        bit (take_bit (8 * Suc n) w) i"
      by (cases "i < 8") (auto simp: bit_simps)
  qed
qed simp

lemma le_bytes_roundtrip [simp]:
  "from_le_bytes (to_le_bytes 2 x) = (x :: u16)"
  "from_le_bytes (to_le_bytes 4 y) = (y :: u32)"
  "from_le_bytes (to_le_bytes 8 z) = (z :: u64)"
  unfolding from_to_le_bytes by (simp_all add: take_bit_word_eq_self)

end
