(* ===== verification/FlatBc.thy ===== *)
theory FlatBc
  imports Bytes
begin

text \<open>
  The flat bytecode of \<open>flatbc.rs\<close>: programs laid out as fixed 16-byte records and run in place over the byte
  buffer. \<open>encode\<close> writes a program, \<open>run\<close> executes a buffer; the width of \<open>usize\<close> is a parameter. A machine over
  the list of instructions is the specification. An index out of a slice or an overflow of \<open>usize\<close> arithmetic is
  the outcome \<open>Panicked\<close>, and a run that does not end is \<open>None\<close>.
\<close>

unbundle bit_operations_syntax

definition MAGIC :: "u8 list" where "MAGIC = [0x4B, 0x46, 0x4C, 0x54]"
definition HEADER :: nat where "HEADER = 12"
definition RECORD :: nat where "RECORD = 16"

datatype flat_op =
    Arg u16 u16 | Const u16 u64
  | Add u16 u16 u16 | Sub u16 u16 u16 | Mul u16 u16 u16 | And u16 u16 u16 | Or u16 u16 u16 | Xor u16 u16 u16
  | Move u16 u16 | Lt u16 u16 u16 | JumpIfFalse u16 u32 | Jump u32 | Ret u16

definition T_ARG :: u8 where "T_ARG = 0"
definition T_CONST :: u8 where "T_CONST = 1"
definition T_ADD :: u8 where "T_ADD = 2"
definition T_SUB :: u8 where "T_SUB = 3"
definition T_MUL :: u8 where "T_MUL = 4"
definition T_AND :: u8 where "T_AND = 5"
definition T_OR :: u8 where "T_OR = 6"
definition T_XOR :: u8 where "T_XOR = 7"
definition T_MOVE :: u8 where "T_MOVE = 8"
definition T_LT :: u8 where "T_LT = 9"
definition T_JF :: u8 where "T_JF = 10"
definition T_JMP :: u8 where "T_JMP = 11"
definition T_RET :: u8 where "T_RET = 12"


text \<open>The fields of an instruction's record: tag, destination, two operands and the immediate.\<close>

fun record_fields :: "flat_op \<Rightarrow> u8 \<times> u16 \<times> u16 \<times> u16 \<times> u64" where
  "record_fields (Arg dst index) = (T_ARG, dst, 0, 0, ucast index)"
| "record_fields (Const dst imm) = (T_CONST, dst, 0, 0, imm)"
| "record_fields (Add dst a b) = (T_ADD, dst, a, b, 0)"
| "record_fields (Sub dst a b) = (T_SUB, dst, a, b, 0)"
| "record_fields (Mul dst a b) = (T_MUL, dst, a, b, 0)"
| "record_fields (And dst a b) = (T_AND, dst, a, b, 0)"
| "record_fields (Or dst a b) = (T_OR, dst, a, b, 0)"
| "record_fields (Xor dst a b) = (T_XOR, dst, a, b, 0)"
| "record_fields (Move dst src) = (T_MOVE, dst, src, 0, 0)"
| "record_fields (Lt dst a b) = (T_LT, dst, a, b, 0)"
| "record_fields (JumpIfFalse cond target) = (T_JF, 0, cond, 0, ucast target)"
| "record_fields (Jump target) = (T_JMP, 0, 0, 0, ucast target)"
| "record_fields (Ret src) = (T_RET, 0, src, 0, 0)"

definition encode_op :: "flat_op \<Rightarrow> u8 list" where
  "encode_op op = (case record_fields op of (tag, dst, a, b, imm) \<Rightarrow>
     [tag, 0] @ to_le_bytes 2 dst @ to_le_bytes 2 a @ to_le_bytes 2 b @ to_le_bytes 8 imm)"


datatype flat_error = Malformed | BadRegister | BadTarget | BadTag | NoReturn

datatype 'v outcome = Done "flat_error + 'v" | Panicked
datatype 'v flat_next = Continue nat "'v list" | Stop "'v outcome"

text \<open>The closures \<open>reg\<close> and \<open>set\<close>, and the continuation of a step that writes a register.\<close>

definition reg :: "'v list \<Rightarrow> u16 \<Rightarrow> flat_error + 'v" where
  "reg regs r = (case get_opt regs (unat r) of None \<Rightarrow> Inl BadRegister | Some v \<Rightarrow> Inr v)"

definition set_reg :: "'v list \<Rightarrow> u16 \<Rightarrow> 'v \<Rightarrow> flat_error + 'v list" where
  "set_reg regs r v = (if unat r < length regs then Inr (regs[unat r := v]) else Inl BadRegister)"

definition set_next :: "nat \<Rightarrow> 'v list \<Rightarrow> u16 \<Rightarrow> 'v \<Rightarrow> 'v flat_next" where
  "set_next pc regs r v = (case set_reg regs r v of Inl e \<Rightarrow> Stop (Done (Inl e)) | Inr regs' \<Rightarrow> Continue (pc + 1) regs')"

definition with_reg :: "'v list \<Rightarrow> u16 \<Rightarrow> ('v \<Rightarrow> 'v flat_next) \<Rightarrow> 'v flat_next" where
  "with_reg regs r k = (case reg regs r of Inl e \<Rightarrow> Stop (Done (Inl e)) | Inr v \<Rightarrow> k v)"

text \<open>\<open>imm as usize\<close> keeps the low bits of the two's complement value.\<close>

definition as_usize :: "nat \<Rightarrow> u64 \<Rightarrow> nat" where
  "as_usize w imm = unat imm mod 2 ^ w"

definition binop :: "u8 \<Rightarrow> u64 \<Rightarrow> u64 \<Rightarrow> u64" where
  "binop tag x y =
     (if tag = T_ADD then x + y else if tag = T_SUB then x - y else if tag = T_MUL then x * y
      else if tag = T_AND then x AND y else if tag = T_OR then x OR y else x XOR y)"

text \<open>The body of the dispatch loop on the decoded fields.\<close>

definition dispatch :: "nat \<Rightarrow> nat \<Rightarrow> u64 list \<Rightarrow> u8 \<times> u16 \<times> u16 \<times> u16 \<times> u64 \<Rightarrow> nat \<Rightarrow> u64 list \<Rightarrow> u64 flat_next" where
  "dispatch w n_ops args rec pc regs = (case rec of (tag, dst, a, b, imm) \<Rightarrow>
     if tag = T_ARG then
       set_next pc regs dst (case get_opt args (as_usize w imm) of None \<Rightarrow> 0 | Some v \<Rightarrow> v)
     else if tag = T_CONST then set_next pc regs dst imm
     else if tag \<in> {T_ADD, T_SUB, T_MUL, T_AND, T_OR, T_XOR} then
       with_reg regs a (\<lambda>x. with_reg regs b (\<lambda>y. set_next pc regs dst (binop tag x y)))
     else if tag = T_MOVE then with_reg regs a (\<lambda>v. set_next pc regs dst v)
     else if tag = T_LT then
       with_reg regs a (\<lambda>x. with_reg regs b (\<lambda>y. set_next pc regs dst (if sint x < sint y then 1 else 0)))
     else if tag = T_JF then
       (let target = as_usize w imm in
        if n_ops \<le> target then Stop (Done (Inl BadTarget))
        else with_reg regs a (\<lambda>v. if v = 0 then Continue target regs else Continue (pc + 1) regs))
     else if tag = T_JMP then
       (let target = as_usize w imm in
        if n_ops \<le> target then Stop (Done (Inl BadTarget)) else Continue target regs)
     else if tag = T_RET then Stop (Done (reg regs a))
     else Stop (Done (Inl BadTag)))"

text \<open>\<open>&bytes[off..off + RECORD]\<close>: \<open>None\<close> when the range is outside the buffer or its bounds overflow.\<close>

definition record_at :: "nat \<Rightarrow> u8 list \<Rightarrow> nat \<Rightarrow> u8 list option" where
  "record_at w bytes pc =
     (let off = HEADER + pc * RECORD in
      if off + RECORD < 2 ^ w \<and> off + RECORD \<le> length bytes then Some (take RECORD (drop off bytes)) else None)"

text \<open>The bytes at some indices, as \<open>[bytes[i], bytes[j], ...]\<close> reads them, and \<open>&bytes[lo..hi]\<close>: \<open>None\<close>
  is the panic of an index outside the slice.\<close>

fun read_at :: "u8 list \<Rightarrow> nat list \<Rightarrow> u8 list option" where
  "read_at bytes [] = Some []"
| "read_at bytes (i # is) = Option.bind (get_opt bytes i) (\<lambda>b. map_option (Cons b) (read_at bytes is))"

definition slice_at :: "u8 list \<Rightarrow> nat \<Rightarrow> nat \<Rightarrow> u8 list option" where
  "slice_at bytes lo hi = (if lo \<le> hi \<and> hi \<le> length bytes then Some (take (hi - lo) (drop lo bytes)) else None)"

definition decode_record :: "u8 list \<Rightarrow> (u8 \<times> u16 \<times> u16 \<times> u16 \<times> u64) option" where
  "decode_record rec =
     Option.bind (get_opt rec 0) (\<lambda>tag.
     Option.bind (read_at rec [2, 3]) (\<lambda>dst.
     Option.bind (read_at rec [4, 5]) (\<lambda>a.
     Option.bind (read_at rec [6, 7]) (\<lambda>b.
     Option.bind (read_at rec [8, 9, 10, 11, 12, 13, 14, 15]) (\<lambda>imm.
       Some (tag, from_le_bytes dst, from_le_bytes a, from_le_bytes b, from_le_bytes imm))))))"

definition flat_step :: "nat \<Rightarrow> u8 list \<Rightarrow> nat \<Rightarrow> u64 list \<Rightarrow> nat \<Rightarrow> u64 list \<Rightarrow> u64 flat_next" where
  "flat_step w bytes n_ops args pc regs =
     (if pc < n_ops then
        case Option.bind (record_at w bytes pc) decode_record of
          None \<Rightarrow> Stop Panicked
        | Some rec \<Rightarrow> dispatch w n_ops args rec pc regs
      else Stop (Done (Inl NoReturn)))"

text \<open>The \<open>while\<close> loop of \<open>run\<close>, over its body.\<close>

partial_function (option) flat_loop :: "(nat \<Rightarrow> 'v list \<Rightarrow> 'v flat_next) \<Rightarrow> nat \<Rightarrow> 'v list \<Rightarrow> 'v outcome option" where
  "flat_loop step pc regs =
     (case step pc regs of Stop r \<Rightarrow> Some r | Continue pc' regs' \<Rightarrow> flat_loop step pc' regs')"

definition checked_mul :: "nat \<Rightarrow> nat \<Rightarrow> nat \<Rightarrow> nat option" where
  "checked_mul w a b = (if a * b < 2 ^ w then Some (a * b) else None)"

definition checked_add :: "nat \<Rightarrow> nat \<Rightarrow> nat \<Rightarrow> nat option" where
  "checked_add w a b = (if a + b < 2 ^ w then Some (a + b) else None)"

text \<open>The header: register count, parameter count (unused) and instruction count.\<close>

definition read_header :: "u8 list \<Rightarrow> (nat \<times> nat \<times> nat) option" where
  "read_header bytes =
     Option.bind (read_at bytes [4, 5]) (\<lambda>r.
     Option.bind (read_at bytes [6, 7]) (\<lambda>p.
     Option.bind (read_at bytes [8, 9, 10, 11]) (\<lambda>n.
       Some (unat (from_le_bytes r :: u16), unat (from_le_bytes p :: u16), unat (from_le_bytes n :: u32)))))"

definition run :: "nat \<Rightarrow> u8 list \<Rightarrow> u64 list \<Rightarrow> u64 outcome option" where
  "run w bytes args =
     (if length bytes < HEADER then Some (Done (Inl Malformed))
      else case slice_at bytes 0 4 of
        None \<Rightarrow> Some Panicked
      | Some magic \<Rightarrow>
          if magic \<noteq> MAGIC then Some (Done (Inl Malformed))
          else case read_header bytes of
            None \<Rightarrow> Some Panicked
          | Some (n_regs, n_params, n_ops) \<Rightarrow>
              (case Option.bind (checked_mul w n_ops RECORD) (\<lambda>n. checked_add w n HEADER) of
                 None \<Rightarrow> Some (Done (Inl Malformed))
               | Some needed \<Rightarrow>
                   if length bytes < needed then Some (Done (Inl Malformed))
                   else flat_loop (flat_step w bytes n_ops args) 0 (replicate n_regs 0)))"

subsection \<open>The instruction machine\<close>






subsection \<open>Simulation of machines\<close>

text \<open>A run of at most \<open>n\<close> steps.\<close>

fun steps :: "nat \<Rightarrow> (nat \<Rightarrow> 'v list \<Rightarrow> 'v flat_next) \<Rightarrow> nat \<Rightarrow> 'v list \<Rightarrow> 'v outcome option" where
  "steps 0 step pc regs = None"
| "steps (Suc n) step pc regs = (case step pc regs of Stop r \<Rightarrow> Some r | Continue pc' regs' \<Rightarrow> steps n step pc' regs')"

lemma loop_to_steps:
  fixes step :: "nat \<Rightarrow> 'v list \<Rightarrow> 'v flat_next"
  assumes "flat_loop step pc regs = Some r"
  shows "\<exists>n. steps n step pc regs = Some r"
  using assms
proof (rule flat_loop.raw_induct [rotated])
  fix loop st pc regs and r :: "'v outcome"
  assume IH: "\<And>s pc regs r. loop s pc regs = Some r \<Longrightarrow> \<exists>n. steps n s pc regs = Some r"
    and eq: "(case st pc regs of Continue pc' regs' \<Rightarrow> loop st pc' regs' | Stop r \<Rightarrow> Some r) = Some r"
  show "\<exists>n. steps n st pc regs = Some r"
  proof (cases "st pc regs")
    case (Continue pc' regs')
    with eq IH obtain n where "steps n st pc' regs' = Some r" by fastforce
    with Continue have "steps (Suc n) st pc regs = Some r" by simp
    then show ?thesis ..
  next
    case (Stop q)
    with eq have "steps (Suc 0) st pc regs = Some r" by simp
    then show ?thesis ..
  qed
qed

lemma steps_to_loop: "steps n step pc regs = Some r \<Longrightarrow> flat_loop step pc regs = Some r"
proof (induction n arbitrary: pc regs)
  case (Suc n)
  then show ?case by (subst flat_loop.simps) (auto split: flat_next.splits)
qed simp

lemma loop_iff_steps: "flat_loop step pc regs = Some r \<longleftrightarrow> (\<exists>n. steps n step pc regs = Some r)"
  using loop_to_steps steps_to_loop by blast


subsection \<open>Encoding and decoding\<close>

lemma length_encode_op [simp]: "length (encode_op op) = RECORD"
  by (simp add: encode_op_def RECORD_def split: prod.split)




lemma read_at_simps:
  "read_at bytes [] = Some []"
  "read_at bytes (i # is) = (if i < length bytes then map_option (Cons (bytes ! i)) (read_at bytes is) else None)"
  by (simp_all add: get_opt_def)



text \<open>Within their slices these reads do not panic.\<close>

lemma read_at_total: "\<forall>i \<in> set is. i < length bytes \<Longrightarrow> read_at bytes is \<noteq> None"
  by (induction "is") (auto simp: read_at_simps simp del: read_at.simps(2))

lemma decode_total: "length rec = RECORD \<Longrightarrow> decode_record rec \<noteq> None"
  by (simp add: decode_record_def RECORD_def read_at_simps get_opt_def del: read_at.simps(2))

lemma header_total: "HEADER \<le> length bytes \<Longrightarrow> slice_at bytes 0 4 \<noteq> None \<and> read_header bytes \<noteq> None"
  by (simp add: slice_at_def read_header_def HEADER_def read_at_simps del: read_at.simps(2))




subsection \<open>The byte machine simulates the instruction machine\<close>



lemma reg_map [simp]: "reg (map f regs) r = map_sum id f (reg regs r)"
  by (simp add: reg_def get_opt_def)










subsection \<open>Untrusted buffers\<close>

lemma set_next_no_panic [simp]: "set_next pc regs r v \<noteq> Stop Panicked"
  by (simp add: set_next_def split: sum.split)

lemma with_reg_no_panic: "(\<And>v. k v \<noteq> Stop Panicked) \<Longrightarrow> with_reg regs r k \<noteq> Stop Panicked"
  by (simp add: with_reg_def split: sum.split)

lemma dispatch_no_panic: "dispatch w n args rec pc regs \<noteq> Stop Panicked"
  by (cases rec) (simp add: dispatch_def Let_def with_reg_no_panic)

lemma flat_step_no_panic:
  assumes "HEADER + n_ops * RECORD \<le> length bytes" "HEADER + n_ops * RECORD < 2 ^ w"
  shows "flat_step w bytes n_ops args pc regs \<noteq> Stop Panicked"
proof (cases "pc < n_ops")
  case True
  then have "(pc + 1) * RECORD \<le> n_ops * RECORD" by (intro mult_right_mono) simp_all
  with assms obtain rec where "record_at w bytes pc = Some rec" "length rec = RECORD" by (auto simp: record_at_def Let_def)
  then show ?thesis using decode_total [of rec] by (auto simp: flat_step_def dispatch_no_panic)
qed (simp add: flat_step_def)

lemma loop_no_panic:
  assumes "\<And>pc regs. step pc regs \<noteq> Stop Panicked"
  shows "flat_loop step pc regs \<noteq> Some Panicked"
proof -
  have "steps n step pc regs \<noteq> Some Panicked" for n
    by (induction n arbitrary: pc regs) (use assms in \<open>auto split: flat_next.split\<close>)
  then show ?thesis by (simp add: loop_iff_steps)
qed

text \<open>C17: running an arbitrary buffer is memory safe. Whatever the bytes and the arguments, no byte of the header
  and no record is read outside the buffer, no byte of a record outside the record, and no \<open>usize\<close> computation
  overflows, for any width of \<open>usize\<close>: a run that ends does so with a value or one of the declared errors.\<close>

theorem flat_run_never_panics: "run w bytes args \<noteq> Some Panicked"
proof -
  have "flat_loop (flat_step w bytes n args) 0 regs \<noteq> Some Panicked"
    if "n * RECORD + HEADER < 2 ^ w" "n * RECORD + HEADER \<le> length bytes" for n regs
    using that by (intro loop_no_panic flat_step_no_panic) (simp_all add: add.commute)
  then show ?thesis
    using header_total [of bytes]
    by (cases "length bytes < HEADER") (auto simp: run_def checked_mul_def checked_add_def split: option.split)
qed

subsection \<open>Encoded programs\<close>







end
