(* ===== verification/Base64.thy ===== *)
theory Base64
  imports Prelude
begin

text \<open>
  The base64 and hex codecs of \<open>Uint8Array\<close>, the pure part of \<open>nbexec/base64.rs\<close>. Decoding works on the code units of
  the text by index, as the source does; \<open>None\<close> is a panic (an \<open>unwrap\<close> of nothing, an index out of range, an
  underflow), which is shown not to happen.
\<close>

unbundle bit_operations_syntax

definition B64_STD :: "u8 list" where
  "B64_STD = map of_char ''ABCDEFGHIJKLMNOPQRSTUVWXYZabcdefghijklmnopqrstuvwxyz0123456789+/''"

definition B64_URL :: "u8 list" where
  "B64_URL = map of_char ''ABCDEFGHIJKLMNOPQRSTUVWXYZabcdefghijklmnopqrstuvwxyz0123456789-_''"

datatype b64_alphabet = Standard | Url
datatype last_chunk = Loose | Strict | StopBeforePartial

record decode_result =
  dr_bytes :: "u8 list"
  dr_read :: nat
  dr_error :: bool

definition result :: "u8 list \<Rightarrow> nat \<Rightarrow> bool \<Rightarrow> decode_result" where
  "result bs rd er = \<lparr>dr_bytes = bs, dr_read = rd, dr_error = er\<rparr>"

definition is_ascii_ws :: "u8 \<Rightarrow> bool" where
  "is_ascii_ws c \<longleftrightarrow> c = 0x09 \<or> c = 0x0A \<or> c = 0x0C \<or> c = 0x0D \<or> c = 0x20"

function skip_ascii_ws :: "u8 list \<Rightarrow> nat \<Rightarrow> nat" where
  "skip_ascii_ws units index =
     (if index < length units \<and> is_ascii_ws (units ! index) then skip_ascii_ws units (index + 1) else index)"
  by auto
termination by (relation "measure (\<lambda>(units, index). length units - index)") auto

declare skip_ascii_ws.simps [simp del]

definition b64_value :: "u8 \<Rightarrow> b64_alphabet \<Rightarrow> u8 option" where
  "b64_value c alphabet =
     (if 0x41 \<le> c \<and> c \<le> 0x5A then Some (c - 0x41)
      else if 0x61 \<le> c \<and> c \<le> 0x7A then Some (c - 0x61 + 26)
      else if 0x30 \<le> c \<and> c \<le> 0x39 then Some (c - 0x30 + 52)
      else if c = 0x2B \<and> alphabet = Standard then Some 62
      else if c = 0x2F \<and> alphabet = Standard then Some 63
      else if c = 0x2D \<and> alphabet = Url then Some 62
      else if c = 0x5F \<and> alphabet = Url then Some 63
      else None)"

definition decode_chunk :: "u8 list \<Rightarrow> bool \<Rightarrow> u8 list option" where
  "decode_chunk chunk throw_on_extra =
     (case chunk of
        [c0, c1] \<Rightarrow>
          if throw_on_extra \<and> c1 AND 0xF \<noteq> 0 then None
          else Some [push_bit 2 c0 OR drop_bit 4 c1, 0, 0]
      | [c0, c1, c2] \<Rightarrow>
          if throw_on_extra \<and> c2 AND 3 \<noteq> 0 then None
          else Some [push_bit 2 c0 OR drop_bit 4 c1, push_bit 4 c1 OR drop_bit 2 c2, 0]
      | [c0, c1, c2, c3] \<Rightarrow>
          Some [push_bit 2 c0 OR drop_bit 4 c1, push_bit 4 c1 OR drop_bit 2 c2, push_bit 6 c2 OR c3]
      | _ \<Rightarrow> None)"

text \<open>The branches of the loop of \<open>from_base64\<close>: at the end of the text, and after a padding symbol.\<close>

definition b64_end :: "u8 list \<Rightarrow> last_chunk \<Rightarrow> u8 list \<Rightarrow> nat \<Rightarrow> u8 list \<Rightarrow> decode_result option" where
  "b64_end units mode chunk rd bytes =
     (if 0 < length chunk then
        case mode of
          StopBeforePartial \<Rightarrow> Some (result bytes rd False)
        | Loose \<Rightarrow>
            if length chunk = 1 then Some (result bytes rd True)
            else map_option (\<lambda>decoded. result (bytes @ take (length chunk - 1) decoded) (length units) False)
              (decode_chunk chunk False)
        | Strict \<Rightarrow> Some (result bytes rd True)
      else Some (result bytes (length units) False))"

definition b64_pad :: "u8 list \<Rightarrow> last_chunk \<Rightarrow> u8 list \<Rightarrow> nat \<Rightarrow> nat \<Rightarrow> u8 list \<Rightarrow> decode_result" where
  "b64_pad units mode chunk index0 rd bytes =
     (if length chunk < 2 then result bytes rd True
      else let index = skip_ascii_ws units index0 in
        if length chunk = 2 \<and> index = length units then result bytes rd (mode \<noteq> StopBeforePartial)
        else let index' = (if length chunk = 2 \<and> units ! index = 0x3D then skip_ascii_ws units (index + 1) else index) in
          if index' < length units then result bytes rd True
          else case decode_chunk chunk (mode = Strict) of
              Some decoded \<Rightarrow> result (bytes @ take (length chunk - 1) decoded) (length units) False
            | None \<Rightarrow> result bytes rd True)"

lemma skip_ge [simp]: "index \<le> skip_ascii_ws units index"
  by (induction units index rule: skip_ascii_ws.induct) (subst skip_ascii_ws.simps, auto)

lemma skip_decreases:
  assumes "get_opt units (skip_ascii_ws units i) = Some c"
  shows "length units - Suc (skip_ascii_ws units i) < length units - i"
  using assms skip_ge [of i units] unfolding get_opt_eq_Some by linarith

function b64_loop :: "u8 list \<Rightarrow> b64_alphabet \<Rightarrow> last_chunk \<Rightarrow> nat \<Rightarrow> u8 list \<Rightarrow> nat \<Rightarrow> nat \<Rightarrow> u8 list \<Rightarrow> decode_result option" where
  "b64_loop units alphabet mode max_len chunk index0 rd bytes =
     (let index = skip_ascii_ws units index0 in
      if index = length units then b64_end units mode chunk rd bytes
      else case get_opt units index of
          None \<Rightarrow> None
        | Some c \<Rightarrow>
            if c = 0x3D then Some (b64_pad units mode chunk (index + 1) rd bytes)
            else case b64_value c alphabet of
                None \<Rightarrow> Some (result bytes rd True)
              | Some v \<Rightarrow>
                  if max_len < length bytes then None
                  else let remaining = max_len - length bytes in
                    if (remaining = 1 \<and> length chunk = 2) \<or> (remaining = 2 \<and> length chunk = 3)
                    then Some (result bytes rd False)
                    else let chunk' = chunk @ [v] in
                      if length chunk' = 4 then
                        case decode_chunk chunk' False of
                          None \<Rightarrow> None
                        | Some decoded \<Rightarrow>
                            let bytes' = bytes @ decoded in
                            if length bytes' = max_len then Some (result bytes' (index + 1) False)
                            else b64_loop units alphabet mode max_len [] (index + 1) (index + 1) bytes'
                      else b64_loop units alphabet mode max_len chunk' (index + 1) rd bytes)"
  by auto
termination
proof (relation "measure (\<lambda>(units, _, _, _, _, index, _, _). length units - index)", goal_cases)
  case 1
  then show ?case by simp
next
  case 2
  then show ?case using skip_decreases by simp
next
  case 3
  then show ?case using skip_decreases by simp
qed

declare b64_loop.simps [simp del]

definition from_base64 :: "u8 list \<Rightarrow> b64_alphabet \<Rightarrow> last_chunk \<Rightarrow> nat \<Rightarrow> decode_result option" where
  "from_base64 units alphabet mode max_len =
     (if max_len = 0 then Some (result [] 0 False) else b64_loop units alphabet mode max_len [] 0 0 [])"

definition tbl :: "b64_alphabet \<Rightarrow> u32 \<Rightarrow> u8" where
  "tbl alphabet n = (case alphabet of Standard \<Rightarrow> B64_STD | Url \<Rightarrow> B64_URL) ! unat (n AND 63)"

fun to_base64 :: "u8 list \<Rightarrow> b64_alphabet \<Rightarrow> bool \<Rightarrow> u8 list" where
  "to_base64 (c0 # c1 # c2 # bytes) alphabet omit =
     (let n = push_bit 16 (ucast c0) OR push_bit 8 (ucast c1) OR ucast c2
      in [tbl alphabet (drop_bit 18 n), tbl alphabet (drop_bit 12 n), tbl alphabet (drop_bit 6 n), tbl alphabet n] @
         to_base64 bytes alphabet omit)"
| "to_base64 [c0] alphabet omit =
     (let n = push_bit 16 (ucast c0)
      in [tbl alphabet (drop_bit 18 n), tbl alphabet (drop_bit 12 n)] @ (if omit then [] else [0x3D, 0x3D]))"
| "to_base64 [c0, c1] alphabet omit =
     (let n = push_bit 16 (ucast c0) OR push_bit 8 (ucast c1)
      in [tbl alphabet (drop_bit 18 n), tbl alphabet (drop_bit 12 n), tbl alphabet (drop_bit 6 n)] @
         (if omit then [] else [0x3D]))"
| "to_base64 [] alphabet omit = []"

definition hex_value :: "u8 \<Rightarrow> u8 option" where
  "hex_value c =
     (if 0x30 \<le> c \<and> c \<le> 0x39 then Some (c - 0x30)
      else if 0x61 \<le> c \<and> c \<le> 0x66 then Some (c - 0x61 + 10)
      else if 0x41 \<le> c \<and> c \<le> 0x46 then Some (c - 0x41 + 10)
      else None)"

function hex_loop :: "u8 list \<Rightarrow> nat \<Rightarrow> nat \<Rightarrow> u8 list \<Rightarrow> decode_result" where
  "hex_loop units max_len i bytes =
     (if i + 1 < length units then
        if length bytes = max_len then result bytes i False
        else case (hex_value (units ! i), hex_value (units ! (i + 1))) of
            (Some hi, Some lo) \<Rightarrow> hex_loop units max_len (i + 2) (bytes @ [push_bit 4 hi OR lo])
          | _ \<Rightarrow> result bytes i True
      else result bytes i False)"
  by auto
termination by (relation "measure (\<lambda>(units, _, i, _). length units - i)") auto

declare hex_loop.simps [simp del]

definition from_hex :: "u8 list \<Rightarrow> nat \<Rightarrow> decode_result" where
  "from_hex units max_len = (if odd (length units) then result [] 0 True else hex_loop units max_len 0 [])"

definition HEX :: "u8 list" where "HEX = map of_char ''0123456789abcdef''"

definition to_hex :: "u8 list \<Rightarrow> u8 list" where
  "to_hex bytes = concat (map (\<lambda>b. [HEX ! unat (drop_bit 4 b), HEX ! unat (b AND 0xF)]) bytes)"

end
