(* ===== verification/Base64Text.thy ===== *)
theory Base64Text
  imports Base64
begin

text \<open>
  The symbols of the base64 alphabets, the six-bit values of a chunk, and the reference decoder, which works on the
  symbols of a text rather than on its units by index. \<open>from_base64\<close> agrees with it on every text.
\<close>

unbundle bit_operations_syntax


subsection \<open>Symbols\<close>

definition sym :: "b64_alphabet \<Rightarrow> u8 \<Rightarrow> u8" where
  "sym a v = (case a of Standard \<Rightarrow> B64_STD | Url \<Rightarrow> B64_URL) ! unat v"

definition six_bits :: "u8 \<Rightarrow> bool" where "six_bits v \<longleftrightarrow> v < 64"

lemma table_eq:
  "(case a of Standard \<Rightarrow> B64_STD | Url \<Rightarrow> B64_URL) =
     map of_nat ([65..<91] @ [97..<123] @ [48..<58]) @ (case a of Standard \<Rightarrow> [43, 47] | Url \<Rightarrow> [45, 95])"
  by (cases a) (simp_all add: B64_STD_def B64_URL_def upt_rec_numeral)

lemma table_values:
  "\<forall>(k, c) \<in> set (enumerate 0 (case a of Standard \<Rightarrow> B64_STD | Url \<Rightarrow> B64_URL)).
     b64_value c a = Some (of_nat k) \<and> c \<noteq> 0x3D \<and> \<not> is_ascii_ws c"
  unfolding table_eq by (cases a) (simp_all add: upt_rec_numeral b64_value_def is_ascii_ws_def)

lemma length_table: "length (case a of Standard \<Rightarrow> B64_STD | Url \<Rightarrow> B64_URL) = 64"
  unfolding table_eq by (cases a) simp_all

lemma sym_value:
  assumes "six_bits v"
  shows "b64_value (sym a v) a = Some v" "sym a v \<noteq> 0x3D" "\<not> is_ascii_ws (sym a v)"
proof -
  have "unat v < 64" using assms by (simp add: six_bits_def word_less_nat_alt)
  then have "(unat v, sym a v) \<in> set (enumerate 0 (case a of Standard \<Rightarrow> B64_STD | Url \<Rightarrow> B64_URL))"
    by (simp add: in_set_enumerate_eq length_table sym_def)
  from bspec [OF table_values this]
  show "b64_value (sym a v) a = Some v" "sym a v \<noteq> 0x3D" "\<not> is_ascii_ws (sym a v)" by simp_all
qed

lemma word_in_range:
  assumes "of_nat m \<le> c" "c \<le> of_nat n" "m < 256" "n < 256"
  shows "(c :: u8) \<in> of_nat ` set [m..<Suc n]"
proof
  show "c = of_nat (unat c)" by simp
  show "unat c \<in> set [m..<Suc n]"
    using assms by (simp add: word_le_nat_alt unat_of_nat del: upt_Suc)
qed

lemma value_in_table:
  assumes "b64_value c a = Some v"
  shows "c \<in> set (case a of Standard \<Rightarrow> B64_STD | Url \<Rightarrow> B64_URL)"
  using assms word_in_range [of 65 c 90] word_in_range [of 97 c 122] word_in_range [of 48 c 57]
  unfolding table_eq b64_value_def by (cases a) (auto split: if_splits simp del: upt_Suc)

lemma value_sym:
  assumes "b64_value c a = Some v"
  shows "six_bits v" "sym a v = c"
proof -
  obtain k where k: "k < 64" "c = (case a of Standard \<Rightarrow> B64_STD | Url \<Rightarrow> B64_URL) ! k"
    using value_in_table [OF assms] length_table [of a] unfolding in_set_conv_nth by auto
  have "six_bits (of_nat k)" "unat (of_nat k :: u8) = k"
    using k(1) by (simp_all add: six_bits_def word_less_nat_alt unat_of_nat)
  then have "b64_value c a = Some (of_nat k)" "sym a (of_nat k) = c"
    using sym_value(1) [of "of_nat k" a] k(2) by (simp_all add: sym_def)
  with assms \<open>six_bits (of_nat k)\<close> show "six_bits v" "sym a v = c" by simp_all
qed

subsection \<open>Chunks\<close>

definition six :: "u8 \<Rightarrow> u8 \<Rightarrow> u8 \<Rightarrow> u8 list" where
  "six c0 c1 c2 = [drop_bit 2 c0, (push_bit 4 c0 OR drop_bit 4 c1) AND 63, (push_bit 2 c1 OR drop_bit 6 c2) AND 63, c2 AND 63]"

lemma byte_eqI:
  assumes "bit a 0 = bit b 0" "bit a 1 = bit b 1" "bit a 2 = bit b 2" "bit a 3 = bit b 3"
    "bit a 4 = bit b 4" "bit a 5 = bit b 5" "bit a 6 = bit b 6" "bit a 7 = bit b 7"
  shows "a = (b :: u8)"
proof (rule bit_word_eqI)
  fix n assume "n < LENGTH(8)"
  then have "n \<in> {0, 1, 2, 3, 4, 5, 6, 7}" by auto
  with assms show "bit a n = bit b n" by blast
qed

lemma byte_high [simp]: "8 \<le> n \<Longrightarrow> \<not> bit (c :: u8) n"
  using bit_imp_le_length [of c n] by auto

lemma and_63: "m AND 63 = take_bit 6 (m :: 'a :: len word)"
  by (simp add: take_bit_eq_mask mask_eq_exp_minus_1)

lemma six_bits_iff: "six_bits v \<longleftrightarrow> take_bit 6 v = v"
proof -
  have "take_bit 6 v = v \<longleftrightarrow> take_bit 6 (unat v) = unat v"
    by (simp only: unat_inject flip: unsigned_take_bit_eq)
  then show ?thesis by (simp add: six_bits_def word_less_nat_alt take_bit_nat_eq_self_iff)
qed

lemma six_bits_bit: "six_bits v \<Longrightarrow> bit v i \<Longrightarrow> i < 6"
  unfolding six_bits_iff by (metis bit_take_bit_iff)

lemma six_six_bits: "v \<in> set (six c0 c1 c2) \<Longrightarrow> six_bits v"
  unfolding six_bits_iff six_def and_63 by (auto intro!: byte_eqI simp: bit_simps)

lemma tbl_six:
  fixes c0 c1 c2 :: u8
  defines "n \<equiv> push_bit 16 (ucast c0) OR push_bit 8 (ucast c1) OR ucast c2"
  shows "tbl a (drop_bit 18 n) = sym a (six c0 c1 c2 ! 0)" "tbl a (drop_bit 12 n) = sym a (six c0 c1 c2 ! 1)"
    "tbl a (drop_bit 6 n) = sym a (six c0 c1 c2 ! 2)" "tbl a n = sym a (six c0 c1 c2 ! 3)"
proof -
  have u: "tbl a m = sym a v" if "ucast (take_bit 6 m) = v" for m :: u32 and v :: u8
  proof -
    have "unat (take_bit 6 m) < 2 ^ 6"
      by (simp only: unsigned_take_bit_eq take_bit_nat_less_exp)
    then have "unat v = unat (take_bit 6 m)"
      unfolding that [symmetric] unsigned_ucast_eq by (intro take_bit_nat_eq_self) simp
    then show ?thesis by (simp add: tbl_def sym_def and_63)
  qed
  show "tbl a (drop_bit 18 n) = sym a (six c0 c1 c2 ! 0)" "tbl a (drop_bit 12 n) = sym a (six c0 c1 c2 ! 1)"
    "tbl a (drop_bit 6 n) = sym a (six c0 c1 c2 ! 2)" "tbl a n = sym a (six c0 c1 c2 ! 3)"
    by (rule u, rule byte_eqI; simp add: six_def and_63 n_def bit_simps)+
qed

lemma to_base64_six:
  "to_base64 (c0 # c1 # c2 # bytes) a omit = map (sym a) (six c0 c1 c2) @ to_base64 bytes a omit"
  "to_base64 [c0] a omit = map (sym a) (take 2 (six c0 0 0)) @ (if omit then [] else [0x3D, 0x3D])"
  "to_base64 [c0, c1] a omit = map (sym a) (take 3 (six c0 c1 0)) @ (if omit then [] else [0x3D])"
  using tbl_six [of a c0 c1 c2] tbl_six [of a c0 0 0] tbl_six [of a c0 c1 0]
  by (simp_all add: Let_def six_def)

lemma mask_bits: "v AND 0xF = take_bit 4 v" "v AND 3 = take_bit 2 v" for v :: u8
  by (simp_all add: take_bit_eq_mask mask_eq_exp_minus_1)

lemma decode_six:
  "decode_chunk (six c0 c1 c2) e = Some [c0, c1, c2]"
  "decode_chunk (take 2 (six c0 0 0)) e = Some [c0, 0, 0]"
  "decode_chunk (take 3 (six c0 c1 0)) e = Some [c0, c1, 0]"
  unfolding decode_chunk_def six_def and_63 mask_bits
  by (auto intro!: byte_eqI simp: bit_simps)

text \<open>A chunk of six-bit values is determined by the bytes it decodes to, when no bits are left over.\<close>

lemma six_bits_high: "six_bits v \<Longrightarrow> \<not> bit v 6 \<and> \<not> bit v 7"
  using six_bits_bit by fastforce

lemma low_bits: "take_bit k v = 0 \<Longrightarrow> i < k \<Longrightarrow> \<not> bit (v :: u8) i"
  by (metis bit_0_eq bit_take_bit_iff bot_apply bot_bool_def)

lemma six_decode4:
  assumes "decode_chunk [a, b, c, d] e = Some [c0, c1, c2]" "six_bits a" "six_bits b" "six_bits c" "six_bits d"
  shows "[a, b, c, d] = six c0 c1 c2"
proof -
  have c: "c0 = push_bit 2 a OR drop_bit 4 b" "c1 = push_bit 4 b OR drop_bit 2 c" "c2 = push_bit 6 c OR d"
    using assms(1) by (simp_all add: decode_chunk_def)
  note hi = assms(2-5) [THEN six_bits_high]
  show ?thesis
    unfolding c six_def and_63 by (simp; intro conjI byte_eqI; use hi in \<open>simp add: bit_simps\<close>)
qed

lemma six_decode3:
  assumes "decode_chunk [a, b, c] True = Some [c0, c1, c2]" "six_bits a" "six_bits b" "six_bits c"
  shows "[a, b, c] = take 3 (six c0 c1 0)"
proof -
  have c: "c0 = push_bit 2 a OR drop_bit 4 b" "c1 = push_bit 4 b OR drop_bit 2 c" "take_bit 2 c = 0"
    using assms(1) by (simp_all add: decode_chunk_def mask_bits split: if_splits)
  note hi = assms(2-4) [THEN six_bits_high] low_bits [OF c(3), of 0] low_bits [OF c(3), of 1]
  show ?thesis
    unfolding c(1,2) six_def and_63 by (simp; intro conjI byte_eqI; use hi in \<open>simp add: bit_simps\<close>)
qed

lemma six_decode2:
  assumes "decode_chunk [a, b] True = Some [c0, c1, c2]" "six_bits a" "six_bits b"
  shows "[a, b] = take 2 (six c0 0 0)"
proof -
  have c: "c0 = push_bit 2 a OR drop_bit 4 b" "take_bit 4 b = 0"
    using assms(1) by (simp_all add: decode_chunk_def mask_bits split: if_splits)
  note hi = assms(2-3) [THEN six_bits_high] low_bits [OF c(2), of 0] low_bits [OF c(2), of 1]
    low_bits [OF c(2), of 2] low_bits [OF c(2), of 3]
  show ?thesis
    unfolding c(1) six_def and_63 by (simp; intro conjI byte_eqI; use hi in \<open>simp add: bit_simps\<close>)
qed


subsection \<open>Decoding the text without its whitespace\<close>

text \<open>
  The reference decoder works on the symbols of a text, the units that are not whitespace. It returns the bytes, the
  symbols it has not read and whether the text is malformed; \<open>pend\<close> holds the symbols since the last full chunk.
\<close>

definition syms :: "u8 list \<Rightarrow> u8 list" where
  "syms units = filter (\<lambda>u. \<not> is_ascii_ws u) units"

definition spec_end :: "last_chunk \<Rightarrow> u8 list \<Rightarrow> u8 list \<Rightarrow> u8 list \<Rightarrow> u8 list \<times> u8 list \<times> bool" where
  "spec_end mode bytes pend chunk =
     (if chunk = [] then (bytes, [], False)
      else if mode = Loose \<and> 1 < length chunk then
        (bytes @ take (length chunk - 1) (the (decode_chunk chunk False)), [], False)
      else (bytes, pend, mode \<noteq> StopBeforePartial))"

definition spec_pad :: "last_chunk \<Rightarrow> u8 list \<Rightarrow> u8 list \<Rightarrow> u8 list \<Rightarrow> u8 list \<Rightarrow> u8 list \<times> u8 list \<times> bool" where
  "spec_pad mode bytes pend chunk xs =
     (if length chunk = 2 \<and> xs = [] then (bytes, pend, mode \<noteq> StopBeforePartial)
      else if length chunk = 2 \<and> xs = [0x3D] \<or> 2 < length chunk \<and> xs = [] then
        case decode_chunk chunk (mode = Strict) of
          Some d \<Rightarrow> (bytes @ take (length chunk - 1) d, [], False)
        | None \<Rightarrow> (bytes, pend, True)
      else (bytes, pend, True))"

definition no_room :: "nat \<Rightarrow> u8 list \<Rightarrow> u8 list \<Rightarrow> bool" where
  "no_room mx bytes chunk \<longleftrightarrow> length bytes + 1 = mx \<and> length chunk = 2 \<or> length bytes + 2 = mx \<and> length chunk = 3"

fun spec_dec :: "b64_alphabet \<Rightarrow> last_chunk \<Rightarrow> nat \<Rightarrow> u8 list \<Rightarrow> u8 list \<Rightarrow> u8 list \<Rightarrow> u8 list \<Rightarrow> u8 list \<times> u8 list \<times> bool" where
  "spec_dec a mode mx bytes pend chunk [] = spec_end mode bytes pend chunk"
| "spec_dec a mode mx bytes pend chunk (c # xs) =
     (if c = 0x3D then spec_pad mode bytes pend chunk xs
      else case b64_value c a of
          None \<Rightarrow> (bytes, pend, True)
        | Some v \<Rightarrow>
            if no_room mx bytes chunk then (bytes, pend, False)
            else if length chunk = 3 then
              (let bytes' = bytes @ the (decode_chunk (chunk @ [v]) False)
               in if length bytes' = mx then (bytes', xs, False) else spec_dec a mode mx bytes' xs [] xs)
            else spec_dec a mode mx bytes pend (chunk @ [v]) xs)"

lemma syms_Nil [simp]: "syms [] = []" by (simp add: syms_def)

lemma skip_le: "i \<le> length units \<Longrightarrow> skip_ascii_ws units i \<le> length units"
  by (induction units i rule: skip_ascii_ws.induct) (subst skip_ascii_ws.simps, auto)

lemma syms_skip: "syms (drop (skip_ascii_ws units i) units) = syms (drop i units)"
proof (induction units i rule: skip_ascii_ws.induct)
  case (1 units i)
  show ?case
  proof (cases "i < length units \<and> is_ascii_ws (units ! i)")
    case True
    then have "syms (drop i units) = syms (drop (i + 1) units)"
      by (simp add: syms_def flip: Cons_nth_drop_Suc)
    with 1 True show ?thesis by (subst skip_ascii_ws.simps) simp
  next
    case False
    then show ?thesis by (subst skip_ascii_ws.simps) auto
  qed
qed

lemma skip_not_ws: "skip_ascii_ws units i < length units \<Longrightarrow> \<not> is_ascii_ws (units ! skip_ascii_ws units i)"
proof (induction units i rule: skip_ascii_ws.induct)
  case (1 units i)
  then show ?case
    by (cases "i < length units \<and> is_ascii_ws (units ! i)") (auto simp: skip_ascii_ws.simps [of units i])
qed

lemma syms_at_skip:
  assumes "i \<le> length units"
  shows "syms (drop i units) =
    (if skip_ascii_ws units i = length units then []
     else units ! skip_ascii_ws units i # syms (drop (skip_ascii_ws units i + 1) units))"
proof (cases "skip_ascii_ws units i = length units")
  case True
  then show ?thesis using syms_skip [of units i] by simp
next
  case False
  then have lt: "skip_ascii_ws units i < length units" using skip_le [OF assms] by simp
  have "drop (skip_ascii_ws units i) units = units ! skip_ascii_ws units i # drop (skip_ascii_ws units i + 1) units"
    using Cons_nth_drop_Suc [OF lt] by simp
  then have "syms (drop (skip_ascii_ws units i) units) =
      units ! skip_ascii_ws units i # syms (drop (skip_ascii_ws units i + 1) units)"
    using skip_not_ws [OF lt] by (simp add: syms_def)
  with False show ?thesis using syms_skip [of units i] by simp
qed

lemma syms_eq_Nil: "i \<le> length units \<Longrightarrow> syms (drop i units) = [] \<longleftrightarrow> skip_ascii_ws units i = length units"
  by (subst syms_at_skip) simp_all

lemma decode_chunk_Some:
  assumes "2 \<le> length chunk" "length chunk \<le> 4"
  shows "\<exists>c0 c1 c2. decode_chunk chunk False = Some [c0, c1, c2]"
  using assms by (auto simp: decode_chunk_def split: list.split)

lemma decode_chunk_length: "decode_chunk chunk e = Some d \<Longrightarrow> length d = 3"
  by (auto simp: decode_chunk_def split: list.splits if_splits)

text \<open>A result of the decoder agrees with one of the reference when the unread text holds the unread symbols.\<close>

definition agrees :: "u8 list \<Rightarrow> decode_result \<Rightarrow> u8 list \<times> u8 list \<times> bool \<Rightarrow> bool" where
  "agrees units r sp \<longleftrightarrow>
     sp = (dr_bytes r, syms (drop (dr_read r) units), dr_error r) \<and> dr_read r \<le> length units"

lemma agrees_result [simp]:
  "agrees units (result b rd er) sp \<longleftrightarrow> sp = (b, syms (drop rd units), er) \<and> rd \<le> length units"
  by (simp add: agrees_def result_def)

lemma b64_end_spec:
  assumes "length chunk \<le> 3" "rd \<le> length units"
  shows "\<exists>r. b64_end units mode chunk rd bytes = Some r \<and>
    agrees units r (spec_end mode bytes (syms (drop rd units)) chunk)"
  using assms decode_chunk_Some [of chunk]
  by (cases mode; cases chunk) (auto simp: b64_end_def spec_end_def Suc_le_eq eval_nat_numeral)

lemma b64_pad_spec:
  assumes "length chunk \<le> 3" "i \<le> length units" "rd \<le> length units"
  shows "agrees units (b64_pad units mode chunk i rd bytes)
    (spec_pad mode bytes (syms (drop rd units)) chunk (syms (drop i units)))"
proof -
  let ?j = "skip_ascii_ws units i"
  have j: "?j \<le> length units" using assms(2) by (rule skip_le)
  have "syms (drop (Suc ?j) units) = [] \<longleftrightarrow> skip_ascii_ws units (Suc ?j) = length units" if "?j \<noteq> length units"
    using that j by (intro syms_eq_Nil) simp
  then show ?thesis
    unfolding b64_pad_def spec_pad_def syms_at_skip [OF assms(2)] Let_def
    using j assms(3) skip_le [of "Suc ?j" units] by (auto split: option.split)
qed

text \<open>What the loop does at the next unit: the end, a symbol of another kind, no room, or a value.\<close>

lemma b64_loop_unit:
  assumes "length bytes < mx" "length chunk \<le> 3" "j = skip_ascii_ws units i"
  shows
    "j = length units \<Longrightarrow> b64_loop units a mode mx chunk i rd bytes = b64_end units mode chunk rd bytes"
    "j < length units \<Longrightarrow> units ! j = 0x3D \<Longrightarrow>
      b64_loop units a mode mx chunk i rd bytes = Some (b64_pad units mode chunk (j + 1) rd bytes)"
    "j < length units \<Longrightarrow> units ! j \<noteq> 0x3D \<Longrightarrow> b64_value (units ! j) a = None \<Longrightarrow>
      b64_loop units a mode mx chunk i rd bytes = Some (result bytes rd True)"
    "j < length units \<Longrightarrow> units ! j \<noteq> 0x3D \<Longrightarrow> b64_value (units ! j) a = Some v \<Longrightarrow> no_room mx bytes chunk \<Longrightarrow>
      b64_loop units a mode mx chunk i rd bytes = Some (result bytes rd False)"
    "j < length units \<Longrightarrow> units ! j \<noteq> 0x3D \<Longrightarrow> b64_value (units ! j) a = Some v \<Longrightarrow> \<not> no_room mx bytes chunk \<Longrightarrow>
      length chunk < 3 \<Longrightarrow>
      b64_loop units a mode mx chunk i rd bytes = b64_loop units a mode mx (chunk @ [v]) (j + 1) rd bytes"
    "j < length units \<Longrightarrow> units ! j \<noteq> 0x3D \<Longrightarrow> b64_value (units ! j) a = Some v \<Longrightarrow> \<not> no_room mx bytes chunk \<Longrightarrow>
      length chunk = 3 \<Longrightarrow> decode_chunk (chunk @ [v]) False = Some d \<Longrightarrow>
      b64_loop units a mode mx chunk i rd bytes =
        (if length (bytes @ d) = mx then Some (result (bytes @ d) (j + 1) False)
         else b64_loop units a mode mx [] (j + 1) (j + 1) (bytes @ d))"
  using assms by (subst b64_loop.simps; auto simp: Let_def no_room_def)+

lemma b64_loop_spec:
  assumes "i \<le> length units" "length chunk \<le> 3" "length bytes < mx" "length chunk = 3 \<Longrightarrow> length bytes + 2 \<le> mx"
    "rd \<le> length units"
  shows "\<exists>r. b64_loop units a mode mx chunk i rd bytes = Some r \<and>
    agrees units r (spec_dec a mode mx bytes (syms (drop rd units)) chunk (syms (drop i units)))"
  using assms
proof (induction "length units - i" arbitrary: chunk i rd bytes rule: less_induct)
  case less
  let ?j = "skip_ascii_ws units i"
  note loop = b64_loop_unit [OF less.prems(3,2) refl, where a = a and mode = mode and rd = rd and units = units and i = i]
  have s: "syms (drop i units) = (if ?j = length units then [] else units ! ?j # syms (drop (?j + 1) units))"
    by (rule syms_at_skip [OF less.prems(1)])
  have "?j \<le> length units" by (rule skip_le [OF less.prems(1)])
  then consider (finish) "?j = length units" | (unit) "?j < length units" "?j + 1 \<le> length units" by linarith
  then show ?case
  proof cases
    case finish
    then show ?thesis using b64_end_spec [OF less.prems(2,5)] by (simp add: loop(1) s)
  next
    case unit
    have dec: "length units - (?j + 1) < length units - i" using unit skip_ge [of i units] by linarith
    consider "units ! ?j = 0x3D" | "units ! ?j \<noteq> 0x3D" "b64_value (units ! ?j) a = None"
      | (no_room) v where "units ! ?j \<noteq> 0x3D" "b64_value (units ! ?j) a = Some v" "no_room mx bytes chunk"
      | (part) v where "units ! ?j \<noteq> 0x3D" "b64_value (units ! ?j) a = Some v" "\<not> no_room mx bytes chunk" "length chunk < 3"
      | (full) v where "units ! ?j \<noteq> 0x3D" "b64_value (units ! ?j) a = Some v" "\<not> no_room mx bytes chunk" "length chunk = 3"
      using less.prems(2) by fastforce
    then show ?thesis
    proof cases
      case 1
      then show ?thesis using unit b64_pad_spec [OF less.prems(2) unit(2) less.prems(5)] by (simp add: loop(2) s)
    next
      case 2
      then show ?thesis using unit less.prems(5) by (simp add: loop(3) s)
    next
      case no_room
      then show ?thesis using unit less.prems(5) loop(4) [OF unit(1) no_room] by (simp add: s)
    next
      case part
      have "length bytes + 2 \<le> mx" if "length (chunk @ [v]) = 3" using that part(3) less.prems(3) by (auto simp: no_room_def)
      from less.hyps [where chunk = "chunk @ [v]", OF dec unit(2) _ less.prems(3) this less.prems(5)] part(4)
      show ?thesis using unit part loop(5) [OF unit(1) part] by (simp add: s)
    next
      case full
      obtain c0 c1 c2 where d: "decode_chunk (chunk @ [v]) False = Some [c0, c1, c2]"
        using decode_chunk_Some [of "chunk @ [v]"] full(4) by auto
      have "length bytes + 3 \<le> mx" using full(3,4) less.prems(3,4) by (auto simp: no_room_def)
      then show ?thesis
        using less.hyps [OF dec unit(2) _ _ _ unit(2), of "[]" "bytes @ [c0, c1, c2]"] unit full d
          loop(6) [OF unit(1) full d]
        by (auto simp: s Let_def)
    qed
  qed
qed

subsection \<open>Laws of the reference decoder\<close>

declare spec_dec.simps(2) [simp del]

lemma spec_dec_symbol:
  assumes "six_bits v"
  shows "spec_dec a mode mx bytes pend chunk (sym a v # xs) =
    (if no_room mx bytes chunk then (bytes, pend, False)
     else if length chunk = 3 then
       (let bytes' = bytes @ the (decode_chunk (chunk @ [v]) False)
        in if length bytes' = mx then (bytes', xs, False) else spec_dec a mode mx bytes' xs [] xs)
     else spec_dec a mode mx bytes pend (chunk @ [v]) xs)"
  using sym_value [OF assms] by (simp add: spec_dec.simps(2))

lemma spec_dec_values:
  assumes "\<forall>v \<in> set vs. six_bits v" "length chunk + length vs \<le> 3" "length bytes < mx"
    "length chunk + length vs = 3 \<Longrightarrow> length bytes + 2 \<le> mx"
  shows "spec_dec a mode mx bytes pend chunk (map (sym a) vs @ xs) = spec_dec a mode mx bytes pend (chunk @ vs) xs"
  using assms
proof (induction vs arbitrary: chunk)
  case (Cons v vs)
  then have "\<not> no_room mx bytes chunk" "length chunk < 3" by (auto simp: no_room_def)
  then have "spec_dec a mode mx bytes pend chunk (sym a v # map (sym a) vs @ xs) =
      spec_dec a mode mx bytes pend (chunk @ [v]) (map (sym a) vs @ xs)"
    using Cons.prems(1) by (subst spec_dec_symbol) auto
  moreover have "spec_dec a mode mx bytes pend (chunk @ [v]) (map (sym a) vs @ xs) =
      spec_dec a mode mx bytes pend ((chunk @ [v]) @ vs) xs"
    using Cons.prems by (intro Cons.IH) simp_all
  ultimately show ?case by simp
qed simp

lemma spec_dec_full:
  assumes "\<forall>v \<in> set vs. six_bits v" "length vs = 4" "length bytes + 3 \<le> mx" "decode_chunk vs False = Some d"
  shows "spec_dec a mode mx bytes pend [] (map (sym a) vs @ xs) =
    (if length bytes + 3 = mx then (bytes @ d, xs, False) else spec_dec a mode mx (bytes @ d) xs [] xs)"
proof -
  obtain us v where vs: "vs = us @ [v]" "length us = 3" using assms(2) by (cases vs rule: rev_cases) auto
  have "spec_dec a mode mx bytes pend [] (map (sym a) vs @ xs) = spec_dec a mode mx bytes pend us (sym a v # xs)"
    using spec_dec_values [of us "[]" bytes mx a mode pend "sym a v # xs"] assms(1,3) vs by auto
  also have "\<not> no_room mx bytes us" using assms(3) by (auto simp: no_room_def)
  ultimately show ?thesis
    using assms(1,4) vs decode_chunk_length [OF assms(4)] by (simp add: spec_dec_symbol Let_def)
qed

lemma take_six: "\<forall>v \<in> set (take k (six c0 c1 c2)). six_bits v"
  using six_six_bits in_set_takeD by fastforce

lemma spec_dec_to_base64:
  assumes "length bytes < mx" "length bytes + length bs \<le> mx" "omit \<Longrightarrow> mode = Loose \<or> length bs mod 3 = 0"
  shows "spec_dec a mode mx bytes pend [] (to_base64 bs a omit) = (bytes @ bs, [], False)"
  using assms
proof (induction bs a omit arbitrary: bytes pend rule: to_base64.induct)
  case (1 c0 c1 c2 bs a omit)
  have "spec_dec a mode mx bytes pend [] (map (sym a) (six c0 c1 c2) @ to_base64 bs a omit) =
    (if length bytes + 3 = mx then (bytes @ [c0, c1, c2], to_base64 bs a omit, False)
     else spec_dec a mode mx (bytes @ [c0, c1, c2]) (to_base64 bs a omit) [] (to_base64 bs a omit))"
    using 1(3) six_six_bits decode_six(1) by (intro spec_dec_full) (auto simp: six_def)
  moreover have "bs = []" if "length bytes + 3 = mx" using that 1(3) by (cases bs) auto
  moreover have "spec_dec a mode mx (bytes @ [c0, c1, c2]) (to_base64 bs a omit) [] (to_base64 bs a omit) =
      ((bytes @ [c0, c1, c2]) @ bs, [], False)" if "length bytes + 3 \<noteq> mx"
  proof (rule 1(1) [OF refl])
    show "length (bytes @ [c0, c1, c2]) < mx" "length (bytes @ [c0, c1, c2]) + length bs \<le> mx" using that 1(3) by simp_all
    show "mode = Loose \<or> length bs mod 3 = 0" if omit
    proof -
      have "length (c0 # c1 # c2 # bs) = length bs + 3" by simp
      with 1(4) [OF that] show ?thesis by (simp only: mod_add_self2)
    qed
  qed
  ultimately show ?case unfolding to_base64_six by auto
next
  case (2 c0 a omit)
  have "spec_dec a mode mx bytes pend [] (map (sym a) (take 2 (six c0 0 0)) @ xs) =
      spec_dec a mode mx bytes pend (take 2 (six c0 0 0)) xs" for xs
    using 2(1) spec_dec_values [OF take_six, of "[]" 2 c0 0 0 bytes mx a mode pend xs] by (simp add: six_def)
  moreover have "length (take 2 (six c0 0 0)) = 2" "take 2 (six c0 0 0) \<noteq> []" by (simp_all add: six_def)
  ultimately show ?case using 2 decode_six(2) [of c0] unfolding to_base64_six
    by (simp add: spec_dec.simps(2) spec_pad_def spec_end_def)
next
  case (3 c0 c1 a omit)
  have "spec_dec a mode mx bytes pend [] (map (sym a) (take 3 (six c0 c1 0)) @ xs) =
      spec_dec a mode mx bytes pend (take 3 (six c0 c1 0)) xs" for xs
    using 3(1,2) spec_dec_values [OF take_six, of "[]" 3 c0 c1 0 bytes mx a mode pend xs] by (simp add: six_def)
  moreover have "length (take 3 (six c0 c1 0)) = 3" "take 3 (six c0 c1 0) \<noteq> []" by (simp_all add: six_def)
  ultimately show ?case using 3 decode_six(3) [of c0 c1] unfolding to_base64_six
    by (simp add: spec_dec.simps(2) spec_pad_def spec_end_def)
qed (simp add: spec_end_def)

lemma spec_pad_strict:
  assumes "spec_pad Strict bytes pend chunk xs = (out, un, False)" "\<forall>v \<in> set chunk. six_bits v" "length chunk \<le> 3"
  shows "\<exists>bs. out = bytes @ bs \<and> map (sym a) chunk @ 0x3D # xs = to_base64 bs a False"
proof -
  obtain d where d: "decode_chunk chunk True = Some d" "out = bytes @ take (length chunk - 1) d"
    "length chunk = 2 \<and> xs = [0x3D] \<or> 2 < length chunk \<and> xs = []"
    using assms(1) by (auto simp: spec_pad_def split: if_splits option.splits)
  obtain c0 c1 c2 where d3: "d = [c0, c1, c2]"
    using decode_chunk_length [OF d(1)] by (auto simp: numeral_eq_Suc length_Suc_conv)
  from d(3) show ?thesis
  proof
    assume "length chunk = 2 \<and> xs = [0x3D]"
    moreover from this obtain a b where "chunk = [a, b]" by (auto simp: numeral_eq_Suc length_Suc_conv)
    ultimately show ?thesis
      using six_decode2 [of _ _ c0 c1 c2] d assms(2) to_base64_six(2) [of c0 _ False] by (auto simp: d3 intro!: exI [of _ "[c0]"])
  next
    assume "2 < length chunk \<and> xs = []"
    moreover from this assms(3) have "length chunk = 3" by simp
    then obtain a b c where "chunk = [a, b, c]" by (auto simp: numeral_eq_Suc length_Suc_conv)
    ultimately show ?thesis
      using six_decode3 [of _ _ _ c0 c1 c2] d assms(2) to_base64_six(3) [of c0 c1 _ False] by (auto simp: d3 intro!: exI [of _ "[c0, c1]"])
  qed
qed

lemma spec_dec_strict:
  assumes "spec_dec a Strict mx bytes pend chunk xs = (out, un, False)"
    "\<forall>v \<in> set chunk. six_bits v" "length chunk \<le> 3" "length bytes + length chunk + length xs \<le> mx"
  shows "\<exists>bs. out = bytes @ bs \<and> map (sym a) chunk @ xs = to_base64 bs a False"
  using assms
proof (induction xs arbitrary: bytes pend chunk)
  case Nil
  then show ?case by (auto simp: spec_end_def split: if_splits)
next
  case (Cons c xs)
  show ?case
  proof (cases "c = 0x3D")
    case True
    with Cons.prems(1) have "spec_pad Strict bytes pend chunk xs = (out, un, False)" by (simp add: spec_dec.simps(2))
    from spec_pad_strict [OF this Cons.prems(2,3)] True show ?thesis by simp
  next
    case False
    then obtain v where v: "b64_value c a = Some v"
      using Cons.prems(1) by (auto simp: spec_dec.simps(2) split: option.splits)
    have six: "six_bits v" and c: "c = sym a v" using value_sym [OF v] by simp_all
    have room: "\<not> no_room mx bytes chunk" using Cons.prems(4) by (auto simp: no_room_def)
    note step = Cons.prems(1) [unfolded c spec_dec_symbol [OF six]]
    show ?thesis
    proof (cases "length chunk = 3")
      case True
      then obtain u w x where ch: "chunk = [u, w, x]" by (auto simp: numeral_eq_Suc length_Suc_conv)
      obtain c0 c1 c2 where d: "decode_chunk (chunk @ [v]) False = Some [c0, c1, c2]"
        using decode_chunk_Some [of "chunk @ [v]"] True by auto
      have "spec_dec a Strict mx (bytes @ [c0, c1, c2]) xs [] xs = (out, un, False)"
        using step room True d Cons.prems(4) by (simp add: Let_def)
      then obtain bs where bs: "out = (bytes @ [c0, c1, c2]) @ bs" "xs = to_base64 bs a False"
        using Cons.IH [of "bytes @ [c0, c1, c2]" xs "[]"] Cons.prems(4) True by auto
      have "six c0 c1 c2 = [u, w, x, v]"
        using six_decode4 [of u w x v False c0 c1 c2] d ch six Cons.prems(2) by auto
      then have "map (sym a) chunk @ c # xs = to_base64 (c0 # c1 # c2 # bs) a False"
        unfolding to_base64_six(1) bs(2) ch c by simp
      with bs(1) show ?thesis by (intro exI [of _ "c0 # c1 # c2 # bs"]) simp
    next
      case False
      then have "spec_dec a Strict mx bytes pend (chunk @ [v]) xs = (out, un, False)" using step room by simp
      from Cons.IH [OF this] six Cons.prems(2-4) False c show ?thesis by auto
    qed
  qed
qed

text \<open>
  An ending of the reference decoder either gives up the pending symbols or reads everything, and then does not
  depend on them.
\<close>

definition ends_well :: "(u8 list \<Rightarrow> u8 list \<times> u8 list \<times> bool) \<Rightarrow> nat \<Rightarrow> u8 list \<Rightarrow> u8 list \<Rightarrow> bool" where
  "ends_well f mx bytes chunk \<longleftrightarrow>
     (\<forall>pend out un er. f pend = (out, un, er) \<longrightarrow>
        out = bytes \<and> un = pend \<or>
        (\<forall>pend'. f pend' = (out, [], False)) \<and> un = [] \<and> length out \<le> length bytes + (length chunk - 1))"

lemma decode_chunk_bounds: "decode_chunk chunk e = Some d \<Longrightarrow> 2 \<le> length chunk \<and> length chunk \<le> 4"
  by (auto simp: decode_chunk_def split: list.splits)

lemma spec_end_ends: "ends_well (\<lambda>pend. spec_end mode bytes pend chunk) mx bytes chunk"
  by (auto simp: ends_well_def spec_end_def)

lemma spec_pad_ends: "ends_well (\<lambda>pend. spec_pad mode bytes pend chunk xs) mx bytes chunk"
  by (auto simp: ends_well_def spec_pad_def split: if_splits option.splits)

lemma spec_dec_prefix_end:
  assumes "ends_well (\<lambda>pend. spec_dec a mode mx bytes pend chunk xs) mx bytes chunk"
    "spec_dec a mode mx bytes (map (sym a) chunk @ xs) chunk xs = (out, un, er)"
    "\<forall>v \<in> set chunk. six_bits v" "length chunk \<le> 3" "length bytes < mx" "length chunk = 3 \<Longrightarrow> length bytes + 2 \<le> mx"
  shows "\<exists>p. map (sym a) chunk @ xs = p @ un \<and> (\<forall>pend. spec_dec a mode mx bytes pend [] p = (out, [], False)) \<and>
    length out \<le> mx"
proof -
  have replay: "spec_dec a mode mx bytes pend [] (map (sym a) chunk @ xs) = spec_dec a mode mx bytes pend chunk xs" for pend
    using spec_dec_values [of chunk "[]" bytes mx a mode pend xs] assms(3-6) by simp
  from assms(1,2) consider "out = bytes" "un = map (sym a) chunk @ xs"
    | "\<And>pend. spec_dec a mode mx bytes pend chunk xs = (out, [], False)" "un = []" "length out \<le> length bytes + (length chunk - 1)"
    unfolding ends_well_def by blast
  then show ?thesis
  proof cases
    case 1
    then show ?thesis using assms(5) by (intro exI [of _ "[]"]) (simp add: spec_end_def)
  next
    case 2
    then show ?thesis using assms(4-6) replay by (intro exI [of _ "map (sym a) chunk @ xs"]) (auto simp: le_Suc_eq numeral_eq_Suc)
  qed
qed

lemma spec_dec_prefix:
  assumes "spec_dec a mode mx bytes (map (sym a) chunk @ xs) chunk xs = (out, un, er)"
    "\<forall>v \<in> set chunk. six_bits v" "length chunk \<le> 3" "length bytes < mx" "length chunk = 3 \<Longrightarrow> length bytes + 2 \<le> mx"
  shows "\<exists>p. map (sym a) chunk @ xs = p @ un \<and> (\<forall>pend. spec_dec a mode mx bytes pend [] p = (out, [], False)) \<and>
    length out \<le> mx"
  using assms
proof (induction xs arbitrary: bytes chunk)
  case Nil
  then show ?case by (intro spec_dec_prefix_end) (simp_all add: spec_end_ends)
next
  case (Cons c xs)
  show ?case
  proof (cases "\<exists>v. c \<noteq> 0x3D \<and> b64_value c a = Some v \<and> \<not> no_room mx bytes chunk")
    case False
    then have "ends_well (\<lambda>pend. spec_dec a mode mx bytes pend chunk (c # xs)) mx bytes chunk"
      using spec_pad_ends [of mode bytes chunk xs mx]
      by (cases "c = 0x3D"; cases "b64_value c a") (auto simp: spec_dec.simps(2) ends_well_def)
    then show ?thesis using Cons.prems by (rule spec_dec_prefix_end)
  next
    case True
    then obtain v where v: "c \<noteq> 0x3D" "b64_value c a = Some v" "\<not> no_room mx bytes chunk" by blast
    have six: "six_bits v" and c: "c = sym a v" using value_sym [OF v(2)] by simp_all
    show ?thesis
    proof (cases "length chunk = 3")
      case True
      obtain c0 c1 c2 where d: "decode_chunk (chunk @ [v]) False = Some [c0, c1, c2]"
        using decode_chunk_Some [of "chunk @ [v]"] True by auto
      have mx: "length bytes + 3 \<le> mx" using Cons.prems(4,5) v(3) True by (auto simp: no_room_def)
      have replay: "spec_dec a mode mx bytes pend [] (map (sym a) (chunk @ [v]) @ ys) =
          (if length bytes + 3 = mx then (bytes @ [c0, c1, c2], ys, False)
           else spec_dec a mode mx (bytes @ [c0, c1, c2]) ys [] ys)" for pend ys
        using spec_dec_full [of "chunk @ [v]" bytes mx "[c0, c1, c2]" a mode pend ys] mx d six True Cons.prems(2) by auto
      have step: "(out, un, er) = (if length bytes + 3 = mx then (bytes @ [c0, c1, c2], xs, False)
           else spec_dec a mode mx (bytes @ [c0, c1, c2]) xs [] xs)"
        using Cons.prems(1) d True v(3) unfolding c spec_dec_symbol [OF six]
        by (auto simp: Let_def numeral_3_eq_3 split: if_splits)
      have "\<exists>p. xs = p @ un \<and> (\<forall>pend. spec_dec a mode mx bytes pend [] (map (sym a) (chunk @ [v]) @ p) = (out, [], False)) \<and>
          length out \<le> mx"
        using Cons.IH [of "bytes @ [c0, c1, c2]" "[]"] step mx unfolding replay by (cases "length bytes + 3 = mx") auto
      then show ?thesis unfolding c by (metis append.assoc append_Cons append_Nil list.simps(8,9) map_append)
    next
      case False
      then have "spec_dec a mode mx bytes (map (sym a) (chunk @ [v]) @ xs) (chunk @ [v]) xs = (out, un, er)"
        using Cons.prems(1) v(3) unfolding c spec_dec_symbol [OF six] by simp
      from Cons.IH [OF this] Cons.prems six False v(3) show ?thesis by (auto simp: c no_room_def)
    qed
  qed
qed

end
