(* ===== verification/Base64Laws.thy ===== *)
theory Base64Laws
  imports Base64Text
begin

text \<open>
  The codec laws: encodings decode to what they encode, strict decoding accepts the canonical texts alone, decoding is
  total, bounded and resumable, and the same for hex.
\<close>

unbundle bit_operations_syntax


subsection \<open>The base64 codec\<close>

lemma from_base64_agrees:
  assumes "0 < mx"
  shows "\<exists>r. from_base64 units a mode mx = Some r \<and> agrees units r (spec_dec a mode mx [] (syms units) [] (syms units))"
  using b64_loop_spec [of 0 units "[]" "[]" mx 0 a mode] assms by (simp add: from_base64_def)

lemma to_base64_no_ws: "u \<in> set (to_base64 bs a omit) \<Longrightarrow> \<not> is_ascii_ws u"
proof (induction bs a omit rule: to_base64.induct)
  case (1 c0 c1 c2 bs a omit)
  then show ?case unfolding to_base64_six using six_six_bits sym_value(3) by fastforce
next
  case (2 c0 a omit)
  have "\<not> is_ascii_ws 0x3D" by (simp add: is_ascii_ws_def)
  with 2 show ?case unfolding to_base64_six using take_six sym_value(3) by (fastforce split: if_splits)
next
  case (3 c0 c1 a omit)
  have "\<not> is_ascii_ws 0x3D" by (simp add: is_ascii_ws_def)
  with 3 show ?case unfolding to_base64_six using take_six sym_value(3) by (fastforce split: if_splits)
qed simp

lemma syms_to_base64: "syms (to_base64 bs a omit) = to_base64 bs a omit"
  unfolding syms_def using to_base64_no_ws by (simp add: filter_id_conv)

lemma length_to_base64: "length bs \<le> length (to_base64 bs a omit)"
  by (induction bs a omit rule: to_base64.induct) (simp_all add: Let_def)

lemma syms_length: "length (syms units) \<le> length units" by (simp add: syms_def)

lemma result_collapse: "result (dr_bytes r) (dr_read r) (dr_error r) = r" by (simp add: result_def)

text \<open>C24: base64 encoding round-trips. Decoding an encoding gives the bytes back, reads the whole text and reports no
  error, for both alphabets and every treatment of the last chunk; without padding the last chunk must be full or
  the decoder loose. The output limit may be as tight as the bytes themselves.\<close>

theorem base64_roundtrip:
  assumes "length bs \<le> max_len" "omit \<Longrightarrow> mode = Loose \<or> length bs mod 3 = 0"
  shows "from_base64 (to_base64 bs a omit) a mode max_len = Some (result bs (length (to_base64 bs a omit)) False)"
proof (cases "max_len = 0")
  case True
  then show ?thesis using assms(1) by (simp add: from_base64_def)
next
  case False
  let ?u = "to_base64 bs a omit"
  obtain r where r: "from_base64 ?u a mode max_len = Some r" "agrees ?u r (bs, [], False)"
    using from_base64_agrees [of max_len ?u a mode] False assms spec_dec_to_base64 [of "[]" max_len bs omit mode a ?u]
    unfolding syms_to_base64 by auto
  have "syms (drop (dr_read r) ?u) = drop (dr_read r) ?u"
    unfolding syms_def using to_base64_no_ws in_set_dropD by (fastforce simp: filter_id_conv)
  then have "dr_read r = length ?u" using r(2) by (auto simp: agrees_def)
  with r show ?thesis using result_collapse [of r] by (simp add: agrees_def)
qed

text \<open>C22: strict decoding accepts exactly the canonical texts. With room for the output, a text decodes to given bytes
  without error if and only if it is, whitespace aside, the padded encoding of those bytes: missing or extra padding,
  left-over bits and symbols of the other alphabet are all refused.\<close>

theorem base64_strict_exact:
  assumes "length units \<le> max_len"
  shows "(\<exists>n. from_base64 units a Strict max_len = Some (result bs n False)) \<longleftrightarrow>
    filter (\<lambda>u. \<not> is_ascii_ws u) units = to_base64 bs a False"
proof (cases "max_len = 0")
  case True
  have "to_base64 bs a False = [] \<longleftrightarrow> bs = []" using length_to_base64 [of bs a False] by auto
  then show ?thesis using True assms by (auto simp: from_base64_def result_def)
next
  case False
  let ?s = "spec_dec a Strict max_len [] (syms units) [] (syms units)"
  obtain r where r: "from_base64 units a Strict max_len = Some r" "agrees units r ?s"
    using from_base64_agrees False by blast
  show ?thesis unfolding syms_def [symmetric]
  proof
    assume "\<exists>n. from_base64 units a Strict max_len = Some (result bs n False)"
    then have "\<exists>un. ?s = (bs, un, False)" using r by auto
    then show "syms units = to_base64 bs a False"
      using spec_dec_strict [of a max_len "[]" "syms units" "[]" "syms units" bs] syms_length [of units] assms by auto
  next
    assume s: "syms units = to_base64 bs a False"
    then have "length bs \<le> max_len" using length_to_base64 [of bs a False] syms_length [of units] assms by simp
    then have "?s = (bs, [], False)" using spec_dec_to_base64 [of "[]" max_len bs False] False s by simp
    then show "\<exists>n. from_base64 units a Strict max_len = Some (result bs n False)"
      using r result_collapse [of r] by (intro exI [of _ "dr_read r"]) (simp add: agrees_def)
  qed
qed

text \<open>C23: decoding any text with any limit returns without a panic, produces no more bytes than the limit and reads no
  further than the text; and the bytes it produced are those of the prefix it reports as read, which decodes to them
  without error, so a caller can resume from there.\<close>

theorem base64_decoding_resumable:
  "\<exists>r. from_base64 units a mode max_len = Some r \<and> length (dr_bytes r) \<le> max_len \<and> dr_read r \<le> length units \<and>
     (\<exists>n. from_base64 (take (dr_read r) units) a mode max_len = Some (result (dr_bytes r) n False))"
proof (cases "max_len = 0")
  case True
  then show ?thesis by (simp add: from_base64_def result_def)
next
  case False
  obtain r where r: "from_base64 units a mode max_len = Some r"
    "agrees units r (spec_dec a mode max_len [] (syms units) [] (syms units))"
    using from_base64_agrees False by blast
  then obtain p where p: "syms units = p @ syms (drop (dr_read r) units)" "length (dr_bytes r) \<le> max_len"
    "\<And>pend. spec_dec a mode max_len [] pend [] p = (dr_bytes r, [], False)"
    using spec_dec_prefix [of a mode max_len "[]" "[]" "syms units"] False unfolding agrees_def by fastforce
  have "syms units = syms (take (dr_read r) units) @ syms (drop (dr_read r) units)"
    by (simp add: syms_def flip: filter_append)
  then have "p = syms (take (dr_read r) units)" using p(1) by simp
  then obtain q where "from_base64 (take (dr_read r) units) a mode max_len = Some q"
    "dr_bytes q = dr_bytes r" "\<not> dr_error q"
    using from_base64_agrees [of max_len "take (dr_read r) units" a mode] p(3) False by (auto simp: agrees_def)
  then have "from_base64 (take (dr_read r) units) a mode max_len = Some (result (dr_bytes r) (dr_read q) False)"
    using result_collapse [of q] by simp
  then show ?thesis using r p(2) by (auto simp: agrees_def)
qed

subsection \<open>The hex codec\<close>

definition hex_lower :: "u8 \<Rightarrow> u8" where
  "hex_lower c = (if 0x41 \<le> c \<and> c \<le> 0x46 then c + 0x20 else c)"

lemma HEX_eq: "HEX = map of_nat ([48..<58] @ [97..<103])"
  by (simp add: HEX_def upt_rec_numeral)

lemma hex_digits: "\<forall>(k, c) \<in> set (enumerate 0 HEX). hex_value c = Some (of_nat k) \<and> hex_lower c = c"
  unfolding HEX_eq by (simp add: upt_rec_numeral hex_value_def hex_lower_def)

lemma length_HEX: "length HEX = 16"
  by (simp add: HEX_eq)

lemma hex_value_HEX: "v < 16 \<Longrightarrow> hex_value (HEX ! unat v) = Some v"
proof -
  assume "v < 16"
  then have "(unat v, HEX ! unat v) \<in> set (enumerate 0 HEX)"
    by (simp add: in_set_enumerate_eq length_HEX word_less_nat_alt)
  from bspec [OF hex_digits this] show ?thesis by simp
qed

lemma hex_value_ranges:
  "\<forall>c \<in> set (map of_nat ([48..<58] @ [97..<103] @ [65..<71])). case hex_value c of
     None \<Rightarrow> False | Some v \<Rightarrow> v < 16 \<and> HEX ! unat v = hex_lower c"
  unfolding HEX_eq by (simp add: upt_rec_numeral hex_value_def hex_lower_def)

lemma hex_value_Some:
  assumes "hex_value c = Some v"
  shows "v < 16" "HEX ! unat v = hex_lower c"
proof -
  have "c \<in> set (map of_nat ([48..<58] @ [97..<103] @ [65..<71]))"
    using assms word_in_range [of 48 c 57] word_in_range [of 97 c 102] word_in_range [of 65 c 70]
    unfolding hex_value_def by (auto split: if_splits simp del: upt_Suc)
  from bspec [OF hex_value_ranges this] assms show "v < 16" "HEX ! unat v = hex_lower c" by simp_all
qed

lemma nibbles:
  "drop_bit 4 b < 16" "b AND 0xF < 16" "push_bit 4 (drop_bit 4 b) OR (b AND 0xF) = b" for b :: u8
proof -
  have m: "b AND 0xF = take_bit 4 b" by (rule mask_bits)
  show "push_bit 4 (drop_bit 4 b) OR (b AND 0xF) = b"
    unfolding m by (rule byte_eqI) (auto simp: bit_simps)
  have "unat (take_bit 4 b) < 2 ^ 4" by (simp only: unsigned_take_bit_eq take_bit_nat_less_exp)
  then show "b AND 0xF < 16" by (simp add: m word_less_nat_alt)
  have "unat (drop_bit 4 b) = drop_bit 4 (unat b)" by (rule unat_drop_bit_eq)
  then have "unat (drop_bit 4 b) = unat b div 16" by (simp only: drop_bit_eq_div) simp
  then show "drop_bit 4 b < 16" using unsigned_less [of b, where 'a = nat] by (simp add: word_less_nat_alt)
qed

lemma nibble_parts:
  assumes "hi < 16" "lo < 16"
  shows "drop_bit 4 (push_bit 4 hi OR lo) = hi" "(push_bit 4 hi OR lo) AND 0xF = (lo :: u8)"
proof -
  have small: "\<not> bit v i" if "v < 16" "4 \<le> i" for v :: u8 and i
  proof -
    have "take_bit 4 (unat v) = unat v" using \<open>v < 16\<close> by (simp add: word_less_nat_alt take_bit_nat_eq_self)
    then have "take_bit 4 v = v" by (simp only: unat_inject flip: unsigned_take_bit_eq)
    then show ?thesis using \<open>4 \<le> i\<close> by (metis bit_take_bit_iff not_le)
  qed
  show "drop_bit 4 (push_bit 4 hi OR lo) = hi" "(push_bit 4 hi OR lo) AND 0xF = lo"
    unfolding mask_bits using small [OF assms(1)] small [OF assms(2)]
    by (intro byte_eqI; simp add: bit_simps)+
qed

lemma to_hex_Cons: "to_hex (b # bs) = HEX ! unat (drop_bit 4 b) # HEX ! unat (b AND 0xF) # to_hex bs"
  by (simp add: to_hex_def)

lemma to_hex_append: "to_hex (bs @ cs) = to_hex bs @ to_hex cs"
  by (simp add: to_hex_def)

lemma length_to_hex: "length (to_hex bs) = 2 * length bs"
  by (induction bs) (simp_all add: to_hex_Cons, simp add: to_hex_def)

lemma hex_loop_to_hex:
  assumes "length pre \<le> mx"
  shows "hex_loop (to_hex (pre @ bs)) mx (2 * length pre) pre = result (take mx (pre @ bs)) (2 * min mx (length (pre @ bs))) False"
  using assms
proof (induction bs arbitrary: pre)
  case Nil
  then show ?case by (subst hex_loop.simps) (simp add: length_to_hex)
next
  case (Cons b bs)
  have at: "to_hex (pre @ b # bs) ! (2 * length pre) = HEX ! unat (drop_bit 4 b)"
    "to_hex (pre @ b # bs) ! Suc (2 * length pre) = HEX ! unat (b AND 0xF)"
    by (simp_all add: to_hex_append to_hex_Cons nth_append length_to_hex)
  show ?case
  proof (cases "length pre = mx")
    case True
    then show ?thesis by (subst hex_loop.simps) (simp add: length_to_hex)
  next
    case False
    then have "hex_loop (to_hex (pre @ b # bs)) mx (2 * length pre) pre =
        hex_loop (to_hex ((pre @ [b]) @ bs)) mx (2 * length (pre @ [b])) (pre @ [b])"
      by (subst hex_loop.simps) (simp add: length_to_hex at hex_value_HEX nibbles)
    with Cons.IH [of "pre @ [b]"] Cons.prems False show ?thesis by simp
  qed
qed

definition hex_ok :: "u8 list \<Rightarrow> nat \<Rightarrow> decode_result \<Rightarrow> bool" where
  "hex_ok units mx r \<longleftrightarrow> to_hex (dr_bytes r) = map hex_lower (take (dr_read r) units) \<and>
     dr_read r \<le> length units \<and> length (dr_bytes r) \<le> mx \<and>
     (dr_error r \<or> dr_read r = length units \<or> length (dr_bytes r) = mx)"

lemma hex_loop_ok:
  assumes "even (length units)" "even i" "i \<le> length units" "to_hex bytes = map hex_lower (take i units)" "length bytes \<le> mx"
  shows "hex_ok units mx (hex_loop units mx i bytes)"
  using assms
proof (induction units mx i bytes rule: hex_loop.induct)
  case (1 units mx i bytes)
  show ?case
  proof (cases "i + 1 < length units \<and> length bytes \<noteq> mx")
    case False
    moreover have "i = length units" if "\<not> i + 1 < length units" using that 1(2-4) by (cases "i = length units") (auto elim!: evenE)
    ultimately show ?thesis using 1(3-6) by (subst hex_loop.simps) (auto simp: hex_ok_def result_def)
  next
    case True
    show ?thesis
    proof (cases "hex_value (units ! i) = None \<or> hex_value (units ! (i + 1)) = None")
      case bad: True
      with True 1(3-6) show ?thesis
        by (subst hex_loop.simps) (auto simp: hex_ok_def result_def split: option.split)
    next
      case False
      then obtain hi lo where v: "hex_value (units ! i) = Some hi" "hex_value (units ! (i + 1)) = Some lo" by auto
      note d = hex_value_Some [OF v(1)] hex_value_Some [OF v(2)]
      have "take (i + 2) units = take i units @ [units ! i, units ! (i + 1)]"
        using True by (simp add: take_Suc_conv_app_nth)
      then have "to_hex (bytes @ [push_bit 4 hi OR lo]) = map hex_lower (take (i + 2) units)"
        using 1(5) d nibble_parts [OF d(1) d(3)] by (simp add: to_hex_append to_hex_Cons) (simp add: to_hex_def)
      then have "hex_ok units mx (hex_loop units mx (i + 2) (bytes @ [push_bit 4 hi OR lo]))"
        using True v 1(2-6) by (intro 1(1)) auto
      moreover have "hex_loop units mx i bytes = hex_loop units mx (i + 2) (bytes @ [push_bit 4 hi OR lo])"
        using True v by (subst hex_loop.simps) simp
      ultimately show ?thesis by simp
    qed
  qed
qed

text \<open>C25: the hex codec. Encoded bytes decode to themselves, up to the limit; and whatever the text, the bytes decoded
  are those whose lower-case encoding is the part of the text reported as read, no more than the limit, and decoding
  stops early only for an error or a full output.\<close>

theorem hex_codec_exact:
  "from_hex (to_hex bs) max_len = result (take max_len bs) (2 * min max_len (length bs)) False \<and>
   hex_ok units max_len (from_hex units max_len)"
proof
  show "from_hex (to_hex bs) max_len = result (take max_len bs) (2 * min max_len (length bs)) False"
    using hex_loop_to_hex [of "[]" max_len bs] by (simp add: from_hex_def length_to_hex)
  show "hex_ok units max_len (from_hex units max_len)"
  proof (cases "odd (length units)")
    case True
    then show ?thesis by (simp add: from_hex_def hex_ok_def result_def to_hex_def)
  next
    case False
    then show ?thesis using hex_loop_ok [of units 0 "[]" max_len] by (simp add: from_hex_def to_hex_def)
  qed
qed

subsection \<open>Instances\<close>

theorem base64_roundtrip_witness:
  "from_base64 (to_base64 [0x4D, 0x61] Url True) Url Loose 2 =
     Some (result [0x4D, 0x61] (length (to_base64 [0x4D, 0x61] Url True)) False)"
  by (rule base64_roundtrip) simp_all

theorem base64_strict_exact_witness:
  "\<nexists>n. from_base64 [0x54, 0x51] Standard Strict 8 = Some (result [0x4D] n False)"
proof -
  have "to_base64 [0x4D] Standard False \<noteq> [0x54, 0x51]" by (simp add: Let_def)
  then show ?thesis
    using base64_strict_exact [of "[0x54, 0x51]" 8 Standard "[0x4D]"] by (auto simp: is_ascii_ws_def)
qed

end
