(* ===== verification/Shape.thy ===== *)
theory Shape
  imports CollIndex Bytes "HOL-Library.AList"
begin

text \<open>
  Hidden classes, \<open>shape.rs\<close>. The immutable part of a shape is a datatype whose parent link is the parent itself and
  whose \<open>sid\<close> is its address; the cells of a shape (its cached children, its key index, its lookup count and its mask
  of slots that are not Number-only) live in a store under that address. \<open>alive\<close> lists the shapes some strong
  reference keeps: a weak link upgrades to its shape while the shape is alive. Slot numbers and lengths are naturals.
\<close>

unbundle bit_operations_syntax

type_synonym key = "u8 list"

definition INDEX_MIN_LEN :: nat where "INDEX_MIN_LEN = 8"
definition INDEX_AFTER_PROBES :: nat where "INDEX_AFTER_PROBES = 3"
definition TRANSITION_LIST_MAX :: nat where "TRANSITION_LIST_MAX = 16"

subsection \<open>The hash of a key\<close>

definition HASH_K :: u64 where "HASH_K = 0x517cc1b727220a95"

definition hash_word :: "u64 \<Rightarrow> u8 list \<Rightarrow> u64" where
  "hash_word h c = (word_rotl 5 h XOR from_le_bytes c) * HASH_K"

function hash_chunks :: "u64 \<Rightarrow> u8 list \<Rightarrow> u64" where
  "hash_chunks h bytes =
     (if 8 \<le> length bytes then hash_chunks (hash_word h (take 8 bytes)) (drop 8 bytes)
      else if bytes = [] then h
      else hash_word h (bytes @ replicate (8 - length bytes) 0))"
  by auto
termination by (relation "measure (\<lambda>(_, bytes). length bytes)") auto

declare hash_chunks.simps [simp del]

definition key_hash :: "key \<Rightarrow> u32" where
  "key_hash key =
     (let h = hash_chunks (of_nat (length key)) key; h' = ucast (h XOR drop_bit 32 h) in if h' = 0 then 1 else h')"

subsection \<open>Shapes\<close>

datatype shape = Shape (sid: nat) (parent: "shape option") (shape_key: "key option") (shape_slot: nat) (shape_len: nat) (brands: u8)

definition PRIM_WRAP_KEY :: key where "PRIM_WRAP_KEY = 0 # map of_char ''prim''"
definition BRAND_KEYS :: "key list" where "BRAND_KEYS = [PRIM_WRAP_KEY, 0 # map of_char ''htmldda'']"
definition SYMBOL_KEY_PREFIX :: key where "SYMBOL_KEY_PREFIX = 0 # map of_char ''sym:''"
definition SYMBOL_KEYS_BIT :: u8 where "SYMBOL_KEYS_BIT = 0x80"
definition IMPLIED_FN_ATTRS_BIT :: u8 where "IMPLIED_FN_ATTRS_BIT = 0x40"
definition IMPLIED_CTOR_ATTRS_BIT :: u8 where "IMPLIED_CTOR_ATTRS_BIT = 0x20"
definition IMPLIED_ATTRS_BITS :: u8 where "IMPLIED_ATTRS_BITS = IMPLIED_FN_ATTRS_BIT OR IMPLIED_CTOR_ATTRS_BIT"

definition starts_with :: "key \<Rightarrow> key \<Rightarrow> bool" where
  "starts_with key p \<longleftrightarrow> take (length p) key = p"

fun position :: "('a \<Rightarrow> bool) \<Rightarrow> 'a list \<Rightarrow> nat option" where
  "position p [] = None"
| "position p (x # xs) = (if p x then Some 0 else map_option Suc (position p xs))"

definition brand_bit :: "key \<Rightarrow> u8" where
  "brand_bit key =
     (if \<not> starts_with key [0] then 0
      else case position (\<lambda>b. b = key) BRAND_KEYS of None \<Rightarrow> 0 | Some i \<Rightarrow> push_bit i 1)"

definition key_bits :: "key \<Rightarrow> u8" where
  "key_bits key =
     (if \<not> starts_with key [0] then 0
      else brand_bit key OR (if starts_with key SYMBOL_KEY_PREFIX then SYMBOL_KEYS_BIT else 0))"

text \<open>The walks up the parent chain: of \<open>walk_lookup\<close>, and of \<open>ShapeIndex::build\<close> and \<open>keys\<close>, newest key first.\<close>

fun walk_lookup :: "shape \<Rightarrow> key \<Rightarrow> nat option" where
  "walk_lookup (Shape i p k s l b) key =
     (if k = Some key then Some s else case p of None \<Rightarrow> None | Some q \<Rightarrow> walk_lookup q key)"

fun build_walk :: "shape \<Rightarrow> key list" where
  "build_walk (Shape i p k s l b) =
     (case k of None \<Rightarrow> [] | Some k \<Rightarrow> k # (case p of None \<Rightarrow> [] | Some q \<Rightarrow> build_walk q))"

fun keys_walk :: "shape \<Rightarrow> key list" where
  "keys_walk (Shape i p k s l b) =
     (case k of None \<Rightarrow> [] | Some k \<Rightarrow> [k]) @ (case p of None \<Rightarrow> [] | Some q \<Rightarrow> keys_walk q)"

subsection \<open>The key index of a large layout\<close>

record shape_index =
  table :: "u64 list"
  ix_keys :: "key list"

definition entry_word :: "u32 \<Rightarrow> nat \<Rightarrow> u64" where
  "entry_word h i = push_bit 32 (ucast h) OR (of_nat i + 1)"

fun place_keys :: "nat \<Rightarrow> (nat \<times> key) list \<Rightarrow> u64 list \<Rightarrow> u64 list option" where
  "place_keys m [] t = Some t"
| "place_keys m ((s, k) # es) t =
     Option.bind (probe m (\<lambda>i. t ! i = 0) (unat (key_hash k) AND m))
       (\<lambda>i. place_keys m es (t[i := entry_word (key_hash k) s]))"

definition build_index :: "shape \<Rightarrow> shape_index option" where
  "build_index s =
     (let ks = rev (build_walk s); cap = max (next_power_of_two (length ks * 2)) 16 in
      map_option (\<lambda>t. \<lparr>table = t, ix_keys = ks\<rparr>) (place_keys (cap - 1) (enumerate 0 ks) (replicate cap 0)))"

definition index_find :: "shape_index \<Rightarrow> key \<Rightarrow> nat option option" where
  "index_find ix key =
     (let h = key_hash key; m = length (table ix) - 1;
          hit = (\<lambda>e. ucast (drop_bit 32 e) = h \<and> ix_keys ix ! unat (ucast e - 1 :: u32) = key) in
      map_option (\<lambda>i. if table ix ! i = 0 then None else Some (unat (ucast (table ix ! i) - 1 :: u32)))
        (probe m (\<lambda>i. table ix ! i = 0 \<or> hit (table ix ! i)) (unat h AND m)))"

subsection \<open>Cached children\<close>

text \<open>\<open>TMap\<close> is an ordered map in the source; the order of its entries is only the order of a walk that marks shapes.\<close>

datatype transitions =
  TNone | TOne key shape | TList "(key \<times> shape) list" | TMap "(key \<times> shape) list" nat

definition upgrade :: "shape list \<Rightarrow> shape \<Rightarrow> shape option" where
  "upgrade al w = (if w \<in> set al then Some w else None)"

definition trans_get :: "shape list \<Rightarrow> transitions \<Rightarrow> key \<Rightarrow> shape option" where
  "trans_get al t key = (case t of
     TNone \<Rightarrow> None
   | TOne k w \<Rightarrow> if k = key then upgrade al w else None
   | TList l \<Rightarrow> Option.bind (map_of l key) (upgrade al)
   | TMap m _ \<Rightarrow> Option.bind (map_of m key) (upgrade al))"

definition live_children :: "shape list \<Rightarrow> transitions \<Rightarrow> shape list" where
  "live_children al t = (case t of
     TNone \<Rightarrow> []
   | TOne _ w \<Rightarrow> filter (\<lambda>w. w \<in> set al) [w]
   | TList l \<Rightarrow> filter (\<lambda>w. w \<in> set al) (map snd l)
   | TMap m _ \<Rightarrow> filter (\<lambda>w. w \<in> set al) (map snd m))"

definition trans_insert :: "shape list \<Rightarrow> transitions \<Rightarrow> key \<Rightarrow> shape \<Rightarrow> transitions" where
  "trans_insert al t key child = (case t of
     TNone \<Rightarrow> TOne key child
   | TOne k c \<Rightarrow>
       if k = key \<or> c \<notin> set al then TOne key child else TList [(k, c), (key, child)]
   | TList l \<Rightarrow>
       if key \<in> fst ` set l then TList (AList.update key child l)
       else let l' = (if TRANSITION_LIST_MAX \<le> length l then filter (\<lambda>(_, c). c \<in> set al) l else l) in
         if length l' < TRANSITION_LIST_MAX then TList (l' @ [(key, child)])
         else let m = AList.update key child l' in TMap m (2 * length m)
   | TMap m sweep_at \<Rightarrow>
       let m' = AList.update key child m in
       if sweep_at \<le> length m'
       then let m'' = filter (\<lambda>(_, c). c \<in> set al) m' in TMap m'' (max (2 * length m'') (2 * TRANSITION_LIST_MAX))
       else TMap m' sweep_at)"

subsection \<open>The store of the shapes' cells\<close>

record shape_store =
  alive :: "shape list"
  next_sid :: nat
  transitions :: "nat \<Rightarrow> transitions"
  index_cell :: "nat \<Rightarrow> shape_index option"
  probes :: "nat \<Rightarrow> nat"
  any_mask :: "nat \<Rightarrow> u64"

text \<open>\<open>Rc::new\<close> of a shape with empty cells and a mask.\<close>

definition new_shape :: "shape_store \<Rightarrow> shape option \<Rightarrow> key option \<Rightarrow> nat \<Rightarrow> nat \<Rightarrow> u8 \<Rightarrow> u64 \<Rightarrow> shape \<times> shape_store" where
  "new_shape st p k s l b bm =
     (let i = next_sid st; sh = Shape i p k s l b in
      (sh, st\<lparr>alive := sh # alive st, next_sid := i + 1, transitions := (transitions st)(i := TNone),
              index_cell := (index_cell st)(i := None), probes := (probes st)(i := 0),
              any_mask := (any_mask st)(i := bm)\<rparr>))"

definition root_shape :: "shape_store \<Rightarrow> shape \<times> shape_store" where
  "root_shape st = new_shape st None None 0 0 0 0"

definition may_be_non_number :: "shape_store \<Rightarrow> shape \<Rightarrow> nat \<Rightarrow> bool" where
  "may_be_non_number st s i \<longleftrightarrow> 64 \<le> i \<or> any_mask st (sid s) AND push_bit i 1 \<noteq> 0"

definition number_only_slots :: "shape_store \<Rightarrow> shape \<Rightarrow> u64" where
  "number_only_slots st s =
     (let all = (if 64 \<le> shape_len s then NOT 0 else push_bit (shape_len s) 1 - 1) in all AND NOT (any_mask st (sid s)))"

text \<open>The worklist of \<open>downgrade\<close>: the head of the list is the top of the stack.\<close>

partial_function (option) downgrade_loop :: "u64 \<Rightarrow> shape list \<Rightarrow> shape_store \<Rightarrow> shape_store option" where
  "downgrade_loop bm stack st = (case stack of
     [] \<Rightarrow> Some st
   | s # rest \<Rightarrow>
       let missing = bm AND NOT (any_mask st (sid s)) in
       if missing = 0 then downgrade_loop bm rest st
       else downgrade_loop bm (rev (live_children (alive st) (transitions st (sid s))) @ rest)
              (st\<lparr>any_mask := (any_mask st)(sid s := any_mask st (sid s) OR missing)\<rparr>))"

definition downgrade :: "shape_store \<Rightarrow> shape \<Rightarrow> u64 \<Rightarrow> shape_store option" where
  "downgrade st s bm =
     downgrade_loop bm (rev (live_children (alive st) (transitions st (sid s))))
       (st\<lparr>any_mask := (any_mask st)(sid s := any_mask st (sid s) OR bm)\<rparr>)"

definition note_non_numbers :: "shape_store \<Rightarrow> shape \<Rightarrow> u64 \<Rightarrow> shape_store option" where
  "note_non_numbers st s bm =
     (if bm AND NOT (any_mask st (sid s)) \<noteq> 0 then downgrade st s bm else Some st)"

definition note_non_number :: "shape_store \<Rightarrow> shape \<Rightarrow> nat \<Rightarrow> shape_store option" where
  "note_non_number st s i = (if i < 64 then note_non_numbers st s (push_bit i 1) else Some st)"

definition is_wrapper :: "shape \<Rightarrow> bool" where "is_wrapper s \<longleftrightarrow> brands s AND 1 \<noteq> 0"
definition has_brand :: "shape \<Rightarrow> u8 \<Rightarrow> bool" where "has_brand s b \<longleftrightarrow> brands s AND b \<noteq> 0"
definition has_symbol_keys :: "shape \<Rightarrow> bool" where "has_symbol_keys s \<longleftrightarrow> brands s AND SYMBOL_KEYS_BIT \<noteq> 0"
definition has_implied_fn_attrs :: "shape \<Rightarrow> bool" where "has_implied_fn_attrs s \<longleftrightarrow> brands s AND IMPLIED_FN_ATTRS_BIT \<noteq> 0"
definition has_implied_ctor_attrs :: "shape \<Rightarrow> bool" where "has_implied_ctor_attrs s \<longleftrightarrow> brands s AND IMPLIED_CTOR_ATTRS_BIT \<noteq> 0"
definition has_implied_attrs :: "shape \<Rightarrow> bool" where "has_implied_attrs s \<longleftrightarrow> brands s AND IMPLIED_ATTRS_BITS \<noteq> 0"

subsection \<open>Lookups and transitions\<close>

definition indexed_lookup :: "shape_store \<Rightarrow> shape \<Rightarrow> key \<Rightarrow> (nat option \<times> shape_store) option" where
  "indexed_lookup st s key = (case index_cell st (sid s) of
     Some ix \<Rightarrow> map_option (\<lambda>r. (r, st)) (index_find ix key)
   | None \<Rightarrow>
       let n = probes st (sid s) + 1; st1 = st\<lparr>probes := (probes st)(sid s := n)\<rparr> in
       if INDEX_AFTER_PROBES \<le> n then
         Option.bind (build_index s) (\<lambda>ix.
           map_option (\<lambda>r. (r, st1\<lparr>index_cell := (index_cell st1)(sid s := Some ix)\<rparr>)) (index_find ix key))
       else Some (walk_lookup s key, st1))"

definition lookup :: "shape_store \<Rightarrow> shape \<Rightarrow> key \<Rightarrow> (nat option \<times> shape_store) option" where
  "lookup st s key =
     (if INDEX_MIN_LEN \<le> shape_len s then indexed_lookup st s key else Some (walk_lookup s key, st))"

definition shape_keys :: "shape_store \<Rightarrow> shape \<Rightarrow> key list" where
  "shape_keys st s = (case index_cell st (sid s) of Some ix \<Rightarrow> ix_keys ix | None \<Rightarrow> rev (keys_walk s))"

definition keys_unordered :: "shape_store \<Rightarrow> shape \<Rightarrow> key list" where
  "keys_unordered st s = (case index_cell st (sid s) of Some ix \<Rightarrow> ix_keys ix | None \<Rightarrow> keys_walk s)"

definition add_key :: "shape_store \<Rightarrow> shape \<Rightarrow> key \<Rightarrow> shape \<times> shape_store" where
  "add_key st s key = (case trans_get (alive st) (transitions st (sid s)) key of
     Some child \<Rightarrow> (child, st)
   | None \<Rightarrow>
       (case new_shape st (Some s) (Some key) (shape_len s) (shape_len s + 1)
               ((brands s AND NOT IMPLIED_ATTRS_BITS) OR key_bits key) (any_mask st (sid s)) of
          (child, st1) \<Rightarrow>
            (child, st1\<lparr>transitions := (transitions st1)(sid s :=
               trans_insert (alive st1) (transitions st1 (sid s)) key child)\<rparr>)))"

definition transition :: "shape_store \<Rightarrow> shape \<Rightarrow> key \<Rightarrow> (shape \<times> shape_store) option" where
  "transition st s key =
     map_option (\<lambda>(r, st1). case r of Some _ \<Rightarrow> (s, st1) | None \<Rightarrow> add_key st1 s key) (lookup st s key)"

definition builtin_fn_layout :: "shape_store \<Rightarrow> shape \<Rightarrow> (shape \<times> shape_store) option" where
  "builtin_fn_layout st root =
     map_option (\<lambda>(len, st1).
       new_shape st1 (Some len) (Some (map of_char ''name'')) (shape_len len) (shape_len len + 1)
         ((brands len AND NOT IMPLIED_ATTRS_BITS) OR IMPLIED_FN_ATTRS_BIT) (any_mask st1 (sid len)))
       (transition st root (map of_char ''length''))"

definition implied_ctor_layout :: "shape_store \<Rightarrow> shape \<Rightarrow> key \<Rightarrow> shape \<times> shape_store" where
  "implied_ctor_layout st p key =
     new_shape st (Some p) (Some key) (shape_len p) (shape_len p + 1)
       (brands p OR key_bits key OR IMPLIED_CTOR_ATTRS_BIT) (any_mask st (sid p))"

definition unmarked_twin :: "shape_store \<Rightarrow> shape \<Rightarrow> (shape \<times> shape_store) option" where
  "unmarked_twin st s = (case (parent s, shape_key s) of
     (Some p, Some k) \<Rightarrow> if has_implied_attrs s then transition st p k else Some (s, st)
   | _ \<Rightarrow> Some (s, st))"

text \<open>Strong references going away: the shapes dropped, none of them the parent of one that stays.\<close>

definition droppable :: "shape_store \<Rightarrow> shape set \<Rightarrow> bool" where
  "droppable st D \<longleftrightarrow> (\<forall>s \<in> set (alive st). \<forall>p. s \<notin> D \<and> parent s = Some p \<longrightarrow> p \<notin> D)"

definition drop_shapes :: "shape_store \<Rightarrow> shape set \<Rightarrow> shape_store" where
  "drop_shapes st D = st\<lparr>alive := filter (\<lambda>s. s \<notin> D) (alive st)\<rparr>"

end
