(* ===== verification/ShapeLookup.thy ===== *)
theory ShapeLookup
  imports Shape
begin

text \<open>
  Lookups in a layout: the parent chain read as the list of its keys, the hashed index built from it (an instance of the
  probing tables), the cached children read as a map, and the invariant of the store of shapes with what a lookup keeps
  of it.
\<close>

unbundle bit_operations_syntax

subsection \<open>Layouts\<close>

text \<open>The keys of a layout in slot order, and what makes a shape one: each node adds one new key in the next slot.\<close>

definition layout :: "shape \<Rightarrow> key list" where
  "layout s = rev (keys_walk s)"

fun wf_shape :: "shape \<Rightarrow> bool" where
  "wf_shape (Shape i p k s l b) = (case p of
     None \<Rightarrow> k = None \<and> s = 0 \<and> l = 0 \<and> b = 0
   | Some q \<Rightarrow> wf_shape q \<and> s = shape_len q \<and> l = shape_len q + 1 \<and>
       (case k of None \<Rightarrow> False | Some key \<Rightarrow> key \<notin> set (keys_walk q) \<and>
          b AND NOT IMPLIED_ATTRS_BITS = (brands q AND NOT IMPLIED_ATTRS_BITS) OR key_bits key))"

lemma layout_Shape [simp]:
  "layout (Shape i None None s l b) = []"
  "layout (Shape i (Some q) (Some k) s l b) = layout q @ [k]"
  by (simp_all add: layout_def)

lemma wf_shape_cases [consumes 1, case_names root node]:
  assumes "wf_shape s"
  obtains i where "s = Shape i None None 0 0 0"
  | i q k b where "s = Shape i (Some q) (Some k) (shape_len q) (shape_len q + 1) b" "wf_shape q" "k \<notin> set (layout q)"
      "b AND NOT IMPLIED_ATTRS_BITS = (brands q AND NOT IMPLIED_ATTRS_BITS) OR key_bits k"
  using assms by (cases s) (auto simp: layout_def split: option.splits)

lemma wf_shape_induct [consumes 1, case_names root node]:
  assumes "wf_shape s" "\<And>i. P (Shape i None None 0 0 0)"
    "\<And>i q k b. wf_shape q \<Longrightarrow> P q \<Longrightarrow> k \<notin> set (layout q) \<Longrightarrow>
      b AND NOT IMPLIED_ATTRS_BITS = (brands q AND NOT IMPLIED_ATTRS_BITS) OR key_bits k \<Longrightarrow>
      P (Shape i (Some q) (Some k) (shape_len q) (shape_len q + 1) b)"
  shows "P s"
  using assms(1)
proof (induction "size s" arbitrary: s rule: less_induct)
  case less
  from less.prems show ?case
  proof (cases rule: wf_shape_cases)
    case (root i)
    then show ?thesis using assms(2) by simp
  next
    case (node i q k b)
    then have "size q < size s" by simp
    with less.hyps node show ?thesis using assms(3) by blast
  qed
qed

lemma layout_length: "wf_shape s \<Longrightarrow> length (layout s) = shape_len s"
  by (induction rule: wf_shape_induct) simp_all

lemma layout_distinct: "wf_shape s \<Longrightarrow> distinct (layout s)"
  by (induction rule: wf_shape_induct) simp_all

lemma build_walk_eq: "wf_shape s \<Longrightarrow> build_walk s = keys_walk s"
  by (induction rule: wf_shape_induct) simp_all

lemma walk_lookup_iff:
  assumes "wf_shape s"
  shows "walk_lookup s key = Some i \<longleftrightarrow> i < shape_len s \<and> layout s ! i = key"
  using assms
proof (induction rule: wf_shape_induct)
  case (node j q k b)
  have "key \<noteq> layout q ! i" if "i < shape_len q" "k = key"
    using that node layout_length nth_mem by metis
  with node layout_length [OF node(1)] show ?case by (auto simp: nth_append less_Suc_eq)
qed simp

subsection \<open>The key index\<close>

definition key_home :: "u32 \<Rightarrow> nat \<Rightarrow> nat" where "key_home h m = unat h AND m"

interpretation shape_table: probing key_home
  by unfold_locales (simp add: key_home_def nat_and_le)

lemma entry_word_parts:
  assumes "i < 2 ^ 32 - 2"
  shows "ucast (drop_bit 32 (entry_word h i)) = h" "unat (ucast (entry_word h i) - 1 :: u32) = i" "entry_word h i \<noteq> 0"
  using packed_slot_parts [OF assms, of h]
  by (simp_all add: packed_slot_def entry_word_def slot_hash_def slot_pos_def live_def)

definition table_ent :: "u64 list \<Rightarrow> nat \<Rightarrow> u32 option" where
  "table_ent t i = (if t ! i \<noteq> 0 then Some (ucast (drop_bit 32 (t ! i))) else None)"

definition keys_reach :: "u64 list \<Rightarrow> bool" where
  "keys_reach t = reach key_home (length t) (\<lambda>i. t ! i \<noteq> 0) (table_ent t)"

definition key_words :: "(nat \<times> key) list \<Rightarrow> u64 set" where
  "key_words es = (\<lambda>(i, k). entry_word (key_hash k) i) ` set es"

lemma free_entry: "0 < count (mset t) 0 \<Longrightarrow> \<exists>z < length t. t ! z = (0 :: u64)"
  by (simp add: count_greater_zero_iff in_set_conv_nth)

lemma keys_reach_put:
  assumes "keys_reach t" "i < length t" "w \<noteq> 0"
    "\<forall>p. on_path (length t) (key_home (ucast (drop_bit 32 w)) (length t - 1)) i p \<longrightarrow> t ! p \<noteq> 0"
  shows "keys_reach (t[i := w])"
proof -
  have "(\<lambda>p. t[i := w] ! p \<noteq> 0) = (\<lambda>p. t ! p \<noteq> 0)(i := True)"
    using assms(2,3) by (intro ext) (simp add: nth_list_update_neq)
  moreover have "table_ent (t[i := w]) = (table_ent t)(i := Some (ucast (drop_bit 32 w)))"
    using assms(2,3) by (intro ext) (simp add: table_ent_def nth_list_update_neq)
  ultimately show ?thesis
    using shape_table.reach_insert [of "length t" "\<lambda>p. t ! p \<noteq> 0" "table_ent t" i "ucast (drop_bit 32 w)"] assms(1,2,4)
    unfolding keys_reach_def by simp
qed

lemma place_keys_spec:
  assumes "length t = 2 ^ e" "keys_reach t" "length es < count (mset t) 0" "\<forall>(i, k) \<in> set es. i < 2 ^ 32 - 2"
  shows "\<exists>t'. place_keys (2 ^ e - 1) es t = Some t' \<and> length t' = 2 ^ e \<and> keys_reach t' \<and> 0 < count (mset t') 0 \<and>
    set t' - {0} = (set t - {0}) \<union> key_words es"
  using assms
proof (induction es arbitrary: t)
  case (Cons x es)
  obtain s k where x: "x = (s, k)" by fastforce
  let ?h = "key_home (key_hash k) (2 ^ e - 1)" and ?w = "entry_word (key_hash k) s"
  have w: "ucast (drop_bit 32 ?w) = key_hash k" "?w \<noteq> 0" using Cons.prems(4) x entry_word_parts by auto
  have "0 < count (mset t) 0" using Cons.prems(3) by linarith
  from free_entry [OF this] obtain z where z: "z < 2 ^ e" "t ! z = 0" using Cons.prems(1) by auto
  obtain i where i: "i < 2 ^ e" "probe (2 ^ e - 1) (\<lambda>i. t ! i = 0) ?h = Some i" "t ! i = 0"
    "\<forall>p < 2 ^ e. dist (2 ^ e) ?h p < dist (2 ^ e) ?h i \<longrightarrow> t ! p \<noteq> 0"
    using probe_ends [OF refl shape_table.home_less z(1), of "\<lambda>i. t ! i = 0" "key_hash k", OF z(2)]
    by (elim exE conjE) (rule that)
  let ?t = "t[i := ?w]"
  have "keys_reach ?t"
    using Cons.prems(1,2) i w by (intro keys_reach_put) (simp_all add: on_path_def)
  moreover have "count (mset ?t) 0 = count (mset t) 0 - 1"
    using count_update [of i t ?w 0] i w Cons.prems(1) by simp
  moreover have "set ?t - {0} = insert ?w (set t - {0})"
  proof -
    have "mset ?t = add_mset ?w (mset t - {#0#})" using i Cons.prems(1) by (simp add: mset_update)
    then have "set ?t = insert ?w (set_mset (mset t - {#0#}))" by (metis set_mset_add_mset_insert set_mset_mset)
    moreover have "set_mset (mset t - {#0#}) - {0} = set t - {0}" by (auto dest: in_diffD simp: in_diff_count)
    ultimately show ?thesis using w(2) by auto
  qed
  ultimately have "\<exists>t'. place_keys (2 ^ e - 1) es ?t = Some t' \<and> length t' = 2 ^ e \<and> keys_reach t' \<and> 0 < count (mset t') 0 \<and>
      set t' - {0} = insert ?w (set t - {0}) \<union> key_words es"
    using Cons.IH [of ?t] Cons.prems by auto
  then show ?case using i(2) by (simp add: x key_words_def key_home_def)
qed (auto simp: key_words_def)

lemma build_index_spec:
  assumes "wf_shape s" "shape_len s < 2 ^ 32 - 2"
  obtains ix e where "build_index s = Some ix" "ix_keys ix = layout s" "length (table ix) = 2 ^ e"
    "keys_reach (table ix)" "0 < count (mset (table ix)) 0" "set (table ix) - {0} = key_words (enumerate 0 (layout s))"
proof -
  let ?n = "length (layout s)"
  obtain e0 where e0: "next_power_of_two (?n * 2) = 2 ^ e0" "?n * 2 \<le> 2 ^ e0" by (rule next_power_of_two)
  define e where "e = max e0 4"
  have e: "max (next_power_of_two (?n * 2)) 16 = 2 ^ e"
  proof (cases "e0 \<le> 4")
    case True
    then have "(2 :: nat) ^ e0 \<le> 2 ^ 4" by (intro power_increasing) simp_all
    with True e0 show ?thesis by (simp add: e_def max_def)
  next
    case False
    then have "(2 :: nat) ^ 4 < 2 ^ e0" by (intro power_strict_increasing) simp_all
    with False e0 show ?thesis by (simp add: e_def max_def)
  qed
  have "?n * 2 \<le> 2 ^ e" "16 \<le> (2 :: nat) ^ e" using e e0 by linarith+
  then have room: "?n < 2 ^ e" by simp
  have "\<exists>t'. place_keys (2 ^ e - 1) (enumerate 0 (layout s)) (replicate (2 ^ e) 0) = Some t' \<and> length t' = 2 ^ e \<and>
      keys_reach t' \<and> 0 < count (mset t') 0 \<and>
      set t' - {0} = (set (replicate (2 ^ e) 0) - {0}) \<union> key_words (enumerate 0 (layout s))"
  proof (rule place_keys_spec)
    show "keys_reach (replicate (2 ^ e) 0)" by (simp add: keys_reach_def reach_def table_ent_def)
    show "length (enumerate 0 (layout s)) < count (mset (replicate (2 ^ e) (0 :: u64))) 0" using room by simp
    show "\<forall>(i, k) \<in> set (enumerate 0 (layout s)). i < 2 ^ 32 - 2"
      using assms layout_length by (auto simp: in_set_enumerate_eq)
  qed simp
  then show thesis
    using that e build_walk_eq [OF assms(1)] by (fastforce simp: build_index_def Let_def layout_def)
qed

lemma index_find_correct:
  assumes "wf_shape s" "shape_len s < 2 ^ 32 - 2" "build_index s = Some ix"
  shows "index_find ix key = Some (walk_lookup s key)"
proof -
  obtain e where ix: "ix_keys ix = layout s" "length (table ix) = 2 ^ e" "keys_reach (table ix)"
    "0 < count (mset (table ix)) 0" "set (table ix) - {0} = key_words (enumerate 0 (layout s))"
    using build_index_spec [OF assms(1,2)] assms(3) by auto
  let ?t = "table ix" and ?h = "key_hash key"
  let ?m = "\<lambda>i. ucast (drop_bit 32 (?t ! i)) = ?h \<and> layout s ! unat (ucast (?t ! i) - 1 :: u32) = key"
  have entries: "\<exists>j < shape_len s. ?t ! i = entry_word (key_hash (layout s ! j)) j" if "i < 2 ^ e" "?t ! i \<noteq> 0" for i
  proof -
    have "?t ! i \<in> set ?t - {0}" using that ix(2) by simp
    then obtain j k where "(j, k) \<in> set (enumerate 0 (layout s))" "?t ! i = entry_word (key_hash k) j"
      unfolding ix(5) key_words_def by auto
    then show ?thesis using layout_length [OF assms(1)] by (auto simp: in_set_enumerate_eq)
  qed
  obtain z where z: "z < 2 ^ e" "\<not> ?t ! z \<noteq> 0" using free_entry [OF ix(4)] ix(2) by auto
  have r: "reach key_home (2 ^ e) (\<lambda>i. ?t ! i \<noteq> 0) (table_ent ?t)" using ix(2,3) by (simp add: keys_reach_def)
  obtain i where i: "i < 2 ^ e" "probe (2 ^ e - 1) (\<lambda>i. \<not> ?t ! i \<noteq> 0 \<or> ?m i) (key_home ?h (2 ^ e - 1)) = Some i"
    "?t ! i \<noteq> 0 \<longrightarrow> ?m i" "\<not> ?t ! i \<noteq> 0 \<longrightarrow> (\<forall>j < 2 ^ e. table_ent ?t j = Some ?h \<longrightarrow> \<not> ?m j)"
    using shape_table.probe_find [OF r z(1) z(2), of ?m ?h] by (elim exE conjE) (rule that)
  have code: "index_find ix key = Some (if ?t ! i = 0 then None else Some (unat (ucast (?t ! i) - 1 :: u32)))"
    using i(2) ix(1,2) by (simp add: index_find_def Let_def key_home_def)
  show ?thesis
  proof (cases "?t ! i = 0")
    case True
    have "walk_lookup s key \<noteq> Some j" for j
    proof
      assume "walk_lookup s key = Some j"
      then have j: "j < shape_len s" "layout s ! j = key" using walk_lookup_iff [OF assms(1)] by auto
      then have "entry_word ?h j \<in> set ?t - {0}"
        using layout_length [OF assms(1)] unfolding ix(5) key_words_def
        by (auto simp: in_set_enumerate_eq intro!: image_eqI [of _ _ "(j, key)"])
      then obtain p where p: "p < 2 ^ e" "?t ! p = entry_word ?h j" "?t ! p \<noteq> 0" using ix(2) by (auto simp: in_set_conv_nth)
      have parts: "ucast (drop_bit 32 (entry_word ?h j)) = ?h" "unat (ucast (entry_word ?h j) - 1 :: u32) = j"
        using entry_word_parts j(1) assms(2) by simp_all
      then have "table_ent ?t p = Some ?h" "?m p" using p j by (simp_all add: table_ent_def)
      with i(4) True p(1) show False by blast
    qed
    then show ?thesis using code True by (cases "walk_lookup s key") auto
  next
    case False
    obtain j where j: "j < shape_len s" "?t ! i = entry_word (key_hash (layout s ! j)) j" using entries i(1) False by blast
    then have "unat (ucast (?t ! i) - 1 :: u32) = j" using entry_word_parts assms(2) by simp
    with i(3) False j code show ?thesis using walk_lookup_iff [OF assms(1), of key j] by simp
  qed
qed

subsection \<open>Cached children as a map\<close>

definition entries :: "transitions \<Rightarrow> (key \<times> shape) list" where
  "entries t = (case t of TNone \<Rightarrow> [] | TOne k w \<Rightarrow> [(k, w)] | TList l \<Rightarrow> l | TMap m _ \<Rightarrow> m)"

lemma entries_simps [simp]:
  "entries TNone = []" "entries (TOne k w) = [(k, w)]" "entries (TList l) = l" "entries (TMap l n) = l"
  by (simp_all add: entries_def)

lemma trans_get_entries: "trans_get al t key = Option.bind (map_of (entries t) key) (upgrade al)"
  by (cases t) (simp_all add: trans_get_def)

lemma live_children_entries: "live_children al t = filter (\<lambda>w. w \<in> set al) (map snd (entries t))"
  by (cases t) (simp_all add: live_children_def)

lemma upgrade_Some: "upgrade al w = Some c \<longleftrightarrow> w = c \<and> c \<in> set al"
  by (auto simp: upgrade_def)

lemma distinct_filter_fst: "distinct (map fst l) \<Longrightarrow> distinct (map fst (filter P l))"
  by (induction l) auto

lemma map_of_filter_alive:
  "distinct (map fst l) \<Longrightarrow>
    Option.bind (map_of (filter (\<lambda>(_, c). c \<in> set al) l) k) (upgrade al) = Option.bind (map_of l k) (upgrade al)"
proof (induction l)
  case (Cons x l)
  obtain k' c where x: "x = (k', c)" by fastforce
  have "map_of (filter (\<lambda>(_, c). c \<in> set al) l) k' = None" "map_of l k' = None"
    using Cons.prems x by (auto simp: map_of_eq_None_iff)
  with Cons x show ?case by (auto simp: upgrade_def)
qed simp

lemma map_of_update: "Option.bind (map_of (AList.update k c l) k') (upgrade al) =
  (if k' = k then upgrade al c else Option.bind (map_of l k') (upgrade al))"
  by (simp add: update_conv')

lemma trans_insert_distinct:
  assumes "distinct (map fst (entries t))"
  shows "distinct (map fst (entries (trans_insert al t key child)))"
proof (cases t)
  case (TList l)
  have "distinct (map fst (filter P l @ [(key, child)]))" if "key \<notin> fst ` set l" for P
    using assms TList that distinct_filter_fst [of l P] by auto
  moreover have "filter (\<lambda>_. True) l = l" by simp
  ultimately have "distinct (map fst (l @ [(key, child)]))" if "key \<notin> fst ` set l"
    using that by metis
  with \<open>\<And>P. key \<notin> fst ` set l \<Longrightarrow> distinct (map fst (filter P l @ [(key, child)]))\<close> show ?thesis
    using assms TList distinct_filter_fst
    by (auto simp: trans_insert_def Let_def distinct_update)
next
  case (TMap m n)
  then show ?thesis using assms by (auto simp: trans_insert_def Let_def distinct_update distinct_filter_fst)
qed (use assms in \<open>auto simp: trans_insert_def\<close>)

lemma trans_insert_get:
  assumes "distinct (map fst (entries t))" "child \<in> set al"
  shows "trans_get al (trans_insert al t key child) = (trans_get al t)(key \<mapsto> child)"
proof
  fix k
  have c: "upgrade al child = Some child" using assms(2) by (simp add: upgrade_def)
  have app: "Option.bind (map_of (l @ [(key, child)]) k) (upgrade al) =
      (if k = key then Some child else Option.bind (map_of l k) (upgrade al))" if "key \<notin> fst ` set l" for l
  proof -
    have "map_of l key = None" using that by (simp add: map_of_eq_None_iff)
    with c show ?thesis by (auto simp: map_add_def split: option.split)
  qed
  show "trans_get al (trans_insert al t key child) k = ((trans_get al t)(key \<mapsto> child)) k"
  proof (cases t)
    case (TList l)
    let ?l' = "if TRANSITION_LIST_MAX \<le> length l then filter (\<lambda>(_, c). c \<in> set al) l else l"
    have l': "Option.bind (map_of ?l' k) (upgrade al) = Option.bind (map_of l k) (upgrade al)"
      using assms(1) TList map_of_filter_alive [of l al k] by auto
    show ?thesis
    proof (cases "key \<in> fst ` set l")
      case True
      then show ?thesis using c TList by (simp add: trans_insert_def trans_get_entries map_of_update)
    next
      case False
      then have "key \<notin> fst ` set ?l'" by auto
      then have "Option.bind (map_of (entries (trans_insert al t key child)) k) (upgrade al) =
          (if k = key then Some child else Option.bind (map_of ?l' k) (upgrade al))"
        using False app [of ?l'] c TList unfolding trans_insert_def Let_def
        by (cases "length ?l' < TRANSITION_LIST_MAX") (simp_all only: transitions.case entries_simps if_True if_False map_of_update simp_thms)
      then show ?thesis unfolding l' by (simp add: trans_get_entries TList)
    qed
  next
    case (TMap m n)
    have "distinct (map fst (AList.update key child m))" using assms(1) TMap by (simp add: distinct_update)
    from map_of_filter_alive [OF this, of al k] c TMap show ?thesis
      unfolding trans_insert_def trans_get_entries by (cases "k = key"; simp add: Let_def map_of_update)
  qed (use assms(2) in \<open>auto simp: trans_insert_def trans_get_entries upgrade_def\<close>)
qed

lemma set_update: "set (AList.update k c l) \<subseteq> insert (k, c) (set l)"
  by (induction l) auto

lemma trans_insert_entries: "set (entries (trans_insert al t key child)) \<subseteq> insert (key, child) (set (entries t))"
proof (cases t)
  case (TList l)
  then show ?thesis using set_update [of key child l] set_update [of key child "filter (\<lambda>(_, c). c \<in> set al) l"]
    by (auto simp: trans_insert_def Let_def)
next
  case (TMap m n)
  then show ?thesis using set_update [of key child m] by (auto simp: trans_insert_def Let_def)
qed (auto simp: trans_insert_def)

subsection \<open>The invariant of the store\<close>

definition ordinary :: "shape \<Rightarrow> bool" where "ordinary s \<longleftrightarrow> \<not> has_implied_attrs s"

definition covers :: "u64 \<Rightarrow> u64 \<Rightarrow> bool" where "covers a b \<longleftrightarrow> b AND NOT a = 0"

lemma covers_iff: "covers a b \<longleftrightarrow> (\<forall>i. bit b i \<longrightarrow> bit a i)"
proof
  assume "covers a b"
  then have z: "\<not> bit (b AND NOT a) i" for i by (simp add: covers_def)
  show "\<forall>i. bit b i \<longrightarrow> bit a i"
  proof (intro allI impI)
    fix i assume b: "bit b i"
    then have "i < 64" using bit_imp_le_length by fastforce
    with z [of i] b show "bit a i" by (simp add: bit_simps)
  qed
next
  assume "\<forall>i. bit b i \<longrightarrow> bit a i"
  then show "covers a b" unfolding covers_def by (intro bit_word_eqI) (auto simp: bit_simps)
qed

lemma bit_or_iff_word: "bit ((a :: u64) OR b) i \<longleftrightarrow> bit a i \<or> bit b i"
  by (rule bit_or_iff)

definition trans_ok :: "shape_store \<Rightarrow> shape \<Rightarrow> bool" where
  "trans_ok st s \<longleftrightarrow> distinct (map fst (entries (transitions st (sid s)))) \<and>
     (\<forall>(k, c) \<in> set (entries (transitions st (sid s))). shape_key c = Some k \<and> parent c = Some s \<and> ordinary c \<and> sid c < next_sid st)"

definition cached :: "shape_store \<Rightarrow> shape \<Rightarrow> bool" where
  "cached st c \<longleftrightarrow> (\<forall>s k. ordinary c \<and> parent c = Some s \<and> shape_key c = Some k \<longrightarrow>
     trans_get (alive st) (transitions st (sid s)) k = Some c)"

definition covered :: "shape_store \<Rightarrow> shape \<Rightarrow> bool" where
  "covered st c \<longleftrightarrow> (\<forall>s. ordinary c \<and> parent c = Some s \<longrightarrow> covers (any_mask st (sid c)) (any_mask st (sid s)))"

definition shape_ok :: "shape_store \<Rightarrow> shape \<Rightarrow> bool" where
  "shape_ok st s \<longleftrightarrow> wf_shape s \<and> sid s < next_sid st \<and> (\<forall>p. parent s = Some p \<longrightarrow> p \<in> set (alive st)) \<and>
     (\<forall>ix. index_cell st (sid s) = Some ix \<longrightarrow> build_index s = Some ix)"

definition shape_inv :: "shape_store \<Rightarrow> bool" where
  "shape_inv st \<longleftrightarrow> inj_on sid (set (alive st)) \<and>
     (\<forall>s \<in> set (alive st). shape_ok st s \<and> trans_ok st s \<and> cached st s \<and> covered st s)"

lemma shape_invD:
  assumes "shape_inv st" "s \<in> set (alive st)"
  shows "shape_ok st s" "trans_ok st s" "cached st s" "covered st s" "wf_shape s" "sid s < next_sid st"
  using assms by (auto simp: shape_inv_def shape_ok_def)

lemma alive_eqI: "shape_inv st \<Longrightarrow> s \<in> set (alive st) \<Longrightarrow> t \<in> set (alive st) \<Longrightarrow> sid s = sid t \<Longrightarrow> s = t"
  by (auto simp: shape_inv_def inj_on_def)

subsection \<open>Lookups\<close>

text \<open>A lookup changes only the lookup count and the key index.\<close>

definition same_cells :: "shape_store \<Rightarrow> shape_store \<Rightarrow> bool" where
  "same_cells st st' \<longleftrightarrow> alive st' = alive st \<and> next_sid st' = next_sid st \<and> transitions st' = transitions st \<and>
     any_mask st' = any_mask st"

lemma lookup_spec:
  assumes "shape_inv st" "s \<in> set (alive st)" "shape_len s < 2 ^ 32 - 2"
  obtains st' where "lookup st s key = Some (walk_lookup s key, st')" "shape_inv st'" "same_cells st st'"
proof -
  note ok = shape_invD [OF assms(1,2)]
  have keep: "shape_inv st'" if "same_cells st st'"
    and new: "\<And>t ix. t \<in> set (alive st) \<Longrightarrow> index_cell st' (sid t) = Some ix \<Longrightarrow> index_cell st (sid t) = Some ix \<or> build_index t = Some ix"
    for st'
  proof -
    have c: "alive st' = alive st" "next_sid st' = next_sid st" "transitions st' = transitions st" "any_mask st' = any_mask st"
      using that(1) by (simp_all add: same_cells_def)
    have "shape_ok st' t" if "t \<in> set (alive st)" for t
      using shape_invD(1) [OF assms(1) that] new [OF that]
      unfolding shape_ok_def c by blast
    then show ?thesis using assms(1) unfolding shape_inv_def trans_ok_def cached_def covered_def c by blast
  qed
  obtain ix where ix: "build_index s = Some ix" using build_index_spec [OF ok(5) assms(3)] by metis
  note find = index_find_correct [OF ok(5) assms(3) ix, of key]
  let ?st1 = "st\<lparr>probes := (probes st)(sid s := probes st (sid s) + 1)\<rparr>"
  let ?st2 = "?st1\<lparr>index_cell := (index_cell ?st1)(sid s := Some ix)\<rparr>"
  have s1: "same_cells st ?st1" "same_cells st ?st2" "same_cells st st" by (simp_all add: same_cells_def)
  have "index_cell ?st2 (sid t) = Some ix' \<Longrightarrow> index_cell st (sid t) = Some ix' \<or> build_index t = Some ix'"
    if "t \<in> set (alive st)" for t ix'
    using ix alive_eqI [OF assms(1,2) that] by (auto split: if_splits)
  with keep [OF s1(2)] have k2: "shape_inv ?st2" by blast
  have k1: "shape_inv ?st1" by (rule keep [OF s1(1)]) simp
  show thesis
  proof (cases "INDEX_MIN_LEN \<le> shape_len s")
    case False
    then show ?thesis using that [OF _ assms(1) s1(3)] by (simp add: lookup_def)
  next
    case True
    show ?thesis
    proof (cases "index_cell st (sid s)")
      case None
      show ?thesis
      proof (cases "INDEX_AFTER_PROBES \<le> probes st (sid s) + 1")
        case late: True
        then show ?thesis using that [OF _ k2 s1(2)] True None ix find by (simp add: lookup_def indexed_lookup_def Let_def)
      next
        case False
        then show ?thesis using that [OF _ k1 s1(1)] True None by (simp add: lookup_def indexed_lookup_def Let_def)
      qed
    next
      case (Some ix')
      then have "ix' = ix" using ok(1) ix by (simp add: shape_ok_def)
      then show ?thesis using that [OF _ assms(1) s1(3)] True Some find by (simp add: lookup_def indexed_lookup_def)
    qed
  qed
qed

end
