(* ===== verification/ShapeMarks.thy ===== *)
theory ShapeMarks
  imports ShapeLookup
begin

text \<open>
  Making, sharing and dropping shapes, and the worklist that marks a layout and the layouts grown from it: each keeps the
  invariant of the store of shapes.
\<close>

unbundle bit_operations_syntax

subsection \<open>New shapes\<close>

lemma key_bits_cases: "key_bits key \<in> {0, 1, 2, 0x80, 0x81, 0x82}"
proof -
  have "brand_bit key \<in> {0, 1, 2}" by (auto simp: brand_bit_def BRAND_KEYS_def split: option.split)
  then show ?thesis by (auto simp: key_bits_def SYMBOL_KEYS_BIT_def)
qed

lemma implied_bits: "IMPLIED_ATTRS_BITS = 0x60"
  by (simp add: IMPLIED_ATTRS_BITS_def IMPLIED_FN_ATTRS_BIT_def IMPLIED_CTOR_ATTRS_BIT_def)

lemma key_bits_implied: "key_bits key AND IMPLIED_ATTRS_BITS = 0" "key_bits key AND NOT IMPLIED_ATTRS_BITS = key_bits key"
proof -
  show z: "key_bits key AND IMPLIED_ATTRS_BITS = 0" using key_bits_cases [of key] by (auto simp: implied_bits)
  show "key_bits key AND NOT IMPLIED_ATTRS_BITS = key_bits key"
  proof (rule bit_word_eqI)
    fix n assume "n < LENGTH(8)"
    have "\<not> bit (key_bits key AND IMPLIED_ATTRS_BITS) n" using z by simp
    with \<open>n < LENGTH(8)\<close> show "bit (key_bits key AND NOT IMPLIED_ATTRS_BITS) n = bit (key_bits key) n"
      by (auto simp: bit_simps)
  qed
qed

lemma brands_step: "((b AND NOT IMPLIED_ATTRS_BITS) OR key_bits key) AND NOT IMPLIED_ATTRS_BITS =
    (b AND NOT IMPLIED_ATTRS_BITS) OR key_bits key"
  by (simp add: bit.conj_disj_distrib2 key_bits_implied(2) and.assoc)

lemma ordinary_step:
  "brands c = (b AND NOT IMPLIED_ATTRS_BITS) OR key_bits key \<Longrightarrow> ordinary c"
  by (simp add: ordinary_def has_implied_attrs_def bit.conj_disj_distrib2 key_bits_implied(1) and.assoc)

text \<open>What stays true of the shapes already alive when a shape is made.\<close>

definition extends :: "shape_store \<Rightarrow> shape_store \<Rightarrow> bool" where
  "extends st st' \<longleftrightarrow> set (alive st) \<subseteq> set (alive st') \<and>
     (\<forall>t \<in> set (alive st). any_mask st' (sid t) = any_mask st (sid t))"

lemma extends_refl [simp]: "extends st st"
  by (simp add: extends_def)

lemma extends_trans: "extends st st1 \<Longrightarrow> extends st1 st2 \<Longrightarrow> extends st st2"
  unfolding extends_def by fastforce

lemma same_cells_extends: "same_cells st st' \<Longrightarrow> extends st st'"
  by (simp add: same_cells_def extends_def)

text \<open>A well-formed shape just made in a store in its invariant.\<close>

definition made :: "shape_store \<Rightarrow> shape \<Rightarrow> shape_store \<Rightarrow> bool" where
  "made st c st1 \<longleftrightarrow> shape_inv st \<and> wf_shape c \<and>
     (\<exists>bm. new_shape st (parent c) (shape_key c) (shape_slot c) (shape_len c) (brands c) bm = (c, st1) \<and>
        (\<forall>q. parent c = Some q \<longrightarrow> q \<in> set (alive st) \<and> covers bm (any_mask st (sid q))))"

lemma made_cells:
  assumes "made st c st1"
  shows "alive st1 = c # alive st" "next_sid st1 = Suc (next_sid st)" "sid c = next_sid st"
    "transitions st1 (sid c) = TNone" "index_cell st1 (sid c) = None"
    "parent c = Some q \<Longrightarrow> q \<in> set (alive st) \<and> covers (any_mask st1 (sid c)) (any_mask st (sid q))"
  using assms by (cases c; fastforce simp: made_def new_shape_def Let_def)+

lemma made_old:
  assumes "made st c st1" "t \<in> set (alive st)"
  shows "sid t \<noteq> sid c" "transitions st1 (sid t) = transitions st (sid t)" "index_cell st1 (sid t) = index_cell st (sid t)"
    "any_mask st1 (sid t) = any_mask st (sid t)"
proof -
  have "sid t < next_sid st" using shape_invD(6) assms by (auto simp: made_def)
  then show "sid t \<noteq> sid c" "transitions st1 (sid t) = transitions st (sid t)" "index_cell st1 (sid t) = index_cell st (sid t)"
    "any_mask st1 (sid t) = any_mask st (sid t)"
    using assms made_cells(3) [OF assms(1)] by (auto simp: made_def new_shape_def Let_def)
qed

lemma made_extends: "made st c st1 \<Longrightarrow> extends st st1"
  using made_old(4) made_cells(1) by (auto simp: extends_def)

lemma made_get:
  assumes "made st c st1" "t \<in> set (alive st)"
  shows "trans_get (alive st1) (transitions st (sid t)) x = trans_get (alive st) (transitions st (sid t)) x"
proof (cases "map_of (entries (transitions st (sid t))) x")
  case (Some d)
  have "trans_ok st t" using assms shape_invD(2) by (auto simp: made_def)
  then have "sid d < next_sid st" using map_of_SomeD [OF Some] by (auto simp: trans_ok_def)
  then have "d \<noteq> c" using made_cells(3) [OF assms(1)] by auto
  then show ?thesis using Some by (simp add: trans_get_entries upgrade_def made_cells(1) [OF assms(1)])
qed (simp add: trans_get_entries)

lemma made_ok:
  assumes m: "made st c st1"
  shows "inj_on sid (set (alive st1))" "t \<in> set (alive st1) \<Longrightarrow> shape_ok st1 t \<and> trans_ok st1 t \<and> covered st1 t"
    "t \<in> set (alive st) \<Longrightarrow> cached st1 t"
proof -
  have inv: "shape_inv st" using m by (simp add: made_def)
  have up: "parent t = Some q \<Longrightarrow> q \<in> set (alive st)" if "t \<in> set (alive st)" for t q
    using shape_invD(1) [OF inv that] by (auto simp: shape_ok_def)
  note new = made_cells [OF m] and old = made_old [OF m]
  have "inj_on sid (set (alive st))" using inv by (simp add: shape_inv_def)
  moreover have "sid c \<notin> sid ` set (alive st)" using old(1) by fastforce
  ultimately show "inj_on sid (set (alive st1))" by (auto simp: new(1))
  show "shape_ok st1 t \<and> trans_ok st1 t \<and> covered st1 t" if "t \<in> set (alive st1)"
  proof (cases "t = c")
    case True
    have "wf_shape c" "sid c < Suc (next_sid st)" using m new(3) by (simp_all add: made_def)
    then show ?thesis using new(6) old(4) unfolding True shape_ok_def trans_ok_def covered_def
      by (auto simp: new(1,2,4,5))
  next
    case False
    with that have t: "t \<in> set (alive st)" using new(1) by simp
    show ?thesis using shape_invD [OF inv t] old [OF t] up [OF t] old(4)
      unfolding shape_ok_def trans_ok_def covered_def by (auto simp: new(1,2))
  qed
  show "cached st1 t" if "t \<in> set (alive st)"
    using shape_invD(3) [OF inv that] up [OF that] made_get [OF m] old(2) unfolding cached_def by metis
qed

lemma made_inv: "made st c st1 \<Longrightarrow> \<not> ordinary c \<or> parent c = None \<Longrightarrow> shape_inv st1"
proof -
  assume m: "made st c st1" and c: "\<not> ordinary c \<or> parent c = None"
  have "cached st1 c" using c by (auto simp: cached_def)
  then show ?thesis using made_ok [OF m] made_cells(1) [OF m] unfolding shape_inv_def by auto
qed

subsection \<open>Adding a key\<close>

lemma add_key_spec:
  assumes "shape_inv st" "s \<in> set (alive st)" "key \<notin> set (layout s)"
  obtains c st' where "add_key st s key = (c, st')" "shape_inv st'" "c \<in> set (alive st')" "extends st st'"
    "parent c = Some s" "shape_key c = Some key" "ordinary c"
proof (cases "trans_get (alive st) (transitions st (sid s)) key")
  case (Some c)
  then have c: "(key, c) \<in> set (entries (transitions st (sid s)))" "c \<in> set (alive st)"
    by (auto simp: trans_get_entries upgrade_Some bind_eq_Some_conv dest: map_of_SomeD)
  moreover have "parent c = Some s \<and> shape_key c = Some key \<and> ordinary c"
    using shape_invD(2) [OF assms(1,2)] c(1) by (auto simp: trans_ok_def)
  ultimately show ?thesis using that [of c st] Some assms(1) by (simp add: add_key_def)
next
  case None
  let ?b = "(brands s AND NOT IMPLIED_ATTRS_BITS) OR key_bits key"
  let ?c = "Shape (next_sid st) (Some s) (Some key) (shape_len s) (shape_len s + 1) ?b"
  obtain st1 where st1: "new_shape st (Some s) (Some key) (shape_len s) (shape_len s + 1) ?b (any_mask st (sid s)) = (?c, st1)"
    by (simp add: new_shape_def Let_def)
  have wf: "wf_shape ?c"
    using shape_invD(5) [OF assms(1,2)] assms(3) brands_step by (simp add: layout_def)
  have o: "ordinary ?c" by (rule ordinary_step) simp
  have m: "made st ?c st1"
    unfolding made_def using assms(1,2) wf st1 by (auto intro!: exI [of _ "any_mask st (sid s)"] simp: covers_def)
  let ?st2 = "st1\<lparr>transitions := (transitions st1)(sid s := trans_insert (alive st1) (transitions st1 (sid s)) key ?c)\<rparr>"
  have code: "add_key st s key = (?c, ?st2)" using None st1 by (simp add: add_key_def)
  note new = made_cells [OF m] and old = made_old [OF m] and ok = made_ok [OF m]
  have s1: "s \<in> set (alive st1)" using assms(2) new(1) by simp
  have sc: "sid s \<noteq> sid ?c" using old(1) [OF assms(2)] .
  have d: "distinct (map fst (entries (transitions st1 (sid s))))" using ok(2) [OF s1] by (simp add: trans_ok_def)
  have get: "trans_get (alive st1) (transitions ?st2 (sid s)) = (trans_get (alive st1) (transitions st1 (sid s)))(key \<mapsto> ?c)"
    using trans_insert_get [OF d, of ?c "alive st1"] new(1) by simp
  have tr: "trans_ok ?st2 s"
    using ok(2) [OF s1] trans_insert_distinct [OF d] trans_insert_entries [of "alive st1" "transitions st1 (sid s)" key ?c] o new(2)
    unfolding trans_ok_def by (auto dest!: subsetD)
  have cach: "cached ?st2 t" if "t \<in> set (alive st1)" for t
  proof (cases "t = ?c")
    case True
    then show ?thesis using get by (simp add: cached_def)
  next
    case False
    then have t: "t \<in> set (alive st)" "cached st1 t" using that new(1) ok(3) by auto
    have "trans_get (alive st1) (transitions st1 (sid s)) key = None"
      using made_get [OF m assms(2)] old(2) [OF assms(2)] None by simp
    then show ?thesis using t(2) get unfolding cached_def by (auto split: if_splits)
  qed
  have "trans_ok ?st2 t" if "t \<in> set (alive st1)" for t
  proof (cases "sid t = sid s")
    case True
    then have "t = s" using ok(1) that s1 by (auto simp: inj_on_def)
    then show ?thesis using tr by simp
  next
    case False
    then show ?thesis using ok(2) [OF that] by (simp add: trans_ok_def)
  qed
  then have inv: "shape_inv ?st2"
    using ok(1,2) cach unfolding shape_inv_def shape_ok_def covered_def by simp
  have "extends st ?st2" using made_extends [OF m] by (simp add: extends_def)
  then show ?thesis using that [OF code inv] o new(1) by simp
qed

lemma transition_spec:
  assumes "shape_inv st" "s \<in> set (alive st)" "shape_len s < 2 ^ 32 - 2"
  obtains c st' where "transition st s key = Some (c, st')" "shape_inv st'" "c \<in> set (alive st')" "extends st st'"
    "layout c = (if key \<in> set (layout s) then layout s else layout s @ [key])"
    "key \<in> set (layout s) \<Longrightarrow> c = s" "key \<notin> set (layout s) \<Longrightarrow> parent c = Some s \<and> shape_key c = Some key \<and> ordinary c"
proof -
  obtain st1 where st1: "lookup st s key = Some (walk_lookup s key, st1)" "shape_inv st1" "same_cells st st1"
    using lookup_spec [OF assms] by metis
  note wf = shape_invD(5) [OF assms(1,2)]
  have found: "walk_lookup s key = None \<longleftrightarrow> key \<notin> set (layout s)"
    using walk_lookup_iff [OF wf] layout_length [OF wf] by (metis in_set_conv_nth not_None_eq)
  have s1: "s \<in> set (alive st1)" using st1(3) assms(2) by (simp add: same_cells_def)
  show thesis
  proof (cases "walk_lookup s key")
    case (Some i)
    then have "transition st s key = Some (s, st1)" "key \<in> set (layout s)" using st1(1) found by (auto simp: transition_def)
    then show thesis using that [of s st1] st1 s1 same_cells_extends by simp
  next
    case None
    obtain c st' where c: "add_key st1 s key = (c, st')" "shape_inv st'" "c \<in> set (alive st')" "extends st1 st'"
      "parent c = Some s" "shape_key c = Some key" "ordinary c"
      using add_key_spec [OF st1(2) s1] None found by metis
    have "layout c = layout s @ [key]" using c(5,6) shape_invD(5) [OF c(2,3)] by (cases c) (auto simp: layout_def)
    moreover have "transition st s key = Some (c, st')" using st1(1) None c(1) by (simp add: transition_def)
    moreover have "extends st st'" using same_cells_extends [OF st1(3)] c(4) extends_trans by blast
    ultimately show thesis using that [of c st'] c None found by simp
  qed
qed

lemma shape_inv_start:
  "shape_inv \<lparr>alive = [], next_sid = n, transitions = t, index_cell = ix, probes = pr, any_mask = m\<rparr>"
  by (simp add: shape_inv_def)

lemma root_shape_spec:
  assumes "shape_inv st" "root_shape st = (c, st')"
  shows "shape_inv st' \<and> c \<in> set (alive st') \<and> extends st st' \<and> layout c = []"
proof -
  have c: "c = Shape (next_sid st) None None 0 0 0" using assms(2) by (simp add: root_shape_def new_shape_def Let_def)
  then have m: "made st c st'" using assms by (auto simp: made_def root_shape_def)
  then show ?thesis using made_inv [OF m] made_extends [OF m] made_cells(1) [OF m] c by simp
qed

lemma drop_shapes_inv:
  assumes "shape_inv st" "droppable st D"
  shows "shape_inv (drop_shapes st D)"
proof -
  let ?st = "drop_shapes st D"
  have a: "set (alive ?st) = set (alive st) - D" by (auto simp: drop_shapes_def)
  have cells: "transitions ?st = transitions st" "index_cell ?st = index_cell st" "any_mask ?st = any_mask st" "next_sid ?st = next_sid st"
    by (simp_all add: drop_shapes_def)
  have "inj_on sid (set (alive ?st))" using assms(1) a inj_on_subset by (fastforce simp: shape_inv_def)
  moreover have "shape_ok ?st t \<and> trans_ok ?st t \<and> cached ?st t \<and> covered ?st t" if "t \<in> set (alive ?st)" for t
  proof -
    have t: "t \<in> set (alive st)" "t \<notin> D" using that a by auto
    have up: "upgrade (alive ?st) t = Some t" using that by (simp add: upgrade_def)
    have "shape_ok ?st t"
      using shape_invD(1) [OF assms(1) t(1)] assms(2) t a unfolding shape_ok_def cells droppable_def by auto
    moreover have "cached ?st t"
      using shape_invD(3) [OF assms(1) t(1)] up unfolding cached_def cells trans_get_entries
      by (auto simp: bind_eq_Some_conv upgrade_Some)
    ultimately show ?thesis
      using shape_invD(2,4) [OF assms(1) t(1)] unfolding trans_ok_def covered_def cells by blast
  qed
  ultimately show ?thesis by (simp add: shape_inv_def)
qed

subsection \<open>Marking slots\<close>

text \<open>The layouts grown from a layout by adding keys.\<close>

inductive descends :: "shape \<Rightarrow> shape \<Rightarrow> bool" for s where
  descends_refl: "descends s s"
| descends_step: "descends s p \<Longrightarrow> parent d = Some p \<Longrightarrow> ordinary d \<Longrightarrow> descends s d"

text \<open>Masks may be missing the marked bits only in shapes still on the stack.\<close>

definition pending_cover :: "u64 \<Rightarrow> shape_store \<Rightarrow> shape list \<Rightarrow> bool" where
  "pending_cover bm st stack \<longleftrightarrow> (\<forall>c \<in> set (alive st). \<forall>p. ordinary c \<and> parent c = Some p \<longrightarrow>
     covers (any_mask st (sid c) OR bm) (any_mask st (sid p)) \<and>
     (c \<in> set stack \<or> covers (any_mask st (sid c)) (any_mask st (sid p))))"

text \<open>All of the invariant but the masks.\<close>

definition links_inv :: "shape_store \<Rightarrow> bool" where
  "links_inv st \<longleftrightarrow> inj_on sid (set (alive st)) \<and> (\<forall>s \<in> set (alive st). shape_ok st s \<and> trans_ok st s \<and> cached st s)"

definition set_masks :: "shape_store \<Rightarrow> (nat \<Rightarrow> u64) \<Rightarrow> shape_store" where
  "set_masks st m = st\<lparr>any_mask := m\<rparr>"

lemma set_masks_simps [simp]:
  "alive (set_masks st m) = alive st" "next_sid (set_masks st m) = next_sid st" "transitions (set_masks st m) = transitions st"
  "any_mask (set_masks st m) = m" "set_masks (set_masks st m) m' = set_masks st m'" "set_masks st (any_mask st) = st"
  by (simp_all add: set_masks_def)

lemma links_set_masks [simp]: "links_inv (set_masks st m) = links_inv st"
  by (simp add: links_inv_def shape_ok_def trans_ok_def cached_def set_masks_def)

lemma shape_inv_links: "shape_inv st \<longleftrightarrow> links_inv st \<and> (\<forall>s \<in> set (alive st). covered st s)"
  by (auto simp: shape_inv_def links_inv_def)

lemma covers_or [simp]: "covers (a OR b) a" "covers (a OR b) b"
  by (simp_all add: covers_iff bit_simps)

lemma covers_or_same: "covers a b \<longleftrightarrow> a OR b = a"
proof
  assume "covers a b"
  then show "a OR b = a" unfolding covers_iff by (intro bit_word_eqI) (auto simp: bit_simps)
next
  assume "a OR b = a"
  then show "covers a b" by (metis covers_or(2))
qed

lemma mark_missing: "a OR (bm AND NOT a) = a OR (bm :: u64)"
  by (rule bit_word_eqI) (auto simp: bit_simps)

definition lacking :: "u64 \<Rightarrow> shape_store \<Rightarrow> shape set" where
  "lacking bm st = {c \<in> set (alive st). \<not> covers (any_mask st (sid c)) bm}"

lemma pending_pop:
  assumes "pending_cover bm st (s # rest)" "covers (any_mask st (sid s)) bm"
  shows "pending_cover bm st rest"
proof -
  have "any_mask st (sid s) OR bm = any_mask st (sid s)" using assms(2) by (simp add: covers_or_same)
  then show ?thesis using assms(1) unfolding pending_cover_def by (metis set_ConsD)
qed

lemma live_childrenI:
  assumes "links_inv st" "c \<in> set (alive st)" "ordinary c" "parent c = Some s"
  shows "c \<in> set (live_children (alive st) (transitions st (sid s)))"
proof -
  have "wf_shape c" "cached st c" using assms(1,2) by (auto simp: links_inv_def shape_ok_def)
  moreover from this(1) assms(4) obtain k where "shape_key c = Some k" by (cases rule: wf_shape_cases) auto
  ultimately have "trans_get (alive st) (transitions st (sid s)) k = Some c" using assms(3,4) by (simp add: cached_def)
  then show ?thesis
    by (force simp: trans_get_entries live_children_entries bind_eq_Some_conv upgrade_Some dest: map_of_SomeD)
qed

lemma live_childrenD:
  assumes "links_inv st" "s \<in> set (alive st)" "c \<in> set (live_children (alive st) (transitions st (sid s)))"
  shows "c \<in> set (alive st)" "ordinary c" "parent c = Some s"
  using assms unfolding links_inv_def trans_ok_def live_children_entries by fastforce+

lemma pending_mark:
  assumes "links_inv st" "s \<in> set (alive st)" "pending_cover bm st (s # rest)"
    "m = (any_mask st)(sid s := any_mask st (sid s) OR bm)"
  shows "pending_cover bm (set_masks st m) (rev (live_children (alive st) (transitions st (sid s))) @ rest)"
  unfolding pending_cover_def set_masks_simps
proof (intro ballI allI impI)
  fix c p
  assume c: "c \<in> set (alive st)" and o: "ordinary c \<and> parent c = Some p"
  have inj: "sid t = sid s \<longleftrightarrow> t = s" if "t \<in> set (alive st)" for t
    using assms(1,2) that by (auto simp: links_inv_def inj_on_def)
  have p: "p \<in> set (alive st)" using assms(1) c o by (auto simp: links_inv_def shape_ok_def)
  have before: "covers (any_mask st (sid c) OR bm) (any_mask st (sid p))"
    "c \<in> set (s # rest) \<or> covers (any_mask st (sid c)) (any_mask st (sid p))"
    using assms(3) c o by (auto simp: pending_cover_def)
  have kid: "c \<in> set (live_children (alive st) (transitions st (sid s)))" if "p = s"
    using live_childrenI [OF assms(1) c] o that by blast
  have "size p < size c" using o by (cases c) auto
  then have "p \<noteq> c" by auto
  have "covers (m (sid c) OR bm) (m (sid p))"
    using before(1) inj [OF c] inj [OF p] unfolding assms(4) by (auto simp: covers_iff bit_simps)
  moreover have "covers (m (sid c)) (m (sid p))" if "p \<noteq> s" "c \<notin> set rest"
  proof (cases "c = s")
    case True
    then show ?thesis using before(1) \<open>p \<noteq> c\<close> inj [OF p] unfolding assms(4) by simp
  next
    case False
    then show ?thesis using before(2) that inj [OF c] inj [OF p] unfolding assms(4) by simp
  qed
  ultimately show "covers (m (sid c) OR bm) (m (sid p)) \<and>
      (c \<in> set (rev (live_children (alive st) (transitions st (sid s))) @ rest) \<or> covers (m (sid c)) (m (sid p)))"
    using kid by auto
qed

lemma downgrade_loop_spec:
  assumes "links_inv st" "set stack \<subseteq> set (alive st)" "pending_cover bm st stack" "\<forall>x \<in> set stack. Q x"
    "\<And>x c. Q x \<Longrightarrow> ordinary c \<Longrightarrow> parent c = Some x \<Longrightarrow> Q c"
  shows "\<exists>m. downgrade_loop bm stack st = Some (set_masks st m) \<and> pending_cover bm (set_masks st m) [] \<and>
    (\<forall>t \<in> set (alive st). m (sid t) = any_mask st (sid t) \<or> Q t \<and> m (sid t) = any_mask st (sid t) OR bm)"
  using assms(1-4)
proof (induction "card (lacking bm st)" arbitrary: st stack rule: less_induct)
  case less
  note outer = less.hyps
  show ?case using less.prems(2-4)
  proof (induction stack)
    case Nil
    then show ?case by (subst downgrade_loop.simps) (auto intro!: exI [of _ "any_mask st"])
  next
    case (Cons s rest)
    let ?a = "any_mask st (sid s)"
    show ?case
    proof (cases "covers ?a bm")
      case True
      then have "downgrade_loop bm (s # rest) st = downgrade_loop bm rest st"
        by (subst downgrade_loop.simps) (simp add: covers_def)
      with Cons pending_pop [OF Cons.prems(2) True] show ?thesis by simp
    next
      case False
      let ?m = "(any_mask st)(sid s := ?a OR bm)"
      let ?st = "set_masks st ?m" and ?stack = "rev (live_children (alive st) (transitions st (sid s))) @ rest"
      have s: "s \<in> set (alive st)" using Cons.prems(1) by simp
      have inj: "sid t = sid s \<longleftrightarrow> t = s" if "t \<in> set (alive st)" for t
        using less.prems(1) s that by (auto simp: links_inv_def inj_on_def)
      have "lacking bm ?st = lacking bm st - {s}" using inj by (auto simp: lacking_def)
      moreover have "s \<in> lacking bm st" using s False by (simp add: lacking_def)
      moreover have "finite (lacking bm st)" by (simp add: lacking_def)
      ultimately have dec: "card (lacking bm ?st) < card (lacking bm st)" by (metis card_Diff1_less)
      note kids = live_childrenD [OF less.prems(1) s]
      have "\<forall>x \<in> set ?stack. Q x" using Cons.prems(3) kids assms(5) [of s] by auto
      moreover have "set ?stack \<subseteq> set (alive ?st)" using Cons.prems(1) kids(1) by auto
      ultimately obtain m where m: "downgrade_loop bm ?stack ?st = Some (set_masks st m)" "pending_cover bm (set_masks st m) []"
        "\<forall>t \<in> set (alive st). m (sid t) = ?m (sid t) \<or> Q t \<and> m (sid t) = ?m (sid t) OR bm"
        using outer [OF dec, of ?stack] less.prems(1) pending_mark [OF less.prems(1) s Cons.prems(2) refl] by auto
      have "downgrade_loop bm (s # rest) st = downgrade_loop bm ?stack ?st"
        using False by (subst downgrade_loop.simps) (simp add: covers_def Let_def mark_missing set_masks_def)
      moreover have "\<forall>t \<in> set (alive st). m (sid t) = any_mask st (sid t) \<or> Q t \<and> m (sid t) = any_mask st (sid t) OR bm"
        using m(3) inj Cons.prems(3) by (auto simp: or.assoc split: if_splits)
      ultimately show ?thesis using m(1,2) by metis
    qed
  qed
qed

lemma pending_start:
  assumes "shape_inv st" "s \<in> set (alive st)" "m = (any_mask st)(sid s := any_mask st (sid s) OR bm)"
  shows "pending_cover bm (set_masks st m) (rev (live_children (alive st) (transitions st (sid s))))"
proof -
  have "pending_cover bm st [s]"
    using assms(1) unfolding pending_cover_def shape_inv_def covered_def covers_iff by (auto simp: bit_simps)
  then show ?thesis using pending_mark [of st s bm "[]" m] assms by (simp add: shape_inv_links)
qed

lemma note_non_numbers_spec:
  assumes "shape_inv st" "s \<in> set (alive st)"
  obtains m where "note_non_numbers st s bm = Some (set_masks st m)" "shape_inv (set_masks st m)"
    "\<And>t. t \<in> set (alive st) \<Longrightarrow> m (sid t) = (if descends s t then any_mask st (sid t) OR bm else any_mask st (sid t))"
proof -
  have links: "links_inv st" using assms(1) by (simp add: shape_inv_links)
  have exact: "m (sid t) = (if descends s t then any_mask st (sid t) OR bm else any_mask st (sid t))"
    if "shape_inv (set_masks st m)" "covers (m (sid s)) bm" "t \<in> set (alive st)"
      "\<And>t. t \<in> set (alive st) \<Longrightarrow> m (sid t) = any_mask st (sid t) \<or> descends s t \<and> m (sid t) = any_mask st (sid t) OR bm" for m t
  proof -
    have cov: "covers (m (sid t)) bm" if "descends s t" "t \<in> set (alive st)" for t
      using that
    proof (induction rule: descends.induct)
      case (descends_step p d)
      then have "p \<in> set (alive st)" using links by (auto simp: links_inv_def shape_ok_def)
      then have "covers (m (sid p)) bm" using descends_step.IH by blast
      moreover have "covers (m (sid d)) (m (sid p))"
        using \<open>shape_inv (set_masks st m)\<close> descends_step by (auto simp: shape_inv_def covered_def)
      ultimately show ?case by (auto simp: covers_iff)
    qed (rule \<open>covers (m (sid s)) bm\<close>)
    show ?thesis
    proof (cases "descends s t")
      case True
      from cov [OF this that(3)] have "m (sid t) OR bm = m (sid t)" by (simp add: covers_or_same)
      with that(4) [OF that(3)] True show ?thesis by auto
    next
      case False
      with that(4) [OF that(3)] show ?thesis by auto
    qed
  qed
  show thesis
  proof (cases "covers (any_mask st (sid s)) bm")
    case True
    then have code: "note_non_numbers st s bm = Some (set_masks st (any_mask st))" by (simp add: note_non_numbers_def covers_def)
    have "any_mask st (sid t) = (if descends s t then any_mask st (sid t) OR bm else any_mask st (sid t))" if "t \<in> set (alive st)" for t
      by (rule exact) (use assms(1) True that in simp_all)
    with code show thesis using that [of "any_mask st"] assms(1) by simp
  next
    case False
    let ?m = "(any_mask st)(sid s := any_mask st (sid s) OR bm)"
    let ?stack = "rev (live_children (alive st) (transitions st (sid s)))"
    note kids = live_childrenD [OF links assms(2)]
    have Q: "\<forall>x \<in> set ?stack. descends s x" using kids by (auto intro: descends.intros)
    have sub: "set ?stack \<subseteq> set (alive (set_masks st ?m))" using kids(1) by auto
    have links': "links_inv (set_masks st ?m)" using links by simp
    have "\<exists>m. downgrade_loop bm ?stack (set_masks st ?m) = Some (set_masks (set_masks st ?m) m) \<and>
        pending_cover bm (set_masks (set_masks st ?m) m) [] \<and>
        (\<forall>t \<in> set (alive (set_masks st ?m)). m (sid t) = any_mask (set_masks st ?m) (sid t) \<or>
           descends s t \<and> m (sid t) = any_mask (set_masks st ?m) (sid t) OR bm)"
      by (rule downgrade_loop_spec [OF links' sub pending_start [OF assms refl] Q descends_step])
    then obtain m where m: "downgrade_loop bm ?stack (set_masks st ?m) = Some (set_masks st m)" "pending_cover bm (set_masks st m) []"
      "\<forall>t \<in> set (alive st). m (sid t) = ?m (sid t) \<or> descends s t \<and> m (sid t) = ?m (sid t) OR bm"
      unfolding set_masks_simps by (elim exE conjE) (rule that)
    have inj: "sid t = sid s \<longleftrightarrow> t = s" if "t \<in> set (alive st)" for t
      using links assms(2) that by (auto simp: links_inv_def inj_on_def)
    have step: "m (sid t) = any_mask st (sid t) \<or> descends s t \<and> m (sid t) = any_mask st (sid t) OR bm" if "t \<in> set (alive st)" for t
      using m(3) inj that by (auto simp: or.assoc descends_refl split: if_splits)
    have inv: "shape_inv (set_masks st m)"
      using links m(2) by (auto simp: shape_inv_links pending_cover_def covered_def)
    have cov: "covers (m (sid s)) bm" using m(3) assms(2) by (auto simp: or.assoc)
    have code: "note_non_numbers st s bm = Some (set_masks st m)"
      using False m(1) by (simp add: note_non_numbers_def downgrade_def covers_def set_masks_def)
    show thesis by (rule that [OF code inv]) (rule exact [OF inv cov _ step])
  qed
qed

end
