(* ===== verification/ShapeLaws.thy ===== *)
theory ShapeLaws
  imports ShapeMarks
begin

text \<open>
  Every store of shapes the operations of \<open>shape.rs\<close> reach, and the correctness of lookups, transitions and marks in it.
\<close>

unbundle bit_operations_syntax

subsection \<open>Every store the operations reach\<close>

definition no_shapes :: shape_store where
  "no_shapes = \<lparr>alive = [], next_sid = 0, transitions = (\<lambda>_. TNone), index_cell = (\<lambda>_. None), probes = (\<lambda>_. 0),
     any_mask = (\<lambda>_. 0)\<rparr>"

text \<open>A slot is below the index's bound: its number plus one fills the low half of an index word.\<close>

definition indexable :: "shape \<Rightarrow> bool" where
  "indexable s \<longleftrightarrow> shape_len s < 2 ^ 32 - 2"

inductive shape_step :: "shape_store \<Rightarrow> shape_store \<Rightarrow> bool" for st where
  step_root: "root_shape st = (c, st') \<Longrightarrow> shape_step st st'"
| step_lookup: "s \<in> set (alive st) \<Longrightarrow> indexable s \<Longrightarrow> lookup st s key = Some (r, st') \<Longrightarrow> shape_step st st'"
| step_transition: "s \<in> set (alive st) \<Longrightarrow> indexable s \<Longrightarrow> transition st s key = Some (c, st') \<Longrightarrow> shape_step st st'"
| step_builtin: "s \<in> set (alive st) \<Longrightarrow> shape_len s = 0 \<Longrightarrow> builtin_fn_layout st s = Some (c, st') \<Longrightarrow> shape_step st st'"
| step_ctor: "s \<in> set (alive st) \<Longrightarrow> \<not> has_implied_attrs s \<Longrightarrow> key \<notin> set (layout s) \<Longrightarrow>
    implied_ctor_layout st s key = (c, st') \<Longrightarrow> shape_step st st'"
| step_twin: "s \<in> set (alive st) \<Longrightarrow> indexable s \<Longrightarrow> unmarked_twin st s = Some (c, st') \<Longrightarrow> shape_step st st'"
| step_note: "s \<in> set (alive st) \<Longrightarrow> note_non_numbers st s bm = Some st' \<Longrightarrow> shape_step st st'"
| step_drop: "droppable st D \<Longrightarrow> shape_step st (drop_shapes st D)"

inductive shapes_reach :: "shape_store \<Rightarrow> bool" where
  reach_start: "shapes_reach no_shapes"
| reach_step: "shapes_reach st \<Longrightarrow> shape_step st st' \<Longrightarrow> shapes_reach st'"

lemma key_bits_name: "key_bits (map of_char ''name'') = 0"
  by (simp add: key_bits_def starts_with_def)

lemma implied_brands:
  "((b AND NOT IMPLIED_ATTRS_BITS) OR IMPLIED_FN_ATTRS_BIT) AND NOT IMPLIED_ATTRS_BITS = b AND NOT IMPLIED_ATTRS_BITS"
  "((b OR k OR IMPLIED_CTOR_ATTRS_BIT) AND NOT IMPLIED_ATTRS_BITS) = (b AND NOT IMPLIED_ATTRS_BITS) OR (k AND NOT IMPLIED_ATTRS_BITS)"
  "((b AND NOT IMPLIED_ATTRS_BITS) OR IMPLIED_FN_ATTRS_BIT) AND IMPLIED_ATTRS_BITS \<noteq> 0"
  "(b OR k OR IMPLIED_CTOR_ATTRS_BIT) AND IMPLIED_ATTRS_BITS \<noteq> 0"
proof -
  let ?i = IMPLIED_ATTRS_BITS
  have z: "IMPLIED_FN_ATTRS_BIT AND NOT ?i = 0" "IMPLIED_CTOR_ATTRS_BIT AND NOT ?i = 0"
    "IMPLIED_FN_ATTRS_BIT AND ?i = 0x40" "IMPLIED_CTOR_ATTRS_BIT AND ?i = 0x20"
    by (simp_all add: implied_bits IMPLIED_FN_ATTRS_BIT_def IMPLIED_CTOR_ATTRS_BIT_def)
  have nz: "(x OR 0x40) \<noteq> 0" "(x OR 0x20) \<noteq> 0" for x :: u8
  proof -
    have "bit (x OR 0x40) 6" "bit (x OR 0x20) 5" by (simp_all add: bit_simps)
    then show "(x OR 0x40) \<noteq> 0" "(x OR 0x20) \<noteq> 0" by (metis bit_0_eq bot_apply bot_bool_def)+
  qed
  show "((b AND NOT ?i) OR IMPLIED_FN_ATTRS_BIT) AND NOT ?i = b AND NOT ?i"
    "((b OR k OR IMPLIED_CTOR_ATTRS_BIT) AND NOT ?i) = (b AND NOT ?i) OR (k AND NOT ?i)"
    by (simp_all add: bit.conj_disj_distrib2 z and.assoc)
  show "((b AND NOT ?i) OR IMPLIED_FN_ATTRS_BIT) AND ?i \<noteq> 0" "(b OR k OR IMPLIED_CTOR_ATTRS_BIT) AND ?i \<noteq> 0"
    using nz by (simp_all add: bit.conj_disj_distrib2 z flip: or.assoc)
qed

lemma implied_made:
  assumes "shape_inv st" "p \<in> set (alive st)" "key \<notin> set (layout p)"
    "new_shape st (Some p) (Some key) (shape_len p) (shape_len p + 1) b (any_mask st (sid p)) = (c, st')"
    "b AND NOT IMPLIED_ATTRS_BITS = (brands p AND NOT IMPLIED_ATTRS_BITS) OR key_bits key" "b AND IMPLIED_ATTRS_BITS \<noteq> 0"
  shows "shape_inv st' \<and> c \<in> set (alive st') \<and> extends st st' \<and> layout c = layout p @ [key] \<and> \<not> ordinary c \<and> parent c = Some p \<and>
    shape_key c = Some key \<and> brands c = b"
proof -
  have c: "c = Shape (next_sid st) (Some p) (Some key) (shape_len p) (shape_len p + 1) b"
    using assms(4) by (simp add: new_shape_def Let_def)
  have "wf_shape c" using shape_invD(5) [OF assms(1,2)] assms(3,5) by (simp add: c layout_def)
  then have m: "made st c st'"
    unfolding made_def using assms(1,2,4) by (auto simp: c covers_def intro!: exI [of _ "any_mask st (sid p)"])
  have "\<not> ordinary c" using assms(6) by (simp add: c ordinary_def has_implied_attrs_def)
  then show ?thesis using made_inv [OF m] made_extends [OF m] made_cells(1) [OF m] by (simp add: c)
qed

lemma builtin_fn_layout_spec:
  assumes "shape_inv st" "root \<in> set (alive st)" "shape_len root = 0"
  obtains c st' where "builtin_fn_layout st root = Some (c, st')" "shape_inv st'" "c \<in> set (alive st')" "extends st st'"
    "layout c = [map of_char ''length'', map of_char ''name'']" "has_implied_fn_attrs c"
proof -
  have "layout root = []" using layout_length [OF shape_invD(5) [OF assms(1,2)]] assms(3) by simp
  have "shape_len root < 2 ^ 32 - 2" using assms(3) by simp
  from transition_spec [OF assms(1,2) this] obtain len st1 where t0: "transition st root (map of_char ''length'') = Some (len, st1)"
    "shape_inv st1" "len \<in> set (alive st1)" "extends st st1"
    "layout len = (if map of_char ''length'' \<in> set (layout root) then layout root else layout root @ [map of_char ''length''])"
    by metis
  note t = t0(1-4) t0(5) [unfolded \<open>layout root = []\<close>, simplified]
  obtain c st' where n: "new_shape st1 (Some len) (Some (map of_char ''name'')) (shape_len len) (shape_len len + 1)
      ((brands len AND NOT IMPLIED_ATTRS_BITS) OR IMPLIED_FN_ATTRS_BIT) (any_mask st1 (sid len)) = (c, st')" by fastforce
  have "map of_char ''name'' \<notin> set (layout len)" using t(5) by simp
  moreover have "((brands len AND NOT IMPLIED_ATTRS_BITS) OR IMPLIED_FN_ATTRS_BIT) AND NOT IMPLIED_ATTRS_BITS =
      (brands len AND NOT IMPLIED_ATTRS_BITS) OR key_bits (map of_char ''name'')"
    by (simp only: implied_brands(1) key_bits_name or.right_neutral)
  ultimately have made: "shape_inv st' \<and> c \<in> set (alive st') \<and> extends st1 st' \<and> layout c = layout len @ [map of_char ''name''] \<and>
      \<not> ordinary c \<and> parent c = Some len \<and> shape_key c = Some (map of_char ''name'') \<and>
      brands c = (brands len AND NOT IMPLIED_ATTRS_BITS) OR IMPLIED_FN_ATTRS_BIT"
    by (rule implied_made [OF t(2,3) _ n _ implied_brands(3)])
  have "has_implied_fn_attrs c"
  proof -
    have "bit ((x OR 0x40) AND 0x40) 6" for x :: u8 by (simp add: bit_simps)
    then have "(x OR 0x40) AND 0x40 \<noteq> 0" for x :: u8 by (metis bit_0_eq bot_apply bot_bool_def)
    with made show ?thesis by (simp add: has_implied_fn_attrs_def IMPLIED_FN_ATTRS_BIT_def)
  qed
  moreover have "builtin_fn_layout st root = Some (c, st')" unfolding builtin_fn_layout_def t(1) using n by simp
  ultimately show thesis using that made t(4,5) extends_trans by auto
qed

lemma implied_ctor_layout_spec:
  assumes "shape_inv st" "p \<in> set (alive st)" "key \<notin> set (layout p)" "implied_ctor_layout st p key = (c, st')"
  shows "shape_inv st' \<and> c \<in> set (alive st') \<and> extends st st' \<and> layout c = layout p @ [key] \<and> \<not> ordinary c \<and> parent c = Some p \<and>
    shape_key c = Some key"
  using implied_made [OF assms(1-3), of "brands p OR key_bits key OR IMPLIED_CTOR_ATTRS_BIT"] assms(4) implied_brands(2,4) [of "brands p" "key_bits key"]
  by (simp add: implied_ctor_layout_def key_bits_implied(2))

lemma unmarked_twin_spec:
  assumes "shape_inv st" "s \<in> set (alive st)" "indexable s"
  obtains c st' where "unmarked_twin st s = Some (c, st')" "shape_inv st'" "c \<in> set (alive st')" "extends st st'"
    "layout c = layout s" "ordinary c"
proof (cases "\<not> ordinary s")
  case True
  obtain p k where p: "parent s = Some p" "shape_key s = Some k" "shape_len s = shape_len p + 1" "wf_shape p"
    "k \<notin> set (layout p)" "layout s = layout p @ [k]"
    using shape_invD(5) [OF assms(1,2)] True
    by (cases rule: wf_shape_cases) (auto simp: ordinary_def has_implied_attrs_def)
  have "p \<in> set (alive st)" "shape_len p < 2 ^ 32 - 2"
    using shape_invD(1) [OF assms(1,2)] p(1,3) assms(3) by (auto simp: shape_ok_def indexable_def)
  then obtain c st' where "transition st p k = Some (c, st')" "shape_inv st'" "c \<in> set (alive st')" "extends st st'"
    "layout c = layout p @ [k]" "ordinary c"
    using transition_spec [OF assms(1), of p k] p(5) by metis
  then show ?thesis using that p True by (simp add: unmarked_twin_def ordinary_def)
next
  case False
  then show ?thesis using that [of s st] assms by (simp add: unmarked_twin_def ordinary_def split: option.split)
qed

lemma shape_step_inv: "shape_step st st' \<Longrightarrow> shape_inv st \<Longrightarrow> shape_inv st'"
proof (induction rule: shape_step.induct)
  case (step_root c st')
  then show ?case using root_shape_spec by blast
next
  case (step_lookup s key r st')
  then show ?case using lookup_spec [of st s key] by (force simp: indexable_def)
next
  case (step_transition s key c st')
  then show ?case using transition_spec [of st s key] by (force simp: indexable_def)
next
  case (step_builtin s c st')
  then show ?case using builtin_fn_layout_spec [of st s] by force
next
  case (step_ctor s key c st')
  then show ?case using implied_ctor_layout_spec by blast
next
  case (step_twin s c st')
  then show ?case using unmarked_twin_spec [of st s] by force
next
  case (step_note s bm st')
  then show ?case using note_non_numbers_spec [of st s bm] by force
next
  case (step_drop D)
  then show ?case by (simp add: drop_shapes_inv)
qed

lemma shapes_reach_inv: "shapes_reach st \<Longrightarrow> shape_inv st"
  by (induction rule: shapes_reach.induct) (simp_all add: no_shapes_def shape_inv_start shape_step_inv)

lemma position_eq: "position P l = Some i \<longleftrightarrow> i < length l \<and> P (l ! i) \<and> (\<forall>j < i. \<not> P (l ! j))"
proof (induction l arbitrary: i)
  case (Cons x l)
  then show ?case by (cases i) (auto simp: less_Suc_eq_0_disj)
qed simp

lemma walk_lookup_position:
  assumes "wf_shape s"
  shows "walk_lookup s key = position (\<lambda>k. k = key) (layout s)"
proof -
  have "walk_lookup s key = Some i \<longleftrightarrow> position (\<lambda>k. k = key) (layout s) = Some i" for i
    using walk_lookup_iff [OF assms] layout_distinct [OF assms] layout_length [OF assms]
    by (auto simp: position_eq nth_eq_iff_index_eq)
  then show ?thesis by (metis option.exhaust)
qed

lemma shape_keys_layout:
  assumes "shape_inv st" "s \<in> set (alive st)" "indexable s"
  shows "shape_keys st s = layout s" "set (keys_unordered st s) = set (layout s)"
proof -
  note ok = shape_invD [OF assms(1,2)]
  obtain ix e where "build_index s = Some ix" "ix_keys ix = layout s"
    using build_index_spec [OF ok(5)] assms(3) by (auto simp: indexable_def)
  then show "shape_keys st s = layout s" "set (keys_unordered st s) = set (layout s)"
    using ok(1) by (auto simp: shape_keys_def keys_unordered_def shape_ok_def layout_def split: option.split)
qed

text \<open>C14: in every store the operations reach, looking a key up in a live layout returns, whether the lookup walks the
  parent chain, builds the hashed index or answers from it, exactly what a scan of the layout's keys in slot order gives:
  the slot of the key, or nothing when the layout lacks it. The listing of the layout's keys agrees with that order, and
  the lookup leaves the shapes, their cached children and their masks as they were.\<close>

theorem shape_lookup_correct:
  assumes "shapes_reach st" "s \<in> set (alive st)" "indexable s"
  shows "\<exists>st'. lookup st s key = Some (position (\<lambda>k. k = key) (layout s), st') \<and> shapes_reach st' \<and> same_cells st st' \<and>
    shape_keys st s = layout s \<and> shape_keys st' s = layout s"
proof -
  note inv = shapes_reach_inv [OF assms(1)]
  have "shape_len s < 2 ^ 32 - 2" using assms(3) by (simp only: indexable_def)
  then obtain st' where st': "lookup st s key = Some (walk_lookup s key, st')" "shape_inv st'" "same_cells st st'"
    using lookup_spec [OF inv assms(2)] by metis
  have "s \<in> set (alive st')" using st'(3) assms(2) by (simp add: same_cells_def)
  then have "shape_keys st' s = layout s" "shape_keys st s = layout s" "shapes_reach st'"
    using shape_keys_layout(1) assms inv st' step_lookup reach_step by blast+
  then show ?thesis using st' walk_lookup_position [OF shape_invD(5) [OF inv assms(2)]] by auto
qed

definition two_keys :: "shape \<times> shape_store" where
  "two_keys = (case root_shape no_shapes of (r, st) \<Rightarrow>
     (case add_key st r [120] of (x, st) \<Rightarrow> add_key st x [121]))"

lemma two_keys_shape: "fst two_keys = Shape 2 (Some (Shape 1 (Some (Shape 0 None None 0 0 0)) (Some [120]) 0 1 0)) (Some [121]) 1 2 0"
  by code_simp

lemma two_keys_reach: "shapes_reach (snd two_keys)" "fst two_keys \<in> set (alive (snd two_keys))"
proof -
  let ?r = "Shape 0 None None 0 0 0"
  let ?x = "Shape 1 (Some ?r) (Some [120]) 0 1 0"
  obtain r st0 where st0: "root_shape no_shapes = (r, st0)" by fastforce
  obtain x st1 where st1: "add_key st0 r [120] = (x, st1)" by fastforce
  obtain y st2 where st2: "add_key st1 x [121] = (y, st2)" by fastforce
  have 0: "r = ?r" "r \<in> set (alive st0)" using st0 by (auto simp: root_shape_def new_shape_def Let_def no_shapes_def)
  have 1: "x = ?x" "x \<in> set (alive st1)"
    using st0 st1 by (auto simp: root_shape_def new_shape_def Let_def add_key_def no_shapes_def trans_get_def key_bits_def starts_with_def)
  have 2: "y \<in> set (alive st2)"
    using st0 st1 st2
    by (auto simp: root_shape_def new_shape_def Let_def add_key_def no_shapes_def trans_get_def key_bits_def starts_with_def)
  have "transition st0 r [120] = Some (x, st1)" "transition st1 x [121] = Some (y, st2)"
    using st1 st2 by (simp_all add: transition_def lookup_def 0 1 INDEX_MIN_LEN_def)
  moreover have "indexable r" "indexable x" by (simp_all add: 0 1 indexable_def)
  moreover have "shapes_reach st0" by (rule reach_step [OF reach_start step_root [OF st0]])
  ultimately have "shapes_reach st2" using 0(2) 1(2) step_transition reach_step by metis
  then show "shapes_reach (snd two_keys)" "fst two_keys \<in> set (alive (snd two_keys))"
    using 2 by (simp_all add: two_keys_def st0 st1 st2)
qed

theorem shape_lookup_correct_witness:
  "\<exists>st'. lookup (snd two_keys) (fst two_keys) [121] = Some (Some 1, st') \<and> shapes_reach st'"
proof -
  have i: "indexable (fst two_keys)" by (simp add: two_keys_shape indexable_def)
  have "position (\<lambda>k. k = [121]) (layout (fst two_keys)) = Some 1" by (simp add: two_keys_shape)
  with shape_lookup_correct [OF two_keys_reach i, of "[121]"] show ?thesis by auto
qed

text \<open>A live child of a live layout is what its transition returns, in whatever store.\<close>

lemma transition_live_child:
  assumes inv: "shape_inv st" and s: "s \<in> set (alive st)" "indexable s"
    and c: "c \<in> set (alive st)" "parent c = Some s" "shape_key c = Some key" "ordinary c"
  shows "\<exists>st'. transition st s key = Some (c, st') \<and> alive st' = alive st"
proof -
  have len: "shape_len s < 2 ^ 32 - 2" using s(2) by (simp only: indexable_def)
  obtain st' where st': "lookup st s key = Some (walk_lookup s key, st')" "shape_inv st'" "same_cells st st'"
    using lookup_spec [OF inv s(1) len] by metis
  have same: "alive st' = alive st" using st'(3) by (simp add: same_cells_def)
  have "key \<notin> set (layout s)"
    using shape_invD(5) [OF inv c(1)] c(2,3) by (cases rule: wf_shape_cases) auto
  then have "walk_lookup s key = None"
    using walk_lookup_iff [OF shape_invD(5) [OF inv s(1)]] layout_length [OF shape_invD(5) [OF inv s(1)]]
    by (metis not_None_eq nth_mem)
  moreover have "cached st' c" using shape_invD(3) [OF st'(2)] c(1) same by simp
  then have "trans_get (alive st') (transitions st' (sid s)) key = Some c" using c by (simp add: cached_def)
  ultimately show ?thesis using st'(1) same by (simp add: transition_def add_key_def)
qed

text \<open>C15: in every store the operations reach, the transition of a live layout by a key returns a live, ordinary layout whose
  keys are the old ones with the new key behind them, in the next slot, and that is the layout itself when it already
  has the key; every shape that was live keeps its mask. Transitions are shared: whichever of a layout's live children
  (its ordinary ones, in whatever order and number they were made, and whatever else has happened to the store since)
  was grown by the key, the transition returns that same child and makes no second one.\<close>

theorem shape_transition_correct:
  assumes "shapes_reach st" "s \<in> set (alive st)" "indexable s"
  shows "(\<exists>c st'. transition st s key = Some (c, st') \<and> shapes_reach st' \<and> c \<in> set (alive st') \<and> extends st st' \<and>
      layout c = (if key \<in> set (layout s) then layout s else layout s @ [key]) \<and>
      (if key \<in> set (layout s) then c = s else parent c = Some s \<and> shape_key c = Some key \<and> ordinary c)) \<and>
    (\<forall>c \<in> set (alive st). parent c = Some s \<longrightarrow> shape_key c = Some key \<longrightarrow> ordinary c \<longrightarrow>
      (\<exists>st'. transition st s key = Some (c, st') \<and> alive st' = alive st))"
proof -
  note inv = shapes_reach_inv [OF assms(1)]
  have len: "shape_len s < 2 ^ 32 - 2" using assms(3) by (simp only: indexable_def)
  obtain c st' where c: "transition st s key = Some (c, st')" "shape_inv st'" "c \<in> set (alive st')" "extends st st'"
    "layout c = (if key \<in> set (layout s) then layout s else layout s @ [key])"
    "key \<in> set (layout s) \<Longrightarrow> c = s" "key \<notin> set (layout s) \<Longrightarrow> parent c = Some s \<and> shape_key c = Some key \<and> ordinary c"
    using transition_spec [OF inv assms(2) len, of key] by blast
  have "shapes_reach st'" using reach_step [OF assms(1) step_transition [OF assms(2,3) c(1)]] .
  then have "\<exists>c st'. transition st s key = Some (c, st') \<and> shapes_reach st' \<and> c \<in> set (alive st') \<and> extends st st' \<and>
      layout c = (if key \<in> set (layout s) then layout s else layout s @ [key]) \<and>
      (if key \<in> set (layout s) then c = s else parent c = Some s \<and> shape_key c = Some key \<and> ordinary c)"
    using c by (intro exI [of _ c] exI [of _ st']) simp
  then show ?thesis using transition_live_child [OF inv assms(2,3)] by blast
qed

text \<open>The layout that already has the child for \<open>y\<close> grows a second one, for \<open>z\<close>; both are then what
  their transitions return.\<close>

theorem shape_transition_correct_witness:
  "\<exists>z st z' st'. transition (snd two_keys) (the (parent (fst two_keys))) [122] = Some (z, st) \<and> layout z = [[120], [122]] \<and>
     (\<exists>st''. transition st (the (parent (fst two_keys))) [121] = Some (fst two_keys, st'')) \<and>
     transition st (the (parent (fst two_keys))) [122] = Some (z', st') \<and> z' = z"
proof -
  let ?x = "the (parent (fst two_keys))"
  have x: "?x = Shape 1 (Some (Shape 0 None None 0 0 0)) (Some [120]) 0 1 0" by (simp add: two_keys_shape)
  then have i: "indexable ?x" and l: "layout ?x = [[120]]" by (simp_all add: indexable_def)
  have al: "?x \<in> set (alive (snd two_keys))" by code_simp
  have y: "parent (fst two_keys) = Some ?x" "shape_key (fst two_keys) = Some [121]" "ordinary (fst two_keys)"
    by (simp_all add: two_keys_shape ordinary_def has_implied_attrs_def)
  obtain z st where z: "transition (snd two_keys) ?x [122] = Some (z, st)" "shapes_reach st" "z \<in> set (alive st)"
    "extends (snd two_keys) st" "layout z = [[120], [122]]" "parent z = Some ?x \<and> shape_key z = Some [122] \<and> ordinary z"
    using shape_transition_correct [OF two_keys_reach(1) al i, of "[122]"] by (auto simp: l)
  have "?x \<in> set (alive st)" "fst two_keys \<in> set (alive st)" using z(4) al two_keys_reach(2) by (auto simp: extends_def)
  note again = conjunct2 [OF shape_transition_correct [OF z(2) this(1) i]] this(2)
  have "\<exists>st''. transition st ?x [121] = Some (fst two_keys, st'')" using again y by blast
  moreover have "\<exists>st'. transition st ?x [122] = Some (z, st')" using again(1) z(3,6) by blast
  ultimately show ?thesis using z(1,5) by blast
qed

text \<open>C13: in every store the operations reach, marking slots of a live layout as holding something other than a Number
  returns, and marks them on exactly the live ordinary layouts grown from it by adding keys (itself included), leaving every
  other mask, and every shape, as it was; so no live ordinary layout ever promises a Number in a slot that its parent does
  not promise one in. The layouts with implied attributes are not reached from their parents: they keep their masks, and
  may go on promising a Number where the parent no longer does.\<close>

theorem marking_slots_exact:
  assumes "shapes_reach st" "s \<in> set (alive st)"
  shows "\<exists>m. note_non_numbers st s bm = Some (st\<lparr>any_mask := m\<rparr>) \<and> shapes_reach (st\<lparr>any_mask := m\<rparr>) \<and>
    (\<forall>t \<in> set (alive st). m (sid t) = (if descends s t then any_mask st (sid t) OR bm else any_mask st (sid t)) \<and>
       (\<forall>p i. ordinary t \<and> parent t = Some p \<and> may_be_non_number (st\<lparr>any_mask := m\<rparr>) p i \<longrightarrow>
          may_be_non_number (st\<lparr>any_mask := m\<rparr>) t i) \<and>
       (\<not> ordinary t \<and> t \<noteq> s \<longrightarrow> m (sid t) = any_mask st (sid t)))"
proof -
  obtain m where m: "note_non_numbers st s bm = Some (set_masks st m)" "shape_inv (set_masks st m)"
    "\<And>t. t \<in> set (alive st) \<Longrightarrow> m (sid t) = (if descends s t then any_mask st (sid t) OR bm else any_mask st (sid t))"
    using note_non_numbers_spec [OF shapes_reach_inv [OF assms(1)] assms(2), of bm] by blast
  have "may_be_non_number (set_masks st m) t i"
    if "t \<in> set (alive st)" "ordinary t" "parent t = Some p" "may_be_non_number (set_masks st m) p i" for t p i
  proof (cases "64 \<le> i")
    case False
    have "covers (m (sid t)) (m (sid p))" using shape_invD(4) [OF m(2)] that by (auto simp: covered_def)
    with that(4) False show ?thesis
      by (auto simp: may_be_non_number_def covers_iff push_bit_of_1 and_exp_eq_0_iff_not_bit)
  qed (simp add: may_be_non_number_def)
  moreover have "\<not> descends s t" if "\<not> ordinary t" "t \<noteq> s" for t
    using that by (auto elim: descends.cases)
  ultimately show ?thesis
    using m reach_step [OF assms(1) step_note [OF assms(2) m(1)]]
    unfolding set_masks_def by (intro exI [of _ m]) auto
qed

theorem marking_slots_exact_witness:
  "\<exists>m. note_non_numbers (snd two_keys) (Shape 1 (Some (Shape 0 None None 0 0 0)) (Some [120]) 0 1 0) 1 =
    Some ((snd two_keys)\<lparr>any_mask := m\<rparr>) \<and> m 0 = 0 \<and> m 1 = 1 \<and> m 2 = 1"
proof -
  let ?r = "Shape 0 None None 0 0 0"
  let ?x = "Shape 1 (Some ?r) (Some [120]) 0 1 0"
  let ?y = "Shape 2 (Some ?x) (Some [121]) 1 2 0"
  have al: "set (alive (snd two_keys)) = {?r, ?x, ?y}" "any_mask (snd two_keys) 0 = 0" "any_mask (snd two_keys) 1 = 0" "any_mask (snd two_keys) 2 = 0"
    by code_simp+
  have o: "ordinary ?x" "ordinary ?y" by (simp_all add: ordinary_def has_implied_attrs_def)
  have "descends ?x ?x" by (rule descends_refl)
  moreover have "descends ?x ?y" by (rule descends_step [OF descends_refl _ o(2)]) simp
  moreover have "\<not> descends ?x ?r"
    by (auto elim: descends.cases)
  ultimately show ?thesis
    using marking_slots_exact [OF two_keys_reach(1), of ?x 1] al by auto
qed

end
