(* ===== verification/Spec2Isabelle.thy ===== *)
theory Spec2Isabelle
  imports GcWitness Wtf8String TemporalTime TemporalRounding TemporalDifference TemporalDuration
    HandleMapLaws CollIndex FlatBc Base64Laws ShapeLaws
begin

text \<open>
  \<^bold>\<open>Kataan: values, heap, strings and calendar.\<close>

  Kataan is a JavaScript engine. A register bytecode machine (\<open>nbvm.rs\<close>), hosted by the interpreter runtime
  (\<open>nbexec/\<close>, \<open>realm.rs\<close>) and accelerated by a machine-code compiler (\<open>jit.rs\<close>, \<open>jit/\<close>), runs every program.
  Below it lie the parts this development models: the 64-bit representation of a value (\<open>nanbox.rs\<close>), the slot
  heap whose handles those values carry (\<open>heap.rs\<close>), the collectors that reclaim its slots (\<open>gc.rs\<close>), the
  hidden classes of its objects (\<open>shape.rs\<close>), the
  encoding of JavaScript strings as bytes (\<open>wtf8.rs\<close>), the hash tables of the realm (\<open>realm/handle_map.rs\<close>,
  \<open>realm/coll_index.rs\<close>), the flat bytecode that is run in place (\<open>flatbc.rs\<close>), the base64 and hex codecs
  (\<open>nbexec/base64.rs\<close>) and the calendar arithmetic of the \<open>Temporal\<close> objects (\<open>temporal_iso.rs\<close>). Source files are named relative to \<open>src/src/\<close>.

  \<^bold>\<open>Values.\<close> \<open>Nanbox\<close> keeps a value as a \<open>64 word\<close>: a double's bits, or a tag and a 48-bit payload in the space
  of the quiet NaNs. Its functions are those of \<open>nanbox.rs\<close> (\<open>pack\<close>, \<open>unpack\<close>, the predicates, \<open>same_value\<close>,
  \<open>strict_equals\<close>). Shown: packing and unpacking are inverse in both directions, every box a value packs to is in
  exactly one class, in which its accessor alone answers, equality by bits is \<open>SameValue\<close> on those boxes, the sentinels
  of the JIT are no value's encoding.

  \<^bold>\<open>Heap.\<close> \<open>Handle\<close> and \<open>Heap\<close> hold the handle (slot index and generation), the slot record and every operation
  of the slot table: \<open>alloc\<close> with the free list's top-up, \<open>peek\<close>, \<open>get_mut\<close> with the write barrier, \<open>swap\<close>, \<open>free\<close>,
  ages and the remembered set. The value type and its tracing function are parameters, as they are in the source.
  \<open>HeapOps\<close> proves the invariant \<open>heap_inv\<close> of every operation, \<open>HeapStore\<close> that allocation refines a finite map
  extended at fresh keys. \<open>Sweep\<close>, \<open>SweepLaws\<close>, \<open>MinorSweep\<close> and \<open>CompactLaws\<close> model the full sweep, the nursery
  sweep (optimised and plain) and the relocation, with what each does to every slot.

  \<^bold>\<open>Collectors.\<close> \<open>Gc\<close> models \<open>collect\<close>, \<open>collect_minor\<close>, \<open>compact\<close>, the ephemeron fixpoint and the incremental
  marker. \<open>GcLaws\<close>, \<open>GcMinor\<close>, \<open>GcBarrier\<close>, \<open>GcCompact\<close> and \<open>GcIncremental\<close> show that each keeps exactly what is
  reachable, that the write barrier keeps the generational invariant, and that incremental marking loses no
  object; \<open>GcRun\<close> composes them with the mutator into a step relation and proves the invariant of every run by
  rule induction. Its runs allocate, store through the barrier, swap, free and collect, by a full, a nursery or a
  compacting collection; poison mode is off in them, and stores through a shared borrow, which bypass the barrier,
  are not among them. A handle is issued once between two compactions: a compaction truncates the table and the
  slots pushed later start again at generation 0, so a handle freed before it can be issued after it. \<open>GcTransparent\<close> states the contract of a collector as the locale \<open>collector\<close>, interpreted by the
  three collectors: a program cannot observe a collection. \<open>GcWitness\<close> evaluates them on a concrete heap.

  \<^bold>\<open>Strings.\<close> \<open>Wtf8\<close> holds the codec on byte lists; \<open>Wtf8Bits\<close> to \<open>Wtf8Order\<close> the laws of the encoding, of the
  rejoined surrogate pairs, of length, slicing and order; \<open>Wtf8String\<close> the locale \<open>js_string\<close>, a string as a
  sequence of UTF-16 units, and its interpretation by the codec.

  \<^bold>\<open>Tables.\<close> \<open>ProbeTable\<close> holds the probe loop of the open-addressing tables and the locale \<open>probing\<close>, over the
  function that gives a key its home bucket: every entry is reached from its home without crossing a free bucket,
  which placing, growth and backward-shift deletion keep. \<open>HandleMap\<close> is the side table keyed by raw handles, with
  its bitset and key log; \<open>HandleMapLaws\<close> shows, through the locale \<open>keyed_store\<close>, that any sequence of its
  operations answers as a finite map. \<open>CollIndex\<close> is the lookup index of \<open>Map\<close> and \<open>Set\<close> objects, with
  tombstones: it records exactly the positions inserted and not removed. Bucket indices and lengths are naturals.

  \<^bold>\<open>Hidden classes.\<close> \<open>Shape\<close> holds the layouts of \<open>shape.rs\<close>: a shape is its parent chain, and its cells (cached
  children, key index, lookup count, mask of slots not Number-only) live in a store under its address, with the list of
  shapes still alive, which weak links are tested against. \<open>ShapeLookup\<close> shows that the hashed index answers as the
  chain, \<open>ShapeMarks\<close> that the worklist marks exactly the layouts grown from one, \<open>ShapeLaws\<close> gathers the operations in a
  step relation, in whose reachable stores lookups, transitions and marks are correct. Marking reaches the layouts
  that transitions made; the cached layouts of constructors' instances and of builtin functions are no child in any
  cache and are not marked, which the theorem on marking says too. Slot numbers are naturals.

  \<^bold>\<open>Flat bytecode.\<close> \<open>FlatBc\<close> holds the encoder of the 16-byte records and the interpreter over the byte buffer, with
  an outcome for a panic: every read of the buffer, of the header too, is one that may fail. The specification is a machine on the list of instructions whose registers are integers;
  the locale \<open>machine_sim\<close> carries the agreement of steps to that of runs, ending or not. Shown: running an
  encoding is running the program, and no buffer whatever, however short, makes the interpreter read outside it.

  \<^bold>\<open>Base64.\<close> \<open>Base64\<close> holds the decoders and encoders of \<open>nbexec/base64.rs\<close>; \<open>Base64Text\<close> a reference decoder on
  the symbols of a text, with which the index-based one agrees; \<open>Base64Laws\<close> the round trips, that strict decoding
  accepts the canonical texts alone, and that decoding is total, bounded and resumable.

  \<^bold>\<open>Calendar.\<close> \<open>TemporalIso\<close> holds dates, times, durations and rounding; \<open>TemporalDays\<close> shows that day counts and
  dates are inverse and equally ordered, \<open>TemporalWeek\<close> the ISO weeks, \<open>TemporalTime\<close> the balancing of times, \<open>TemporalRounding\<close> the
  nine rounding modes and the rounding of calendar counts, \<open>TemporalDifference\<close> that a difference of dates is always
  found, added back gives the other date and is the largest that fits, \<open>TemporalDuration\<close> the balancing and the
  validity of durations.

  \<^bold>\<open>Loops and bounds.\<close> Loops over lists are structural; the others carry a \<open>termination\<close> proof by a measure. The
  tracing loops of the collectors run until the worklist is empty, which their measures (unmarked objects left)
  bound. The two search loops of \<open>difference_iso_date\<close>, the probe loops of the tables and the dispatch loop of the
  flat bytecode are \<open>partial_function (option)\<close>, where not returning is \<open>None\<close>; the theorems show that the first two
  return, and when the third does. Machine integers are words in the value, handle, heap, bytecode and codec
  theories; in the calendar they are integers with every narrowing cast written out. The 128-bit arithmetic of
  durations, of rounding and of the calendar nudge is checked, \<open>None\<close> standing for an overflow, and the theorems say
  where it happens; the 64-bit sums of \<open>add_iso_date\<close> and the 32-bit ones of \<open>iso_week_of_year\<close> are plain integers,
  which the ranges assumed by their theorems keep far from the limits.

  \<^bold>\<open>Not modelled.\<close> The bytecode machine, the JIT, the realm and the built-in library, the parser, the regular
  expression engine, the WebAssembly engine and the snapshot codec: each is larger than everything modelled here
  and works on the object model of \<open>cell.rs\<close> and \<open>object.rs\<close>. Memory layout (slot byte offsets, the object pool)
  and \<open>quantize_duration_fields\<close>, which rounds through a double, are left out, and so is the second half of
  \<open>temporal_iso.rs\<close> (from line 776), the formatting and the parsing of ISO 8601 strings.
\<close>

end
